(* ===== verification/Prelude.thy ===== *)
theory Prelude
  imports Main "HOL-Library.Word"
begin

unbundle bit_operations_syntax

text \<open>
  What every component shares: the ways a Rust call can end other than by returning, the
  result type and its sequencing, \<open>usize\<close> arithmetic in the two build profiles, the
  stores addressed by an index (the raw tables behind the address maps and the line mark
  table), and the interface of a FIFO injector queue.
\<close>

named_theorems res_simps \<open>evaluation of the result sequencing\<close>
named_theorems usize_simps \<open>bounds and value of usize operations\<close>

section \<open>Results\<close>

text \<open>
  \<open>Overflow\<close>, \<open>DebugAssert\<close>, \<open>AssertFailed\<close>, \<open>IndexOutOfBounds\<close>, \<open>UnwrapFailed\<close> and
  \<open>Panic\<close> are Rust panics. \<open>UB\<close> marks an access the Rust reference leaves undefined
  (a raw pointer outside its allocation, a misaligned dereference): the program has no
  guaranteed behaviour after it, and the model stops there.
\<close>

datatype rust_error =
    Overflow
  | DebugAssert string
  | AssertFailed string
  | IndexOutOfBounds
  | UnwrapFailed string
  | Panic string
  | UB string

type_synonym 'a res = "rust_error + 'a"

definition bind_res :: "'a res \<Rightarrow> ('a \<Rightarrow> 'b res) \<Rightarrow> 'b res" where
  "bind_res r f = (case r of Inl e \<Rightarrow> Inl e | Inr x \<Rightarrow> f x)"

definition guard_res :: "rust_error \<Rightarrow> bool \<Rightarrow> unit res" where
  "guard_res e b = (if b then Inr () else Inl e)"

lemma bind_res_simps [simp, res_simps]:
  "bind_res (Inl e) f = Inl e"
  "bind_res (Inr x) f = f x"
  by (simp_all add: bind_res_def)

lemma bind_res_eq_Inr [simp, res_simps]:
  "bind_res r f = Inr y \<longleftrightarrow> (\<exists>x. r = Inr x \<and> f x = Inr y)"
  by (cases r) auto

lemma bind_res_cong [fundef_cong]:
  assumes "r = r'" and "\<And>x. r' = Inr x \<Longrightarrow> f x = f' x"
  shows "bind_res r f = bind_res r' f'"
  using assms by (cases r') auto

lemma guard_res_simps [simp, res_simps]:
  "guard_res e True = Inr ()"
  "guard_res e False = Inl e"
  "guard_res e b = Inr u \<longleftrightarrow> b"
  "guard_res e b = Inl e' \<longleftrightarrow> \<not> b \<and> e' = e"
  by (auto simp: guard_res_def)

text \<open>A computation that may also not return: \<open>None\<close> is not returning.\<close>

definition bind_ro :: "'a res option \<Rightarrow> ('a \<Rightarrow> 'b res option) \<Rightarrow> 'b res option" where
  "bind_ro r f = (case r of None \<Rightarrow> None | Some (Inl e) \<Rightarrow> Some (Inl e) | Some (Inr x) \<Rightarrow> f x)"

lemma bind_ro_simps [simp, res_simps]:
  "bind_ro None f = None"
  "bind_ro (Some (Inl e)) f = Some (Inl e)"
  "bind_ro (Some (Inr x)) f = f x"
  by (simp_all add: bind_ro_def)

lemma bind_ro_eq_Inr [simp, res_simps]:
  "bind_ro r f = Some (Inr y) \<longleftrightarrow> (\<exists>x. r = Some (Inr x) \<and> f x = Some (Inr y))"
  by (auto simp: bind_ro_def split: option.splits sum.splits)

lemma bind_ro_cong [fundef_cong]:
  assumes "r = r'" and "\<And>x. r' = Some (Inr x) \<Longrightarrow> f x = f' x"
  shows "bind_ro r f = bind_ro r' f'"
  using assms by (auto simp: bind_ro_def split: option.splits sum.splits)

section \<open>usize in the two build profiles\<close>

text \<open>
  The dev profile compiles overflow checks and \<open>debug_assert!\<close> in, the release profile
  compiles both out and wraps around. \<open>usize\<close> is 64 bits wide (the README's target is
  x86_64). Addresses and sizes are words; indices and counters are naturals below
  \<open>2 ^ 64\<close> with the wrap-around written out in \<open>nat_add\<close> and \<open>nat_sub\<close>.
\<close>

type_synonym usize = "64 word"
type_synonym u8 = "8 word"

datatype profile = Debug | Release

definition debug_assert :: "profile \<Rightarrow> string \<Rightarrow> bool \<Rightarrow> unit res" where
  "debug_assert p msg b = (if p = Debug then guard_res (DebugAssert msg) b else Inr ())"

definition overflowed :: "profile \<Rightarrow> 'a \<Rightarrow> 'a res" where
  "overflowed p wrapped = (case p of Debug \<Rightarrow> Inl Overflow | Release \<Rightarrow> Inr wrapped)"

definition usize_add :: "profile \<Rightarrow> usize \<Rightarrow> usize \<Rightarrow> usize res" where
  "usize_add p a b = (if unat a + unat b < 2 ^ 64 then Inr (a + b) else overflowed p (a + b))"

definition usize_sub :: "profile \<Rightarrow> usize \<Rightarrow> usize \<Rightarrow> usize res" where
  "usize_sub p a b = (if b \<le> a then Inr (a - b) else overflowed p (a - b))"

definition nat_add :: "profile \<Rightarrow> nat \<Rightarrow> nat \<Rightarrow> nat res" where
  "nat_add p a b = (if a + b < 2 ^ 64 then Inr (a + b) else overflowed p ((a + b) mod 2 ^ 64))"

definition nat_sub :: "profile \<Rightarrow> nat \<Rightarrow> nat \<Rightarrow> nat res" where
  "nat_sub p a b = (if b \<le> a then Inr (a - b) else overflowed p (2 ^ 64 + a - b))"

lemma overflowed_simps [simp]:
  "overflowed Debug x = Inl Overflow"
  "overflowed Release x = Inr x"
  by (simp_all add: overflowed_def)

lemma debug_assert_simps [simp]:
  "debug_assert p msg True = Inr ()"
  "debug_assert Release msg b = Inr ()"
  "debug_assert Debug msg b = Inr () \<longleftrightarrow> b"
  by (auto simp: debug_assert_def)

lemma debug_assert_ok [simp]: "b \<Longrightarrow> debug_assert p msg b = Inr ()"
  by simp

lemma usize_add_ok [usize_simps]:
  "unat a + unat b < 2 ^ 64 \<Longrightarrow> usize_add p a b = Inr (a + b)"
  by (simp add: usize_add_def)

lemma usize_sub_ok [usize_simps]: "b \<le> a \<Longrightarrow> usize_sub p a b = Inr (a - b)"
  by (simp add: usize_sub_def)

lemma nat_add_ok [usize_simps]: "a + b < 2 ^ 64 \<Longrightarrow> nat_add p a b = Inr (a + b)"
  by (simp add: nat_add_def)

lemma nat_sub_ok [usize_simps]: "b \<le> a \<Longrightarrow> nat_sub p a b = Inr (a - b)"
  by (simp add: nat_sub_def)

lemma unat_add_small [usize_simps]:
  "unat a + unat b < 2 ^ 64 \<Longrightarrow> unat (a + b :: usize) = unat a + unat b"
  using unat_add_lem [of a b] by simp

lemma unat_sub_le [usize_simps]: "b \<le> a \<Longrightarrow> unat (a - b :: usize) = unat a - unat b"
  by (rule unat_sub)

lemma unat_lt_64 [simp]: "unat (a :: usize) < 18446744073709551616"
  using unsigned_less [of a] by simp

lemma unat_drop_bit_64: "unat (drop_bit n (a :: usize)) = unat a div 2 ^ n"
  unfolding unat_drop_bit_eq by (simp add: drop_bit_eq_div)

lemma round_up_bounds:
  fixes a m :: nat
  assumes "0 < m"
  shows "a \<le> (a + m - 1) div m * m" and "(a + m - 1) div m * m < a + m"
proof -
  have "(a + m - 1) div m * m + (a + m - 1) mod m = a + m - 1" by (rule div_mult_mod_eq)
  moreover have "(a + m - 1) mod m < m" using assms by simp
  ultimately show "a \<le> (a + m - 1) div m * m" and "(a + m - 1) div m * m < a + m"
    using assms by linarith+
qed

lemma unat_exp_64:
  assumes "k < 64"
  shows "unat (2 ^ k :: usize) = 2 ^ k"
proof -
  have "(2 :: nat) ^ k < 2 ^ 64" using assms by (rule power_strict_increasing) simp
  then have "unat (of_nat (2 ^ k) :: usize) = 2 ^ k" unfolding unat_of_nat by simp
  then show ?thesis by (simp only: of_nat_power of_nat_numeral)
qed

lemma unat_of_nat_small: "n < 2 ^ 64 \<Longrightarrow> unat (of_nat n :: usize) = n"
  by (simp add: unat_of_nat)

section \<open>Numbers\<close>

text \<open>\<open>{}\<close> of an unsigned number, and the reading of it.\<close>

definition dec_digit :: "nat \<Rightarrow> char" where
  "dec_digit n = char_of (48 + n)"

fun dec_str :: "nat \<Rightarrow> string" where
  "dec_str n = (if n < 10 then [dec_digit n] else dec_str (n div 10) @ [dec_digit (n mod 10)])"

declare dec_str.simps [simp del]

definition is_digit :: "char \<Rightarrow> bool" where
  "is_digit ch \<longleftrightarrow> 48 \<le> (of_char ch :: nat) \<and> (of_char ch :: nat) < 58"

definition dec_val :: "string \<Rightarrow> nat" where
  "dec_val s = foldl (\<lambda>acc ch. 10 * acc + (of_char ch - 48)) 0 s"

lemma dec_digit_ok: "n < 10 \<Longrightarrow> is_digit (dec_digit n) \<and> of_char (dec_digit n) - 48 = n"
  by (simp add: is_digit_def dec_digit_def of_char_of)

lemma dec_val_snoc: "dec_val (s @ [ch]) = 10 * dec_val s + (of_char ch - 48)"
  by (simp add: dec_val_def)

lemma dec_str_ok: "dec_str n \<noteq> [] \<and> list_all is_digit (dec_str n) \<and> dec_val (dec_str n) = n"
proof (induction n rule: dec_str.induct)
  case (1 n)
  show ?case
  proof (cases "n < 10")
    case True
    then show ?thesis using dec_digit_ok [OF True] dec_val_snoc [of "[]"] by (simp add: dec_str.simps [of n] dec_val_def)
  next
    case False
    then have "n mod 10 < 10" by simp
    then show ?thesis using 1 False dec_digit_ok [of "n mod 10"] by (simp add: dec_str.simps [of n] dec_val_snoc)
  qed
qed

text \<open>\<open>{:p}\<close> of a pointer: lower-case hexadecimal digits.\<close>

definition lower_hex_digit :: "nat \<Rightarrow> char" where
  "lower_hex_digit n = (if n < 10 then char_of (48 + n) else char_of (87 + n))"

fun lower_hex_str :: "nat \<Rightarrow> string" where
  "lower_hex_str n =
     (if n < 16 then [lower_hex_digit n] else lower_hex_str (n div 16) @ [lower_hex_digit (n mod 16)])"

declare lower_hex_str.simps [simp del]

definition pointer_str :: "usize \<Rightarrow> string" where
  "pointer_str ptr = ''0x'' @ lower_hex_str (unat ptr)"

end
