(* ===== verification/Address.thy ===== *)
theory Address
  imports Prelude
begin

unbundle bit_operations_syntax

text \<open>
  \<open>src/src/common/mod.rs\<close>: the newtypes \<open>Address\<close> and \<open>ObjectReference\<close> over \<open>usize\<close>, their
  arithmetic in both build profiles, their derived order and their formatting.
\<close>

section \<open>Addresses\<close>

definition LOG_POINTER_SIZE :: nat where
  "LOG_POINTER_SIZE = 3"

text \<open>\<open>size_of::<*mut ()>()\<close> on the 64-bit target.\<close>

definition POINTER_SIZE :: usize where
  "POINTER_SIZE = 8"

datatype address = Address (as_usize: usize)

datatype object_reference = ObjectReference (oref_as_usize: usize)

text \<open>The derived \<open>PartialOrd\<close> compares the wrapped number.\<close>

definition address_le :: "address \<Rightarrow> address \<Rightarrow> bool" where
  "address_le a b \<longleftrightarrow> as_usize a \<le> as_usize b"

definition address_less :: "address \<Rightarrow> address \<Rightarrow> bool" where
  "address_less a b \<longleftrightarrow> as_usize a < as_usize b"

instantiation address :: linorder
begin

definition less_eq_address :: "address \<Rightarrow> address \<Rightarrow> bool" where
  "less_eq_address = address_le"

definition less_address :: "address \<Rightarrow> address \<Rightarrow> bool" where
  "less_address = address_less"

instance
  by standard (auto simp: less_eq_address_def less_address_def address_le_def address_less_def intro: address.expand)

end

lemma address_order: "a \<le> b \<longleftrightarrow> as_usize a \<le> as_usize b" "a < b \<longleftrightarrow> as_usize a < as_usize b"
  by (simp_all add: less_eq_address_def address_le_def less_address_def address_less_def)

abbreviation addr_nat :: "address \<Rightarrow> nat" where
  "addr_nat a \<equiv> unat (as_usize a)"

lemma address_le_iff: "a \<le> b \<longleftrightarrow> addr_nat a \<le> addr_nat b"
  by (simp add: address_order word_le_nat_alt)

lemma address_less_iff: "a < b \<longleftrightarrow> addr_nat a < addr_nat b"
  by (simp add: address_order word_less_nat_alt)

lemma addr_nat_inject: "addr_nat a = addr_nat b \<longleftrightarrow> a = b"
  by (auto simp: word_unat_eq_iff [symmetric] intro: address.expand)

lemmas address_order_iff = address_le_iff address_less_iff

definition addr_plus :: "profile \<Rightarrow> address \<Rightarrow> usize \<Rightarrow> address res" where
  "addr_plus p self bytes = bind_res (usize_add p (as_usize self) bytes) (\<lambda>r. Inr (Address r))"

definition diff :: "profile \<Rightarrow> address \<Rightarrow> address \<Rightarrow> usize res" where
  "diff p self another =
     bind_res (debug_assert p ''for a.diff(b), a needs to be larger than b''
                 (as_usize another \<le> as_usize self))
       (\<lambda>_. usize_sub p (as_usize self) (as_usize another))"

definition align_up :: "profile \<Rightarrow> address \<Rightarrow> usize \<Rightarrow> address res" where
  "align_up p self align =
     bind_res (usize_add p (as_usize self) align) (\<lambda>s.
     bind_res (usize_sub p s 1) (\<lambda>t.
     bind_res (usize_sub p align 1) (\<lambda>m.
       Inr (Address (t AND NOT m)))))"

definition to_object_reference :: "address \<Rightarrow> object_reference" where
  "to_object_reference self = ObjectReference (as_usize self)"

definition from_ptr :: "usize \<Rightarrow> address" where
  "from_ptr ptr = Address ptr"

definition to_ptr :: "address \<Rightarrow> usize" where
  "to_ptr self = as_usize self"

definition null_address :: address where
  "null_address = Address 0"

definition to_address :: "object_reference \<Rightarrow> address" where
  "to_address self = Address (oref_as_usize self)"

lemma to_address_to_object_reference [simp]:
  "to_address (to_object_reference a) = a"
  "to_object_reference (to_address r) = r"
  by (cases a; cases r; simp add: to_address_def to_object_reference_def)+

lemma addr_nat_to_address [simp]: "as_usize (to_address r) = oref_as_usize r"
  by (simp add: to_address_def)

section \<open>Arithmetic without overflow\<close>

lemma addr_plus_ok:
  assumes "addr_nat a + unat n < 2 ^ 64"
  shows "\<exists>b. addr_plus p a n = Inr b \<and> addr_nat b = addr_nat a + unat n"
  using assms by (simp add: addr_plus_def usize_simps)

lemma diff_ok:
  assumes "b \<le> a"
  shows "diff p a b = Inr (as_usize a - as_usize b)"
    and "unat (as_usize a - as_usize b) = addr_nat a - addr_nat b"
  using assms by (simp_all add: diff_def address_order usize_simps)

lemma diff_release: "diff Release a b = Inr (as_usize a - as_usize b)"
  by (simp add: diff_def usize_sub_def)

lemma diff_debug_lt: "a < b \<Longrightarrow>
    diff Debug a b = Inl (DebugAssert ''for a.diff(b), a needs to be larger than b'')"
  by (simp add: diff_def debug_assert_def guard_res_def address_order not_le [symmetric])

lemma unat_and_not_mask:
  fixes t :: usize
  shows "unat (t AND NOT (mask k)) = unat t - unat t mod 2 ^ k"
proof -
  have "t AND NOT (mask k) = t - take_bit k t"
    by (subst disjunctive_diff_eq_and_not) (auto simp: bit_eq_iff bit_simps)
  moreover have "take_bit k t \<le> t"
    unfolding word_le_nat_alt unsigned_take_bit_eq by (simp add: take_bit_eq_mod)
  moreover have "unat (take_bit k t) = unat t mod 2 ^ k"
    unfolding unsigned_take_bit_eq by (simp add: take_bit_eq_mod)
  ultimately show ?thesis by (simp add: unat_sub)
qed

text \<open>
  Rounding up to a power of two: when the address plus the alignment does not overflow,
  both profiles return the least aligned address that is not below the argument.
\<close>

lemma align_up_ok:
  assumes k: "k < 64" and ov: "addr_nat a + 2 ^ k < 2 ^ 64"
  shows "\<exists>b. align_up p a (2 ^ k) = Inr b \<and> 2 ^ k dvd addr_nat b \<and>
    addr_nat a \<le> addr_nat b \<and> addr_nat b < addr_nat a + 2 ^ k"
proof -
  have pow: "unat (2 ^ k :: usize) = 2 ^ k" using k by (rule unat_exp_64)
  define t where "t = as_usize a + 2 ^ k - 1"
  have sum: "unat (as_usize a + 2 ^ k) = addr_nat a + 2 ^ k"
    using ov pow by (simp add: unat_add_small)
  have one: "1 \<le> as_usize a + 2 ^ k" and one': "(1 :: usize) \<le> 2 ^ k"
    unfolding word_le_nat_alt sum pow by (simp_all add: Suc_le_eq)
  have t: "unat t = addr_nat a + 2 ^ k - 1"
    unfolding t_def using sum by (simp add: unat_sub [OF one])
  have "align_up p a (2 ^ k) = Inr (Address (t AND NOT (mask k)))"
    unfolding align_up_def t_def using ov pow sum
    by (simp add: usize_add_ok usize_sub_ok [OF one] usize_sub_ok [OF one'] mask_eq_decr_exp)
  moreover have "unat (t AND NOT (mask k)) = unat t div 2 ^ k * 2 ^ k"
    by (simp add: unat_and_not_mask minus_mod_eq_div_mult)
  ultimately show ?thesis
    using t round_up_bounds [of "2 ^ k" "addr_nat a"]
    by (intro exI [of _ "Address (t AND NOT (mask k))"]) simp
qed

section \<open>Formatting\<close>

text \<open>\<open>{:X}\<close> of a \<open>usize\<close>: upper-case hexadecimal digits without leading zeros.\<close>

definition hex_digit :: "nat \<Rightarrow> char" where
  "hex_digit n = (if n < 10 then char_of (48 + n) else char_of (55 + n))"

fun hex_str :: "nat \<Rightarrow> string" where
  "hex_str n = (if n < 16 then [hex_digit n] else hex_str (n div 16) @ [hex_digit (n mod 16)])"

declare hex_str.simps [simp del]

definition address_UpperHex :: "address \<Rightarrow> string" where
  "address_UpperHex a = hex_str (unat (as_usize a))"

definition address_Display :: "address \<Rightarrow> string" where
  "address_Display a = ''0x'' @ hex_str (unat (as_usize a))"

definition address_Debug :: "address \<Rightarrow> string" where
  "address_Debug a = ''0x'' @ hex_str (unat (as_usize a))"

definition oref_UpperHex :: "object_reference \<Rightarrow> string" where
  "oref_UpperHex r = hex_str (unat (oref_as_usize r))"

definition oref_Display :: "object_reference \<Rightarrow> string" where
  "oref_Display r = ''0x'' @ hex_str (unat (oref_as_usize r))"

definition oref_Debug :: "object_reference \<Rightarrow> string" where
  "oref_Debug r = ''0x'' @ hex_str (unat (oref_as_usize r))"

text \<open>Reading the digits back.\<close>

definition hex_digit_val :: "char \<Rightarrow> nat" where
  "hex_digit_val c = (let n = of_char c in if n < 58 then n - 48 else n - 55)"

definition hex_val :: "string \<Rightarrow> nat" where
  "hex_val s = foldl (\<lambda>acc c. 16 * acc + hex_digit_val c) 0 s"

lemma hex_digit_val_hex_digit: "n < 16 \<Longrightarrow> hex_digit_val (hex_digit n) = n"
  by (auto simp: hex_digit_val_def hex_digit_def of_char_of Let_def)

lemma hex_val_hex_str: "hex_val (hex_str n) = n"
proof (induction n rule: hex_str.induct)
  case (1 n)
  show ?case
  proof (cases "n < 16")
    case True
    then show ?thesis
      by (simp add: hex_str.simps [of n] hex_val_def hex_digit_val_hex_digit)
  next
    case False
    then have "hex_val (hex_str n) = 16 * hex_val (hex_str (n div 16)) + n mod 16"
      by (simp add: hex_str.simps [of n] hex_val_def hex_digit_val_hex_digit)
    with False 1 show ?thesis by simp
  qed
qed

section \<open>Properties\<close>

text \<open>\<open>Address::align_up\<close> with a power-of-two alignment returns, in both build profiles,
  the least multiple of the alignment that is not below the address, whenever address plus
  alignment does not overflow.\<close>

lemma align_up_least:
  assumes "k < 64" and "addr_nat a + 2 ^ k < 2 ^ 64"
  shows "\<exists>b. align_up p a (2 ^ k) = Inr b \<and> 2 ^ k dvd addr_nat b \<and> a \<le> b \<and>
    (\<forall>x. 2 ^ k dvd x \<and> addr_nat a \<le> x \<longrightarrow> addr_nat b \<le> x)"
proof -
  obtain b where b: "align_up p a (2 ^ k) = Inr b" "2 ^ k dvd addr_nat b"
    "addr_nat a \<le> addr_nat b" "addr_nat b < addr_nat a + 2 ^ k"
    using align_up_ok [OF assms] by blast
  have "addr_nat b \<le> x" if x: "2 ^ k dvd x" "addr_nat a \<le> x" for x
  proof (rule ccontr)
    assume "\<not> addr_nat b \<le> x"
    then have "0 < addr_nat b - x" "addr_nat b - x < 2 ^ k" using x(2) b(4) by simp_all
    moreover have "2 ^ k dvd addr_nat b - x" using b(2) x(1) by (rule dvd_diff_nat)
    ultimately show False using dvd_imp_le by fastforce
  qed
  with b show ?thesis by (auto simp: address_le_iff)
qed

text \<open>The \<open>Display\<close> and \<open>Debug\<close> text of an address or an object reference is \<open>0x\<close> and
  hexadecimal digits, the same digits as \<open>{:X}\<close>, from which the number is read back; two
  addresses never print alike.\<close>

lemma address_text_roundtrip:
  "address_Display a = ''0x'' @ address_UpperHex a \<and> address_Debug a = address_Display a \<and>
   hex_val (drop 2 (address_Display a)) = addr_nat a \<and>
   oref_Display (to_object_reference a) = address_Display a \<and>
   oref_Debug (to_object_reference a) = address_Display a \<and>
   oref_UpperHex (to_object_reference a) = address_UpperHex a \<and>
   (address_Display a = address_Display b \<longleftrightarrow> a = b)"
proof -
  have "address_UpperHex a = address_UpperHex b \<longleftrightarrow> a = b"
    using hex_val_hex_str addr_nat_inject unfolding address_UpperHex_def by metis
  then show ?thesis
    by (simp add: address_Display_def address_Debug_def address_UpperHex_def oref_Display_def
        oref_Debug_def oref_UpperHex_def to_object_reference_def hex_val_hex_str)
qed

end
