(* ===== verification/Cell_Store.thy ===== *)
theory Cell_Store
  imports Prelude
begin

text \<open>
  The interface of a table whose cells are read and written through a key: the address
  maps (keyed by address), the line mark table and its per-block slices (keyed by line
  number). The code reaches all of them through raw pointers or a \<open>Vec\<close>; what its
  callers rely on is stated once, as the locale \<open>cell_store\<close>, and the loops that store one
  value under a range of keys are verified once against it.
\<close>

fun set_all :: "('s \<Rightarrow> 'k \<Rightarrow> 'v \<Rightarrow> 's res) \<Rightarrow> 's \<Rightarrow> 'k list \<Rightarrow> 'v \<Rightarrow> 's res" where
  "set_all st s [] v = Inr s"
| "set_all st s (k # ks) v = bind_res (st s k v) (\<lambda>s'. set_all st s' ks v)"

definition write_slots :: "nat set \<Rightarrow> 'v \<Rightarrow> 'v list \<Rightarrow> 'v list" where
  "write_slots I v cs = map (\<lambda>j. if j \<in> I then v else cs ! j) [0..<length cs]"

lemma length_write_slots [simp]: "length (write_slots I v cs) = length cs"
  by (simp add: write_slots_def)

lemma nth_write_slots [simp]:
  "j < length cs \<Longrightarrow> write_slots I v cs ! j = (if j \<in> I then v else cs ! j)"
  by (simp add: write_slots_def)

lemma write_slots_empty [simp]: "write_slots {} v cs = cs"
  by (simp add: write_slots_def map_nth)

lemma write_slots_update: "write_slots I v (cs[i := v]) = write_slots (insert i I) v cs"
  by (rule nth_equalityI) (auto simp: nth_list_update)

locale cell_store =
  fixes slot :: "'s \<Rightarrow> 'k \<Rightarrow> nat option"
    and cells :: "'s \<Rightarrow> 'v list"
    and get :: "'s \<Rightarrow> 'k \<Rightarrow> 'v res"
    and set :: "'s \<Rightarrow> 'k \<Rightarrow> 'v \<Rightarrow> 's res"
  assumes slot_bound: "slot s k = Some i \<Longrightarrow> i < length (cells s)"
    and get_slot: "slot s k = Some i \<Longrightarrow> get s k = Inr (cells s ! i)"
    and set_slot: "slot s k = Some i \<Longrightarrow>
      \<exists>s'. set s k v = Inr s' \<and> cells s' = (cells s)[i := v] \<and> slot s' = slot s"
begin

lemma get_set_same:
  assumes "slot s k = Some i" and "set s k v = Inr s'"
  shows "get s' k = Inr v"
proof -
  have "cells s' = (cells s)[i := v]" "slot s' k = Some i"
    using set_slot [OF assms(1), of v] assms by auto
  then show ?thesis using get_slot [of s' k i] slot_bound [OF assms(1)] by simp
qed

lemma get_set_other:
  assumes "slot s k = Some i" and "slot s l = Some j" and "i \<noteq> j" and "set s k v = Inr s'"
  shows "get s' l = get s l"
proof -
  have "cells s' = (cells s)[i := v]" "slot s' l = Some j"
    using set_slot [OF assms(1), of v] assms by auto
  then show ?thesis using get_slot [of s' l j] get_slot [OF assms(2)] assms(3) by simp
qed

text \<open>A loop that stores \<open>v\<close> under each key of a list of valid keys returns, and writes
  exactly the slots of those keys.\<close>

lemma set_all_slots:
  assumes "\<forall>k\<in>List.set ks. slot s k \<noteq> None"
  shows "\<exists>s'. set_all set s ks v = Inr s' \<and> slot s' = slot s \<and>
    cells s' = write_slots {i. \<exists>k\<in>List.set ks. slot s k = Some i} v (cells s)"
  using assms
proof (induction ks arbitrary: s)
  case Nil
  then show ?case by simp
next
  case (Cons k ks)
  then obtain i where i: "slot s k = Some i" by auto
  obtain s1 where s1: "set s k v = Inr s1" "cells s1 = (cells s)[i := v]" "slot s1 = slot s"
    using set_slot [OF i, of v] by auto
  from Cons.prems s1 have "\<forall>k\<in>List.set ks. slot s1 k \<noteq> None" by simp
  from Cons.IH [OF this] obtain s' where s':
    "set_all set s1 ks v = Inr s'" "slot s' = slot s1"
    "cells s' = write_slots {i. \<exists>k\<in>List.set ks. slot s1 k = Some i} v (cells s1)"
    by blast
  have "{j. \<exists>l\<in>List.set (k # ks). slot s l = Some j} =
      insert i {j. \<exists>l\<in>List.set ks. slot s l = Some j}"
    using i by auto
  with s1 s' show ?case by (simp add: write_slots_update)
qed

end

end
