(* ===== verification/Address_Map.thy ===== *)
theory Address_Map
  imports Address Cell_Store
begin

unbundle bit_operations_syntax

text \<open>
  \<open>src/src/common/address_map.rs\<close> and \<open>src/src/objectmodel.rs\<close>: the side tables with one
  cell per eight bytes of the space. \<open>AddressMap\<close> is a raw zeroed allocation reached by
  pointer arithmetic, \<open>SafeAddressMap\<close> a \<open>Vec\<close>, \<open>TraceMap\<close> a \<open>SafeAddressMap\<close> of mark bytes
  compared with a mark state that flips after each collection.
\<close>

section \<open>AddressMap\<close>

text \<open>\<open>am_cells\<close> is what \<open>ptr\<close> points to, \<open>am_layout\<close> the byte size of that allocation.\<close>

record 'a address_map =
  am_start :: address
  am_end :: address
  am_cells :: "'a list"
  am_layout :: nat

text \<open>\<open>Layout::array::<T>(n).unwrap()\<close>: an error when the array exceeds \<open>isize::MAX\<close> bytes.\<close>

definition layout_array :: "nat \<Rightarrow> nat \<Rightarrow> nat res" where
  "layout_array size_of_T n =
     (if size_of_T * n < 2 ^ 63 then Inr (size_of_T * n) else Inl (UnwrapFailed ''LayoutError''))"

definition am_new :: "profile \<Rightarrow> nat \<Rightarrow> 'a \<Rightarrow> address \<Rightarrow> address \<Rightarrow> 'a address_map res" where
  "am_new p size_of_T zeroed start end =
     bind_res (diff p end start) (\<lambda>d.
     let len = unat (drop_bit LOG_POINTER_SIZE d) in
     bind_res (layout_array size_of_T len) (\<lambda>layout.
       Inr \<lparr>am_start = start, am_end = end, am_cells = replicate len zeroed, am_layout = layout\<rparr>))"

definition am_set :: "profile \<Rightarrow> 'a address_map \<Rightarrow> address \<Rightarrow> 'a \<Rightarrow> 'a address_map res" where
  "am_set p self addr value =
     bind_res (diff p addr (am_start self)) (\<lambda>d.
     let index = unat (drop_bit LOG_POINTER_SIZE d) in
     if index < length (am_cells self)
     then Inr (self\<lparr>am_cells := (am_cells self)[index := value]\<rparr>)
     else Inl (UB ''AddressMap::set outside its allocation''))"

definition am_get :: "profile \<Rightarrow> 'a address_map \<Rightarrow> address \<Rightarrow> 'a res" where
  "am_get p self addr =
     bind_res (debug_assert p ''addr < self.end'' (addr < am_end self)) (\<lambda>_.
     bind_res (diff p addr (am_start self)) (\<lambda>d.
     let index = unat (drop_bit LOG_POINTER_SIZE d) in
     if index < length (am_cells self) then Inr (am_cells self ! index)
     else Inl (UB ''AddressMap::get outside its allocation'')))"

section \<open>SafeAddressMap\<close>

record 'a safe_address_map =
  sm_offset :: usize
  sm_addresses :: "'a list"

text \<open>\<open>f k\<close> is the value of the k-th call of the \<open>FnMut\<close> argument.\<close>

definition sm_new_of :: "profile \<Rightarrow> usize \<Rightarrow> usize \<Rightarrow> (nat \<Rightarrow> 'a) \<Rightarrow> 'a safe_address_map res" where
  "sm_new_of p start end f =
     bind_res (usize_sub p end start) (\<lambda>d.
     bind_res (usize_add p d POINTER_SIZE) (\<lambda>s.
     bind_res (usize_sub p s 1) (\<lambda>t.
     let len = unat (t div POINTER_SIZE) in
       Inr \<lparr>sm_offset = start, sm_addresses = map f [0..<len]\<rparr>)))"

definition sm_new :: "profile \<Rightarrow> 'a \<Rightarrow> usize \<Rightarrow> usize \<Rightarrow> 'a safe_address_map res" where
  "sm_new p dflt start end = sm_new_of p start end (\<lambda>_. dflt)"

definition sm_get :: "'a safe_address_map \<Rightarrow> usize \<Rightarrow> 'a option" where
  "sm_get self index =
     (let normalized_index = unat ((index - sm_offset self) div POINTER_SIZE) in
      if normalized_index < length (sm_addresses self)
      then Some (sm_addresses self ! normalized_index) else None)"

definition sm_index :: "profile \<Rightarrow> 'a safe_address_map \<Rightarrow> usize \<Rightarrow> 'a res" where
  "sm_index p self index =
     bind_res (usize_sub p index (sm_offset self)) (\<lambda>d.
     let i = unat (d div POINTER_SIZE) in
     if i < length (sm_addresses self) then Inr (sm_addresses self ! i)
     else Inl IndexOutOfBounds)"

text \<open>A store through the reference \<open>index_mut\<close> returns.\<close>

definition sm_index_mut :: "profile \<Rightarrow> 'a safe_address_map \<Rightarrow> usize \<Rightarrow> 'a \<Rightarrow> 'a safe_address_map res" where
  "sm_index_mut p self index value =
     bind_res (usize_sub p index (sm_offset self)) (\<lambda>d.
     let i = unat (d div POINTER_SIZE) in
     if i < length (sm_addresses self)
     then Inr (self\<lparr>sm_addresses := (sm_addresses self)[i := value]\<rparr>)
     else Inl IndexOutOfBounds)"

section \<open>TraceMap\<close>

record trace_map =
  tm_map :: "u8 safe_address_map"
  tm_mark_state :: u8

definition tm_new :: "profile \<Rightarrow> usize \<Rightarrow> usize \<Rightarrow> trace_map res" where
  "tm_new p start end =
     bind_res (sm_new p 0 start end) (\<lambda>m. Inr \<lparr>tm_map = m, tm_mark_state = 0\<rparr>)"

definition flip_mark_state :: "trace_map \<Rightarrow> trace_map" where
  "flip_mark_state self = self\<lparr>tm_mark_state := tm_mark_state self XOR 1\<rparr>"

definition is_traced :: "profile \<Rightarrow> trace_map \<Rightarrow> usize \<Rightarrow> bool res" where
  "is_traced p self ptr =
     bind_res (sm_index p (tm_map self) ptr) (\<lambda>v. Inr (v = tm_mark_state self))"

definition is_untraced_and_valid :: "trace_map \<Rightarrow> usize \<Rightarrow> bool" where
  "is_untraced_and_valid self ptr =
     (case sm_get (tm_map self) ptr of
        Some v \<Rightarrow> v \<noteq> tm_mark_state self
      | None \<Rightarrow> False)"

definition mark_as_traced :: "profile \<Rightarrow> trace_map \<Rightarrow> usize \<Rightarrow> trace_map res" where
  "mark_as_traced p self ptr =
     bind_res (sm_index_mut p (tm_map self) ptr (tm_mark_state self))
       (\<lambda>m. Inr (self\<lparr>tm_map := m\<rparr>))"

section \<open>Object model\<close>

definition REF_BITS_LEN :: nat where "REF_BITS_LEN = 6"
definition OBJ_START_BIT :: nat where "OBJ_START_BIT = 6"
definition SHORT_ENCODE_BIT :: nat where "SHORT_ENCODE_BIT = 7"

text \<open>\<open>alloc_map\<close> is the raw pointer of the space's \<open>AddressMap<u8>\<close>: the list is what it
  points to.\<close>

definition get_ref_byte :: "profile \<Rightarrow> u8 list \<Rightarrow> address \<Rightarrow> object_reference \<Rightarrow> u8 res" where
  "get_ref_byte p alloc_map space_start obj =
     bind_res (diff p (to_address obj) space_start) (\<lambda>d.
     let index = unat (d div POINTER_SIZE) in
     if index < length alloc_map then Inr (alloc_map ! index)
     else Inl (UB ''get_ref_byte outside the alloc map''))"

section \<open>The cells behind the keys\<close>

text \<open>The cell number of an address, when the map has a cell for it.\<close>

definition am_slot :: "'a address_map \<Rightarrow> address \<Rightarrow> nat option" where
  "am_slot m a =
     (let i = (addr_nat a - addr_nat (am_start m)) div 8 in
      if am_start m \<le> a \<and> a < am_end m \<and> i < length (am_cells m) then Some i else None)"

definition sm_slot :: "'a safe_address_map \<Rightarrow> usize \<Rightarrow> nat option" where
  "sm_slot m a =
     (let i = (unat a - unat (sm_offset m)) div 8 in
      if sm_offset m \<le> a \<and> i < length (sm_addresses m) then Some i else None)"

lemma unat_div_pointer: "unat (d div POINTER_SIZE) = unat d div 8"
  by (simp add: unat_div POINTER_SIZE_def)

lemma unat_drop_pointer: "unat (drop_bit LOG_POINTER_SIZE (d :: usize)) = unat d div 8"
  by (simp add: unat_drop_bit_64 LOG_POINTER_SIZE_def)

lemma am_access:
  assumes "am_slot m a = Some i"
  shows "am_get p m a = Inr (am_cells m ! i)"
    and "am_set p m a v = Inr (m\<lparr>am_cells := (am_cells m)[i := v]\<rparr>)"
    and "i < length (am_cells m)"
  using assms
  by (auto simp: am_slot_def am_get_def am_set_def Let_def diff_ok unat_drop_pointer
           split: if_splits)

lemma sm_access:
  assumes "sm_slot m a = Some i"
  shows "sm_index p m a = Inr (sm_addresses m ! i)"
    and "sm_index_mut p m a v = Inr (m\<lparr>sm_addresses := (sm_addresses m)[i := v]\<rparr>)"
    and "sm_get m a = Some (sm_addresses m ! i)"
    and "i < length (sm_addresses m)"
  using assms
  by (auto simp: sm_slot_def sm_index_def sm_index_mut_def sm_get_def Let_def usize_sub_ok
        unat_div_pointer unat_sub split: if_splits)

interpretation am: cell_store am_slot am_cells "am_get p" "am_set p" for p
  by unfold_locales (auto simp: am_access fun_eq_iff, auto simp: am_slot_def Let_def)

interpretation sm: cell_store sm_slot sm_addresses "sm_index p" "sm_index_mut p" for p
  by unfold_locales (auto simp: sm_access fun_eq_iff, auto simp: sm_slot_def Let_def)

section \<open>New maps\<close>

lemma am_new_ok:
  assumes "start \<le> end" and "(addr_nat end - addr_nat start) div 8 * size_of_T < 2 ^ 63"
  shows "am_new p size_of_T z start end = Inr \<lparr>am_start = start, am_end = end,
    am_cells = replicate ((addr_nat end - addr_nat start) div 8) z,
    am_layout = size_of_T * ((addr_nat end - addr_nat start) div 8)\<rparr>"
  using assms
  by (simp add: am_new_def diff_ok unat_drop_pointer layout_array_def Let_def mult.commute)

lemma sm_new_of_ok:
  assumes "start \<le> end" and "unat end - unat start + 8 < 2 ^ 64"
  shows "sm_new_of p start end f = Inr \<lparr>sm_offset = start,
    sm_addresses = map f [0..<(unat end - unat start + 7) div 8]\<rparr>"
proof -
  have d: "unat (end - start) = unat end - unat start" using assms(1) by (rule unat_sub)
  have s: "unat (end - start + POINTER_SIZE) = unat end - unat start + 8"
    using assms(2) d by (simp add: POINTER_SIZE_def unat_add_small)
  then have one: "1 \<le> end - start + POINTER_SIZE" by (simp add: word_le_nat_alt)
  have "unat (end - start + POINTER_SIZE - 1) = unat end - unat start + 7"
    by (simp add: unat_sub [OF one] s)
  moreover have "unat (end - start) + unat POINTER_SIZE < 2 ^ 64"
    using assms(2) d by (simp add: POINTER_SIZE_def)
  ultimately show ?thesis
    using assms(1) by (simp add: sm_new_of_def usize_sub_ok usize_add_ok one Let_def unat_div_pointer)
qed

text \<open>The cell of an address that the new table covers.\<close>

lemma sm_new_slot:
  assumes "start \<le> a" and "unat a < unat start + 8 * n"
  shows "sm_slot \<lparr>sm_offset = start, sm_addresses = map f [0..<n]\<rparr> a =
    Some ((unat a - unat start) div 8)"
proof -
  have "unat a - unat start < n * 8"
    using assms by (simp add: word_le_nat_alt)
  then have "(unat a - unat start) div 8 < n" by (rule less_mult_imp_div_less)
  with assms(1) show ?thesis by (simp add: sm_slot_def)
qed

section \<open>Lookups outside the table\<close>

text \<open>
  \<open>SafeAddressMap::get\<close> subtracts with wrap-around and relies on the quotient to be out of
  range for every address below the offset. That is so for every table whose last cell
  ends at or below \<open>2 ^ 64\<close>: the lookup answers exactly for the addresses the table covers.
\<close>

lemma sm_get_slot:
  assumes fits: "unat (sm_offset m) + 8 * length (sm_addresses m) \<le> 2 ^ 64"
  shows "sm_get m a = map_option ((!) (sm_addresses m)) (sm_slot m a)"
proof (cases "sm_offset m \<le> a")
  case True
  then show ?thesis
    by (auto simp: sm_slot_def sm_get_def Let_def unat_div_pointer unat_sub)
next
  case False
  then have "unat (a - sm_offset m) = 2 ^ 64 + unat a - unat (sm_offset m)"
    by (simp add: unat_sub_if_size word_size word_le_nat_alt)
  then have "8 * length (sm_addresses m) \<le> unat (a - sm_offset m)"
    using fits by linarith
  then have "length (sm_addresses m) \<le> unat (a - sm_offset m) div 8" by linarith
  with False show ?thesis
    by (simp add: sm_slot_def sm_get_def Let_def unat_div_pointer)
qed

section \<open>Mark bytes\<close>

lemma xor_1_neq: "(w :: u8) XOR 1 \<noteq> w"
proof
  assume "w XOR 1 = w"
  then have "bit (w XOR 1) 0 = bit w 0" by simp
  then show False by (simp add: bit_simps)
qed

lemma xor_1_xor_1: "((w :: u8) XOR 1) XOR 1 = w"
  by (simp add: xor.assoc)

lemma flip_mark_state_sel [simp]:
  "tm_map (flip_mark_state t) = tm_map t"
  "tm_mark_state (flip_mark_state t) = tm_mark_state t XOR 1"
  by (simp_all add: flip_mark_state_def)

lemma flip_flip: "flip_mark_state (flip_mark_state t) = t"
  by (simp add: flip_mark_state_def xor_1_xor_1)

lemma mark_as_traced_ok:
  assumes "sm_slot (tm_map t) a = Some i"
  shows "mark_as_traced p t a = Inr (t\<lparr>tm_map := (tm_map t)
    \<lparr>sm_addresses := (sm_addresses (tm_map t))[i := tm_mark_state t]\<rparr>\<rparr>)"
  using assms by (simp add: mark_as_traced_def sm_access)

lemma is_traced_ok:
  assumes "sm_slot (tm_map t) a = Some i"
  shows "is_traced p t a = Inr (sm_addresses (tm_map t) ! i = tm_mark_state t)"
    and "is_untraced_and_valid t a \<longleftrightarrow> sm_addresses (tm_map t) ! i \<noteq> tm_mark_state t"
  using assms by (auto simp: is_traced_def is_untraced_and_valid_def sm_access)

section \<open>Properties\<close>

text \<open>In a new \<open>AddressMap\<close> a store at an address is read back at every address of the
  same eight-byte word, and every other word still reads the zeroed initial value; neither
  access leaves the allocation.\<close>

lemma address_map_store:
  assumes new: "start \<le> end" "(addr_nat end - addr_nat start) div 8 * size_of_T < 2 ^ 63"
    and a: "start \<le> a" "a < end" "(addr_nat a - addr_nat start) div 8 < (addr_nat end - addr_nat start) div 8"
    and b: "start \<le> b" "b < end" "(addr_nat b - addr_nat start) div 8 < (addr_nat end - addr_nat start) div 8"
  shows "\<exists>m m'. am_new p size_of_T z start end = Inr m \<and> am_set p m a v = Inr m' \<and>
    am_get p m' b = Inr (if (addr_nat b - addr_nat start) div 8 = (addr_nat a - addr_nat start) div 8
                         then v else z)"
proof -
  define m where "m = \<lparr>am_start = start, am_end = end,
    am_cells = replicate ((addr_nat end - addr_nat start) div 8) z,
    am_layout = size_of_T * ((addr_nat end - addr_nat start) div 8)\<rparr>"
  define m' where "m' = m\<lparr>am_cells := (am_cells m)[(addr_nat a - addr_nat start) div 8 := v]\<rparr>"
  have slots: "am_slot m a = Some ((addr_nat a - addr_nat start) div 8)"
    "am_slot m' b = Some ((addr_nat b - addr_nat start) div 8)"
    using a b by (simp_all add: am_slot_def m_def m'_def)
  have "am_set p m a v = Inr m'"
    unfolding m'_def by (rule am_access(2) [OF slots(1)])
  moreover note am_access(1) [OF slots(2), of p]
  moreover have "am_new p size_of_T z start end = Inr m" using am_new_ok [OF new] by (simp add: m_def)
  ultimately show ?thesis using a(3) b(3) by (simp add: m'_def m_def nth_list_update)
qed

text \<open>\<open>SafeAddressMap::new_of\<close> makes one cell per started word, and \<open>get\<close>, which
  subtracts with wrap-around and checks only the quotient, answers for exactly the addresses
  from the start to the end of the last cell, with the cell of the address's word.\<close>

lemma safe_map_lookup_exact:
  assumes new: "start \<le> end" "unat end + 8 < 2 ^ 64"
  shows "\<exists>m. sm_new_of p start end f = Inr m \<and>
    sm_get m a = (if start \<le> a \<and> unat a - unat start < 8 * ((unat end - unat start + 7) div 8)
                  then Some (f ((unat a - unat start) div 8)) else None)"
proof -
  let ?n = "(unat end - unat start + 7) div 8"
  define m where "m = \<lparr>sm_offset = start, sm_addresses = map f [0..<?n]\<rparr>"
  have le: "unat start \<le> unat end" using new(1) by (simp add: word_le_nat_alt)
  have "8 * ?n \<le> unat end - unat start + 7" by simp
  then have "unat (sm_offset m) + 8 * length (sm_addresses m) \<le> 2 ^ 64"
    unfolding m_def using le new(2) by simp
  note get = sm_get_slot [OF this, of a]
  have "(unat a - unat start) div 8 < ?n \<longleftrightarrow> unat a - unat start < 8 * ?n"
    by (simp add: div_less_iff_less_mult mult.commute)
  then have "sm_get m a = (if start \<le> a \<and> unat a - unat start < 8 * ?n
      then Some (f ((unat a - unat start) div 8)) else None)"
    unfolding get by (simp add: sm_slot_def m_def Let_def)
  moreover have "sm_new_of p start end f = Inr m"
    unfolding m_def using le new(2) by (intro sm_new_of_ok [OF new(1)]) simp
  ultimately show ?thesis by blast
qed

text \<open>C40: Marking an address of a \<open>TraceMap\<close> makes it traced and leaves the state of every
  other word alone; flipping the mark state afterwards makes it untraced again without
  touching the cells, and flipping twice restores the map.\<close>

theorem trace_mark_cycle:
  assumes "sm_slot (tm_map t) a = Some i" and "sm_slot (tm_map t) b = Some j"
  shows "\<exists>t'. mark_as_traced p t a = Inr t' \<and>
    is_traced p t' b = (if i = j then Inr True else is_traced p t b) \<and>
    is_untraced_and_valid (flip_mark_state t') a \<and>
    flip_mark_state (flip_mark_state t') = t'"
proof -
  define t' where "t' = t\<lparr>tm_map := (tm_map t)\<lparr>sm_addresses := (sm_addresses (tm_map t))[i := tm_mark_state t]\<rparr>\<rparr>"
  have i: "i < length (sm_addresses (tm_map t))" using sm_access(4) [OF assms(1)] .
  have "sm_slot (tm_map t') a = Some i" "sm_slot (tm_map t') b = Some j"
    "sm_slot (tm_map (flip_mark_state t')) a = Some i"
    using assms by (simp_all add: t'_def sm_slot_def)
  moreover have "mark_as_traced p t a = Inr t'" using assms(1) by (simp add: mark_as_traced_ok t'_def)
  ultimately show ?thesis
    using assms(2) i xor_1_neq [symmetric] by (simp add: is_traced_ok flip_flip) (simp add: t'_def)
qed

theorem trace_mark_cycle_witness:
  "\<exists>t'. mark_as_traced Debug \<lparr>tm_map = \<lparr>sm_offset = 4096, sm_addresses = [0, 0]\<rparr>, tm_mark_state = 1\<rparr> 4104 = Inr t' \<and>
    is_traced Debug t' 4096 = (if (1 :: nat) = 0 then Inr True
      else is_traced Debug \<lparr>tm_map = \<lparr>sm_offset = 4096, sm_addresses = [0, 0]\<rparr>, tm_mark_state = 1\<rparr> 4096) \<and>
    is_untraced_and_valid (flip_mark_state t') 4104 \<and> flip_mark_state (flip_mark_state t') = t'"
  by (rule trace_mark_cycle) (simp_all add: sm_slot_def)

end
