(* ===== verification/Line_Mark.thy ===== *)
theory Line_Mark
  imports Address_Map
begin

text \<open>
  \<open>src/src/heap/immix/mod.rs\<close> and \<open>src/src/heap/immix/line_mark.rs\<close>: the geometry of lines
  and blocks, and the line mark table. The table is one array for the whole space; each
  block holds a slice of it, a raw pointer into the same array, so a store through a slice
  is a store into the table. A slice is therefore an offset and a length, and its
  operations take the array (\<open>line_mark list\<close>) they alias.
\<close>

section \<open>Lines and blocks\<close>

definition LOG_BYTES_IN_LINE :: nat where "LOG_BYTES_IN_LINE = 8"
definition BYTES_IN_LINE :: usize where "BYTES_IN_LINE = push_bit LOG_BYTES_IN_LINE 1"
definition LOG_BYTES_IN_BLOCK :: nat where "LOG_BYTES_IN_BLOCK = 16"
definition BYTES_IN_BLOCK :: usize where "BYTES_IN_BLOCK = push_bit LOG_BYTES_IN_BLOCK 1"
definition LINES_IN_BLOCK :: nat where
  "LINES_IN_BLOCK = push_bit (LOG_BYTES_IN_BLOCK - LOG_BYTES_IN_LINE) 1"

lemma geometry [simp]:
  "unat BYTES_IN_LINE = 256" "unat BYTES_IN_BLOCK = 65536" "LINES_IN_BLOCK = 256"
  by (simp_all add: BYTES_IN_LINE_def BYTES_IN_BLOCK_def LINES_IN_BLOCK_def
      LOG_BYTES_IN_LINE_def LOG_BYTES_IN_BLOCK_def push_bit_eq_mult)

datatype block_mark = Usable | Full

datatype line_mark = Free | Live | FreshAlloc | ConservLive | PrevLive

section \<open>The table\<close>

record line_mark_table =
  lt_space_start :: address
  lt_cells :: "line_mark list"
  lt_len :: nat

definition lt_new :: "profile \<Rightarrow> address \<Rightarrow> address \<Rightarrow> line_mark_table res" where
  "lt_new p space_start space_end =
     bind_res (diff p space_end space_start) (\<lambda>d.
     let line_mark_table_len = unat (d div BYTES_IN_LINE) in
     bind_res (layout_array 1 line_mark_table_len) (\<lambda>_.
       Inr \<lparr>lt_space_start = space_start,
            lt_cells = map (\<lambda>_. Free) [0..<line_mark_table_len],
            lt_len = line_mark_table_len\<rparr>))"

definition lt_get :: "profile \<Rightarrow> line_mark_table \<Rightarrow> nat \<Rightarrow> line_mark res" where
  "lt_get p self index =
     bind_res (debug_assert p ''index <= self.len'' (index \<le> lt_len self)) (\<lambda>_.
     if index < length (lt_cells self) then Inr (lt_cells self ! index)
     else Inl (UB ''LineMarkTable::get outside its allocation''))"

definition lt_set :: "profile \<Rightarrow> line_mark_table \<Rightarrow> nat \<Rightarrow> line_mark \<Rightarrow> line_mark_table res" where
  "lt_set p self index value =
     bind_res (debug_assert p ''index <= self.len'' (index \<le> lt_len self)) (\<lambda>_.
     if index < length (lt_cells self)
     then Inr (self\<lparr>lt_cells := (lt_cells self)[index := value]\<rparr>)
     else Inl (UB ''LineMarkTable::set outside its allocation''))"

definition mark_line_at :: "profile \<Rightarrow> line_mark_table \<Rightarrow> nat \<Rightarrow> line_mark_table res" where
  "mark_line_at p self line_table_index =
     bind_res (lt_set p self line_table_index Live) (\<lambda>self1.
     bind_res (nat_sub p (lt_len self1) 1) (\<lambda>last.
     if line_table_index < last
     then bind_res (nat_add p line_table_index 1) (\<lambda>next. lt_set p self1 next ConservLive)
     else Inr self1))"

definition mark_line_live :: "profile \<Rightarrow> line_mark_table \<Rightarrow> address \<Rightarrow> line_mark_table res" where
  "mark_line_live p self addr =
     bind_res (diff p addr (lt_space_start self)) (\<lambda>d.
       mark_line_at p self (unat (drop_bit LOG_BYTES_IN_LINE d)))"

definition mark_line_live2 ::
  "profile \<Rightarrow> line_mark_table \<Rightarrow> address \<Rightarrow> address \<Rightarrow> line_mark_table res" where
  "mark_line_live2 p self space_start addr =
     bind_res (diff p addr space_start) (\<lambda>d.
       mark_line_at p self (unat (drop_bit LOG_BYTES_IN_LINE d)))"

section \<open>Slices\<close>

record line_mark_slice =
  sl_ptr :: nat
  sl_len :: nat

definition take_slice :: "line_mark_table \<Rightarrow> nat \<Rightarrow> nat \<Rightarrow> line_mark_slice res" where
  "take_slice self start len =
     (if start \<le> length (lt_cells self) then Inr \<lparr>sl_ptr = start, sl_len = len\<rparr>
      else Inl (UB ''take_slice: pointer outside the table''))"

definition sl_get :: "profile \<Rightarrow> line_mark_slice \<Rightarrow> line_mark list \<Rightarrow> nat \<Rightarrow> line_mark res" where
  "sl_get p self tbl index =
     bind_res (debug_assert p ''index <= self.len'' (index \<le> sl_len self)) (\<lambda>_.
     if sl_ptr self + index < length tbl then Inr (tbl ! (sl_ptr self + index))
     else Inl (UB ''LineMarkTableSlice::get outside the table''))"

definition sl_set ::
  "profile \<Rightarrow> line_mark_slice \<Rightarrow> line_mark list \<Rightarrow> nat \<Rightarrow> line_mark \<Rightarrow> line_mark list res" where
  "sl_set p self tbl index value =
     bind_res (debug_assert p ''index <= self.len'' (index \<le> sl_len self)) (\<lambda>_.
     if sl_ptr self + index < length tbl then Inr (tbl[sl_ptr self + index := value])
     else Inl (UB ''LineMarkTableSlice::set outside the table''))"

function get_next_available_line ::
  "profile \<Rightarrow> line_mark_slice \<Rightarrow> line_mark list \<Rightarrow> nat \<Rightarrow> nat option res" where
  "get_next_available_line p self tbl i =
     (if i < sl_len self
      then bind_res (sl_get p self tbl i) (\<lambda>m.
             if m = Free then Inr (Some i) else get_next_available_line p self tbl (Suc i))
      else Inr None)"
  by pat_completeness auto
termination
  by (relation "measure (\<lambda>(p, self, tbl, i). sl_len self - i)") auto

function get_next_unavailable_line ::
  "profile \<Rightarrow> line_mark_slice \<Rightarrow> line_mark list \<Rightarrow> nat \<Rightarrow> nat res" where
  "get_next_unavailable_line p self tbl i =
     (if i < sl_len self
      then bind_res (sl_get p self tbl i) (\<lambda>m.
             if m = Free then get_next_unavailable_line p self tbl (Suc i) else Inr i)
      else Inr i)"
  by pat_completeness auto
termination
  by (relation "measure (\<lambda>(p, self, tbl, i). sl_len self - i)") auto

declare get_next_available_line.simps [simp del] get_next_unavailable_line.simps [simp del]

section \<open>The cells behind the line numbers\<close>

definition lt_slot :: "line_mark_table \<Rightarrow> nat \<Rightarrow> nat option" where
  "lt_slot t i = (if i < length (lt_cells t) \<and> i \<le> lt_len t then Some i else None)"

definition sl_slot :: "line_mark_slice \<Rightarrow> line_mark list \<Rightarrow> nat \<Rightarrow> nat option" where
  "sl_slot sl tbl i =
     (if i < sl_len sl \<and> sl_ptr sl + i < length tbl then Some (sl_ptr sl + i) else None)"

interpretation lt: cell_store lt_slot lt_cells "lt_get p" "lt_set p" for p
  by unfold_locales (auto simp: lt_slot_def lt_get_def lt_set_def fun_eq_iff split: if_splits)

interpretation sl: cell_store "sl_slot sl" "\<lambda>tbl. tbl" "sl_get p sl" "sl_set p sl" for p sl
  by unfold_locales (auto simp: sl_slot_def sl_get_def sl_set_def fun_eq_iff split: if_splits)

section \<open>Searching a slice\<close>

definition slice_ok :: "line_mark_slice \<Rightarrow> line_mark list \<Rightarrow> bool" where
  "slice_ok sl tbl \<longleftrightarrow> sl_ptr sl + sl_len sl \<le> length tbl"

abbreviation slice_line :: "line_mark_slice \<Rightarrow> line_mark list \<Rightarrow> nat \<Rightarrow> line_mark" where
  "slice_line sl tbl k \<equiv> tbl ! (sl_ptr sl + k)"

lemma sl_get_ok [simp]:
  "slice_ok sl tbl \<Longrightarrow> i < sl_len sl \<Longrightarrow> sl_get p sl tbl i = Inr (slice_line sl tbl i)"
  by (simp add: slice_ok_def sl_get_def)

lemma sl_set_ok:
  "slice_ok sl tbl \<Longrightarrow> i < sl_len sl \<Longrightarrow> sl_set p sl tbl i v = Inr (tbl[sl_ptr sl + i := v])"
  by (simp add: slice_ok_def sl_set_def)

lemma next_available_spec:
  assumes "slice_ok sl tbl"
  shows "(\<exists>j. get_next_available_line p sl tbl i = Inr (Some j) \<and> i \<le> j \<and> j < sl_len sl \<and>
            slice_line sl tbl j = Free \<and> (\<forall>k. i \<le> k \<and> k < j \<longrightarrow> slice_line sl tbl k \<noteq> Free)) \<or>
         (get_next_available_line p sl tbl i = Inr None \<and>
            (\<forall>k. i \<le> k \<and> k < sl_len sl \<longrightarrow> slice_line sl tbl k \<noteq> Free))"
  using assms
proof (induction p sl tbl i rule: get_next_available_line.induct)
  case (1 p sl tbl i)
  note unfold = get_next_available_line.simps [of p sl tbl i]
  consider (out) "\<not> i < sl_len sl" | (hit) "i < sl_len sl" "slice_line sl tbl i = Free"
    | (miss) "i < sl_len sl" "slice_line sl tbl i \<noteq> Free" by blast
  then show ?case
  proof cases
    case out
    then show ?thesis by (auto simp: unfold)
  next
    case hit
    with 1(2) show ?thesis by (auto simp: unfold)
  next
    case miss
    with 1 have "get_next_available_line p sl tbl i = get_next_available_line p sl tbl (Suc i)"
      by (simp add: unfold)
    with miss 1 show ?thesis
      by (simp add: Suc_le_eq) (metis le_neq_implies_less less_imp_le)
  qed
qed

lemma next_unavailable_spec:
  assumes "slice_ok sl tbl" and "i \<le> sl_len sl"
  shows "\<exists>j. get_next_unavailable_line p sl tbl i = Inr j \<and> i \<le> j \<and> j \<le> sl_len sl \<and>
    (\<forall>k. i \<le> k \<and> k < j \<longrightarrow> slice_line sl tbl k = Free) \<and>
    (j < sl_len sl \<longrightarrow> slice_line sl tbl j \<noteq> Free)"
  using assms
proof (induction p sl tbl i rule: get_next_unavailable_line.induct)
  case (1 p sl tbl i)
  note unfold = get_next_unavailable_line.simps [of p sl tbl i]
  show ?case
  proof (cases "i < sl_len sl \<and> slice_line sl tbl i = Free")
    case True
    with 1 have "get_next_unavailable_line p sl tbl i = get_next_unavailable_line p sl tbl (Suc i)"
      by (simp add: unfold)
    with True 1 show ?thesis
      by (simp add: Suc_le_eq) (metis le_neq_implies_less less_imp_le)
  next
    case False
    with 1(2,3) show ?thesis by (auto simp: unfold)
  qed
qed

section \<open>Marking a line\<close>

text \<open>The collector keeps the lines marked \<open>Live\<close> or \<open>ConservLive\<close>.\<close>

definition retained :: "line_mark \<Rightarrow> bool" where
  "retained m \<longleftrightarrow> m = Live \<or> m = ConservLive"

lemma retained_simps [simp]:
  "retained Live" "retained ConservLive" "\<not> retained Free" "\<not> retained FreshAlloc"
  "\<not> retained PrevLive"
  by (simp_all add: retained_def)

definition table_ok :: "line_mark_table \<Rightarrow> bool" where
  "table_ok t \<longleftrightarrow> length (lt_cells t) = lt_len t \<and> lt_len t < 2 ^ 64"

abbreviation line_of :: "address \<Rightarrow> address \<Rightarrow> nat" where
  "line_of start a \<equiv> (addr_nat a - addr_nat start) div 256"

definition mark_cells :: "nat \<Rightarrow> line_mark list \<Rightarrow> line_mark list" where
  "mark_cells i cs = (if Suc i < length cs then cs[i := Live, Suc i := ConservLive] else cs[i := Live])"

lemma length_mark_cells [simp]: "length (mark_cells i cs) = length cs"
  by (simp add: mark_cells_def)

lemma nth_mark_cells:
  "k < length cs \<Longrightarrow> i < length cs \<Longrightarrow> mark_cells i cs ! k =
     (if k = Suc i then ConservLive else if k = i then Live else cs ! k)"
  by (auto simp: mark_cells_def nth_list_update)

lemma mark_cells_retains:
  assumes "i < length cs" and "k < length cs" and "k = i \<or> k = Suc i \<or> retained (cs ! k)"
  shows "retained (mark_cells i cs ! k)"
  using assms by (auto simp: nth_mark_cells)

lemma mark_line_at_ok:
  assumes "table_ok t" and "i < lt_len t"
  shows "mark_line_at p t i = Inr (t\<lparr>lt_cells := mark_cells i (lt_cells t)\<rparr>)"
proof -
  have set1: "lt_set p t i Live = Inr (t\<lparr>lt_cells := (lt_cells t)[i := Live]\<rparr>)"
    using assms by (simp add: lt_set_def table_ok_def)
  show ?thesis
  proof (cases "Suc i < lt_len t")
    case True
    with assms set1 show ?thesis
      by (simp add: mark_line_at_def nat_sub_ok nat_add_ok table_ok_def lt_set_def mark_cells_def)
  next
    case False
    then have "\<not> i < lt_len t - Suc 0" by linarith
    with False assms set1 show ?thesis
      by (simp add: mark_line_at_def nat_sub_ok table_ok_def mark_cells_def)
  qed
qed

lemma mark_line_live_ok:
  assumes "table_ok t" and "lt_space_start t \<le> a" and "line_of (lt_space_start t) a < lt_len t"
  shows "mark_line_live p t a =
    Inr (t\<lparr>lt_cells := mark_cells (line_of (lt_space_start t) a) (lt_cells t)\<rparr>)"
  using assms
  by (simp add: mark_line_live_def diff_ok unat_drop_bit_64 LOG_BYTES_IN_LINE_def mark_line_at_ok)

text \<open>The marking only returns when the line is in the table.\<close>

lemma lt_set_inv: "lt_set p t i v = Inr t' \<Longrightarrow> i < length (lt_cells t)"
  by (auto simp: lt_set_def split: if_splits)

lemma mark_line_at_inv: "mark_line_at p t i = Inr t' \<Longrightarrow> i < length (lt_cells t)"
  by (auto simp: mark_line_at_def dest: lt_set_inv)

lemma mark_line_live_inv:
  assumes "lt_space_start t \<le> a" and "mark_line_live p t a = Inr t'"
  shows "line_of (lt_space_start t) a < length (lt_cells t)"
proof -
  have "mark_line_at p t (line_of (lt_space_start t) a) = Inr t'"
    using assms by (simp add: mark_line_live_def diff_ok unat_drop_bit_64 LOG_BYTES_IN_LINE_def)
  then show ?thesis by (rule mark_line_at_inv)
qed

text \<open>An object no longer than a line lies in the line of its first byte and the next.\<close>

lemma object_lines:
  assumes "start \<le> a" and "j < sz" and "sz \<le> 256"
  shows "(addr_nat a + j - addr_nat start) div 256 \<in>
    {line_of start a, Suc (line_of start a)}"
proof -
  have "addr_nat a + j - addr_nat start = (addr_nat a - addr_nat start) + j"
    using assms(1) by (simp add: address_le_iff)
  moreover have "(n + j) div 256 \<in> {n div 256, Suc (n div 256)}" for n
  proof -
    have "n div 256 \<le> (n + j) div 256" by (simp add: div_le_mono)
    moreover have "(n + j) div 256 \<le> (n + 256) div 256"
      using assms(2,3) by (intro div_le_mono) simp
    ultimately show ?thesis by auto
  qed
  ultimately show ?thesis by simp
qed

section \<open>Properties\<close>

text \<open>C39: The two searches find a hole: \<open>get_next_available_line\<close> returns the first free
  line from a given line on, or none if all are taken, and \<open>get_next_unavailable_line\<close> from
  there returns the end of the longest run of free lines starting at it.\<close>

theorem hole_search:
  assumes "slice_ok sl tbl"
  shows "(get_next_available_line p sl tbl i = Inr None \<and>
      (\<forall>k. i \<le> k \<and> k < sl_len sl \<longrightarrow> slice_line sl tbl k \<noteq> Free)) \<or>
    (\<exists>j e. get_next_available_line p sl tbl i = Inr (Some j) \<and> get_next_unavailable_line p sl tbl j = Inr e \<and>
      i \<le> j \<and> j < e \<and> e \<le> sl_len sl \<and>
      (\<forall>k. i \<le> k \<and> k < j \<longrightarrow> slice_line sl tbl k \<noteq> Free) \<and>
      (\<forall>k. j \<le> k \<and> k < e \<longrightarrow> slice_line sl tbl k = Free) \<and>
      (e < sl_len sl \<longrightarrow> slice_line sl tbl e \<noteq> Free))"
proof (cases "get_next_available_line p sl tbl i = Inr None")
  case True
  then show ?thesis using next_available_spec [OF assms, of p i] by auto
next
  case False
  with next_available_spec [OF assms, of p i] obtain j where
    j: "get_next_available_line p sl tbl i = Inr (Some j)" "i \<le> j" "j < sl_len sl" "slice_line sl tbl j = Free"
      "\<forall>k. i \<le> k \<and> k < j \<longrightarrow> slice_line sl tbl k \<noteq> Free" by blast
  from next_unavailable_spec [OF assms, of j p] j(3) obtain e where
    e: "get_next_unavailable_line p sl tbl j = Inr e" "j \<le> e" "e \<le> sl_len sl"
      "\<forall>k. j \<le> k \<and> k < e \<longrightarrow> slice_line sl tbl k = Free" "e < sl_len sl \<longrightarrow> slice_line sl tbl e \<noteq> Free"
    by auto
  have "j < e" using e(2,5) j(3,4) by (cases "j = e") auto
  with j e show ?thesis by blast
qed

theorem hole_search_witness:
  "(get_next_available_line Debug \<lparr>sl_ptr = 1, sl_len = 3\<rparr> [Live, Live, Free, Free] 0 = Inr None \<and>
      (\<forall>k. 0 \<le> k \<and> k < sl_len \<lparr>sl_ptr = 1, sl_len = 3\<rparr> \<longrightarrow>
        slice_line \<lparr>sl_ptr = 1, sl_len = 3\<rparr> [Live, Live, Free, Free] k \<noteq> Free)) \<or>
    (\<exists>j e. get_next_available_line Debug \<lparr>sl_ptr = 1, sl_len = 3\<rparr> [Live, Live, Free, Free] 0 = Inr (Some j) \<and>
      get_next_unavailable_line Debug \<lparr>sl_ptr = 1, sl_len = 3\<rparr> [Live, Live, Free, Free] j = Inr e \<and>
      0 \<le> j \<and> j < e \<and> e \<le> sl_len \<lparr>sl_ptr = 1, sl_len = 3\<rparr> \<and>
      (\<forall>k. 0 \<le> k \<and> k < j \<longrightarrow> slice_line \<lparr>sl_ptr = 1, sl_len = 3\<rparr> [Live, Live, Free, Free] k \<noteq> Free) \<and>
      (\<forall>k. j \<le> k \<and> k < e \<longrightarrow> slice_line \<lparr>sl_ptr = 1, sl_len = 3\<rparr> [Live, Live, Free, Free] k = Free) \<and>
      (e < sl_len \<lparr>sl_ptr = 1, sl_len = 3\<rparr> \<longrightarrow>
        slice_line \<lparr>sl_ptr = 1, sl_len = 3\<rparr> [Live, Live, Free, Free] e \<noteq> Free))"
  by (rule hole_search) (simp add: slice_ok_def)

text \<open>\<open>mark_line_live\<close> on the first address of an object of at most one line's size
  retains every line a byte of the object lies in, and changes no line but those two.\<close>

lemma mark_line_live_covers:
  assumes t: "table_ok t" and a: "lt_space_start t \<le> a" "line_of (lt_space_start t) a < lt_len t"
    and n: "n < sz" "sz \<le> 256" and last: "(addr_nat a + n - addr_nat (lt_space_start t)) div 256 < lt_len t"
  shows "\<exists>t'. mark_line_live p t a = Inr t' \<and> table_ok t' \<and>
    retained (lt_cells t' ! ((addr_nat a + n - addr_nat (lt_space_start t)) div 256)) \<and>
    (\<forall>j<lt_len t. j \<notin> {line_of (lt_space_start t) a, Suc (line_of (lt_space_start t) a)} \<longrightarrow>
       lt_cells t' ! j = lt_cells t ! j)"
proof -
  let ?l = "line_of (lt_space_start t) a"
  have len: "length (lt_cells t) = lt_len t" using t by (simp add: table_ok_def)
  have "(addr_nat a + n - addr_nat (lt_space_start t)) div 256 \<in> {?l, Suc ?l}"
    by (rule object_lines [OF a(1) n])
  then show ?thesis
    using mark_line_live_ok [OF t a, of p] t a last len
    by (auto simp: nth_mark_cells table_ok_def)
qed

end
