(* ===== verification/Injector.thy ===== *)
theory Injector
  imports Prelude
begin

text \<open>
  The crossbeam \<open>Injector\<close> is code outside the repository: its operations are an argument
  (\<open>injector_ops\<close>) of every definition that uses a queue of blocks. What the repository
  relies on is the predicate \<open>injector_laws\<close>, the documented behaviour of a FIFO queue:
  a push appends, a successful steal takes the oldest task, \<open>Empty\<close> is reported only by an
  empty queue, and \<open>Retry\<close> leaves the queue as it was and is not returned forever.
\<close>

datatype 'a steal = Empty | Success 'a | Retry

record ('q, 'a) injector_ops =
  inj_new :: 'q
  inj_push :: "'q \<Rightarrow> 'a \<Rightarrow> 'q"
  inj_steal :: "'q \<Rightarrow> 'a steal \<times> 'q"

text \<open>\<open>c\<close> is the queue's contents, oldest first; \<open>r\<close> bounds the retries still to come.\<close>

definition injector_laws ::
  "('q, 'a) injector_ops \<Rightarrow> ('q \<Rightarrow> 'a list) \<Rightarrow> ('q \<Rightarrow> nat) \<Rightarrow> bool" where
  "injector_laws I c r \<longleftrightarrow>
     c (inj_new I) = [] \<and>
     (\<forall>q x. c (inj_push I q x) = c q @ [x]) \<and>
     (\<forall>q q'. inj_steal I q = (Empty, q') \<longrightarrow> c q = [] \<and> c q' = []) \<and>
     (\<forall>q q' x. inj_steal I q = (Success x, q') \<longrightarrow> c q = x # c q') \<and>
     (\<forall>q q'. inj_steal I q = (Retry, q') \<longrightarrow> c q' = c q \<and> r q' < r q)"

lemma injector_new: "injector_laws I c r \<Longrightarrow> c (inj_new I) = []"
  and injector_push: "injector_laws I c r \<Longrightarrow> c (inj_push I q x) = c q @ [x]"
  and injector_empty:
    "injector_laws I c r \<Longrightarrow> inj_steal I q = (Empty, q') \<Longrightarrow> c q = [] \<and> c q' = []"
  and injector_success:
    "injector_laws I c r \<Longrightarrow> inj_steal I q = (Success x, q') \<Longrightarrow> c q = x # c q'"
  and injector_retry:
    "injector_laws I c r \<Longrightarrow> inj_steal I q = (Retry, q') \<Longrightarrow> c q' = c q \<and> r q' < r q"
  by (auto simp: injector_laws_def)

lemmas injector_rules = injector_new injector_push injector_empty injector_success injector_retry

text \<open>The loop around \<open>steal\<close> that goes on while the queue answers \<open>Retry\<close>.\<close>

partial_function (option) steal_loop ::
  "('q, 'a) injector_ops \<Rightarrow> 'q \<Rightarrow> ('a option \<times> 'q) option" where
  "steal_loop I q =
     (case inj_steal I q of
        (r, q') \<Rightarrow> (case r of
            Empty \<Rightarrow> Some (None, q')
          | Success x \<Rightarrow> Some (Some x, q')
          | Retry \<Rightarrow> steal_loop I q'))"

lemma steal_loop_returns:
  assumes laws: "injector_laws I c r"
  shows "\<exists>q'. steal_loop I q = Some (if c q = [] then None else Some (hd (c q)), q') \<and>
    c q' = tl (c q)"
proof (induction "r q" arbitrary: q rule: less_induct)
  case less
  obtain a q' where st: "inj_steal I q = (a, q')" by (cases "inj_steal I q")
  show ?case
  proof (cases a)
    case Empty
    then show ?thesis using st injector_empty [OF laws] by (subst steal_loop.simps) simp
  next
    case (Success x)
    then show ?thesis using st injector_success [OF laws] by (subst steal_loop.simps) simp
  next
    case Retry
    with st injector_retry [OF laws] have "c q' = c q" "r q' < r q" by auto
    with less [of q'] Retry st show ?thesis
      by (subst steal_loop.simps) (auto split: if_splits)
  qed
qed

text \<open>The interface the collector's clients of a queue are proved against.\<close>

locale injector_spec =
  fixes I :: "('q, 'a) injector_ops" and c :: "'q \<Rightarrow> 'a list" and r :: "'q \<Rightarrow> nat"
  assumes laws: "injector_laws I c r"

section \<open>A concrete queue\<close>

text \<open>A list with a number of spurious retries: it shows that the laws can hold.\<close>

fun fifo_steal :: "'a list \<times> nat \<Rightarrow> 'a steal \<times> ('a list \<times> nat)" where
  "fifo_steal (xs, Suc n) = (Retry, (xs, n))"
| "fifo_steal ([], 0) = (Empty, ([], 0))"
| "fifo_steal (x # xs, 0) = (Success x, (xs, 0))"

definition fifo_ops :: "nat \<Rightarrow> ('a list \<times> nat, 'a) injector_ops" where
  "fifo_ops n = \<lparr>inj_new = ([], n), inj_push = (\<lambda>(xs, k) x. (xs @ [x], k)), inj_steal = fifo_steal\<rparr>"

lemma fifo_ops_sel [simp]:
  "inj_new (fifo_ops n) = ([], n)"
  "inj_push (fifo_ops n) (xs, k) x = (xs @ [x], k)"
  "inj_steal (fifo_ops n) = fifo_steal"
  by (simp_all add: fifo_ops_def)

lemma fifo_ops_laws: "injector_laws (fifo_ops n) fst snd"
  unfolding injector_laws_def fifo_ops_def
  by (auto elim: fifo_steal.elims)

interpretation fifo: injector_spec "fifo_ops n" fst snd for n
  by unfold_locales (rule fifo_ops_laws)

end
