(* ===== verification/Mutator_Registry.thy ===== *)
theory Mutator_Registry
  imports Address
begin

text \<open>
  The globally visible part of the mutators (\<open>ImmixMutatorGlobal\<close>, the arena \<open>MUTATORS\<close> and
  the counter \<open>N_MUTATORS\<close> of \<open>src/src/heap/immix/immix_mutator.rs\<close>) and \<open>trigger_gc\<close> of
  \<open>src/src/heap/gc/mod.rs\<close>, which raises the yield flag of every registered mutator.

  The generational arena is code outside the repository: the index it hands out on an insert
  is an argument of the operations here, and what the code relies on (an index is not in use
  when it is handed out) is the hypothesis \<open>fresh_index\<close>. The flags live behind an \<open>Arc\<close>
  shared by the arena and the mutator, so they are a store keyed by the index.
\<close>

record mutator_global =
  mg_take_yield :: bool
  mg_still_blocked :: bool

definition mg_new :: mutator_global where
  "mg_new = \<lparr>mg_take_yield = False, mg_still_blocked = False\<rparr>"

definition is_still_blocked :: "mutator_global \<Rightarrow> bool" where
  "is_still_blocked self = mg_still_blocked self"

definition set_still_blocked :: "mutator_global \<Rightarrow> bool \<Rightarrow> mutator_global" where
  "set_still_blocked self b = self\<lparr>mg_still_blocked := b\<rparr>"

definition set_take_yield :: "mutator_global \<Rightarrow> bool \<Rightarrow> mutator_global" where
  "set_take_yield self b = self\<lparr>mg_take_yield := b\<rparr>"

definition take_yield :: "mutator_global \<Rightarrow> bool" where
  "take_yield self = mg_take_yield self"

lemmas mutator_global_defs =
  mg_new_def is_still_blocked_def set_still_blocked_def set_take_yield_def take_yield_def

text \<open>An index is its slot and its generation (\<open>into_raw_parts\<close>).\<close>

type_synonym index = "nat \<times> nat"

record registry =
  rg_globals :: "index \<Rightarrow> mutator_global"
  rg_arena :: "index list"
  rg_n_mutators :: usize

definition empty_registry :: registry where
  "empty_registry = \<lparr>rg_globals = (\<lambda>_. mg_new), rg_arena = [], rg_n_mutators = 0\<rparr>"

definition fresh_index :: "registry \<Rightarrow> index \<Rightarrow> bool" where
  "fresh_index r i \<longleftrightarrow> fst i \<notin> fst ` set (rg_arena r)"

text \<open>\<open>mutators_lock.insert(global)\<close> followed by \<open>N_MUTATORS.fetch_add(1)\<close>; atomics wrap.\<close>

definition register :: "registry \<Rightarrow> index \<Rightarrow> mutator_global \<Rightarrow> registry" where
  "register r i g = r\<lparr>rg_globals := (rg_globals r)(i := g), rg_arena := rg_arena r @ [i],
     rg_n_mutators := rg_n_mutators r + 1\<rparr>"

definition unregister :: "registry \<Rightarrow> index \<Rightarrow> registry" where
  "unregister r i = r\<lparr>rg_arena := removeAll i (rg_arena r), rg_n_mutators := rg_n_mutators r - 1\<rparr>"

definition update_registered :: "(mutator_global \<Rightarrow> mutator_global) \<Rightarrow> registry \<Rightarrow> registry" where
  "update_registered f r =
     r\<lparr>rg_globals := (\<lambda>i. if i \<in> set (rg_arena r) then f (rg_globals r i) else rg_globals r i)\<rparr>"

definition trigger_gc :: "registry \<Rightarrow> registry" where
  "trigger_gc r = update_registered (\<lambda>m. set_take_yield m True) r"

lemma update_registered_sel [simp]:
  "rg_arena (update_registered f r) = rg_arena r"
  "rg_n_mutators (update_registered f r) = rg_n_mutators r"
  "rg_globals (update_registered f r) i =
     (if i \<in> set (rg_arena r) then f (rg_globals r i) else rg_globals r i)"
  by (simp_all add: update_registered_def)

lemma trigger_gc_sel [simp]:
  "rg_arena (trigger_gc r) = rg_arena r"
  "rg_n_mutators (trigger_gc r) = rg_n_mutators r"
  "i \<in> set (rg_arena r) \<Longrightarrow> take_yield (rg_globals (trigger_gc r) i)"
  "i \<notin> set (rg_arena r) \<Longrightarrow> rg_globals (trigger_gc r) i = rg_globals r i"
  "mg_still_blocked (rg_globals (trigger_gc r) i) = mg_still_blocked (rg_globals r i)"
  by (simp_all add: trigger_gc_def mutator_global_defs)

text \<open>The counter is the number of registered mutators, and no slot is used twice.\<close>

definition registry_ok :: "registry \<Rightarrow> bool" where
  "registry_ok r \<longleftrightarrow> distinct (map fst (rg_arena r)) \<and>
     length (rg_arena r) < 2 ^ 64 \<and> unat (rg_n_mutators r) = length (rg_arena r)"

lemma registry_ok_distinct: "registry_ok r \<Longrightarrow> distinct (rg_arena r)"
  by (simp add: registry_ok_def distinct_map)

lemma registry_ok_empty: "registry_ok empty_registry"
  by (simp add: registry_ok_def empty_registry_def)

lemma registry_ok_register:
  assumes "registry_ok r" and "fresh_index r i" and "Suc (length (rg_arena r)) < 2 ^ 64"
  shows "registry_ok (register r i g)"
  using assms
  by (auto simp: registry_ok_def register_def fresh_index_def unat_add_small)

lemma registry_ok_unregister:
  assumes "registry_ok r" and "i \<in> set (rg_arena r)"
  shows "registry_ok (unregister r i)"
proof -
  have len: "Suc (length (removeAll i (rg_arena r))) = length (rg_arena r)"
    using assms registry_ok_distinct [OF assms(1)]
    by (simp add: distinct_remove1_removeAll [symmetric] length_remove1)
      (metis Suc_pred length_pos_if_in_set)
  then have "1 \<le> rg_n_mutators r" using assms(1) by (simp add: word_le_nat_alt registry_ok_def)
  then have "unat (rg_n_mutators r - 1) = length (removeAll i (rg_arena r))"
    using assms(1) len by (simp add: unat_sub registry_ok_def)
  then show ?thesis
    using assms(1) len distinct_map_filter [of fst "rg_arena r" "\<lambda>x. i \<noteq> x"]
    by (simp add: registry_ok_def unregister_def removeAll_filter_not_eq)
qed

section \<open>Properties\<close>

text \<open>The registries a program can reach from the empty one by creating, signalling and
  destroying mutators.\<close>

inductive registry_reachable :: "registry \<Rightarrow> bool" where
  start: "registry_reachable empty_registry"
| create: "registry_reachable r \<Longrightarrow> fresh_index r i \<Longrightarrow> Suc (length (rg_arena r)) < 2 ^ 64 \<Longrightarrow>
    registry_reachable (register r i mg_new)"
| remove: "registry_reachable r \<Longrightarrow> i \<in> set (rg_arena r) \<Longrightarrow> registry_reachable (unregister r i)"
| signal: "registry_reachable r \<Longrightarrow> registry_reachable (update_registered f r)"

text \<open>However mutators are created, destroyed and signalled, \<open>N_MUTATORS\<close> is the number
  of mutators in the arena and no slot is used twice, so the counter the collector waits for
  never wraps.\<close>

lemma registry_counts:
  assumes "registry_reachable r"
  shows "distinct (map fst (rg_arena r)) \<and> unat (rg_n_mutators r) = length (rg_arena r)"
proof -
  have "registry_ok r"
    using assms
  proof induction
    case (signal r f)
    then show ?case by (simp add: registry_ok_def)
  qed (simp_all add: registry_ok_empty registry_ok_register registry_ok_unregister)
  then show ?thesis by (simp add: registry_ok_def)
qed

end
