(* ===== verification/Immix_Space.thy ===== *)
theory Immix_Space
  imports Line_Mark Injector Mutator_Registry "HOL-Library.Multiset"
begin

text \<open>
  \<open>src/src/heap/immix/immix_space.rs\<close>: the space of blocks. Blocks circulate between the
  queue of usable blocks, the mutators and the queue of used blocks; the sweep frees the
  lines of the used blocks that the trace left unmarked and sorts those blocks into usable
  and full ones. The two queues are injectors, whose operations \<open>I\<close> are an argument; the
  address that \<open>mmap\<close> returns is an argument too.
\<close>

section \<open>Blocks\<close>

record immix_block =
  ib_id :: nat
  ib_state :: block_mark
  ib_start :: address
  ib_lines :: line_mark_slice

definition block_get_next_available_line ::
  "profile \<Rightarrow> immix_block \<Rightarrow> line_mark list \<Rightarrow> nat \<Rightarrow> nat option res" where
  "block_get_next_available_line p self tbl cur_line =
     get_next_available_line p (ib_lines self) tbl cur_line"

definition block_get_next_unavailable_line ::
  "profile \<Rightarrow> immix_block \<Rightarrow> line_mark list \<Rightarrow> nat \<Rightarrow> nat res" where
  "block_get_next_unavailable_line p self tbl cur_line =
     get_next_unavailable_line p (ib_lines self) tbl cur_line"

definition set_state :: "immix_block \<Rightarrow> block_mark \<Rightarrow> immix_block" where
  "set_state self mark = self\<lparr>ib_state := mark\<rparr>"

lemma set_state_sel [simp]:
  "ib_id (set_state b m) = ib_id b" "ib_start (set_state b m) = ib_start b"
  "ib_lines (set_state b m) = ib_lines b" "ib_state (set_state b m) = m"
  by (simp_all add: set_state_def)

section \<open>The space\<close>

record 'q immix_space =
  sp_start :: address
  sp_end :: address
  sp_alloc_map :: "u8 address_map"
  sp_trace_map :: trace_map
  sp_line_mark_table :: line_mark_table
  sp_total_blocks :: nat
  sp_mmap :: "usize \<times> usize"
  sp_usable_blocks :: 'q
  sp_used_blocks :: 'q

type_synonym 'q block_queue = "('q, immix_block) injector_ops"

text \<open>The interface of the two queues, for any injector of blocks that keeps the laws.\<close>

locale block_queue_spec = injector_spec I c r
  for I :: "'q block_queue" and c :: "'q \<Rightarrow> immix_block list" and r :: "'q \<Rightarrow> nat"

interpretation fifo_blocks: block_queue_spec "fifo_ops n" fst snd for n ..

lemma block_queue_specI: "injector_laws I c r \<Longrightarrow> block_queue_spec I c r"
  by unfold_locales

abbreviation sp_cells :: "'q immix_space \<Rightarrow> line_mark list" where
  "sp_cells s \<equiv> lt_cells (sp_line_mark_table s)"

definition SPACE_ALIGN :: usize where "SPACE_ALIGN = push_bit 19 1"

partial_function (option) init_blocks_loop ::
  "profile \<Rightarrow> 'q block_queue \<Rightarrow> line_mark_table \<Rightarrow> address \<Rightarrow> nat \<Rightarrow> address \<Rightarrow> nat \<Rightarrow> 'q
     \<Rightarrow> (nat \<times> 'q) res option" where
  "init_blocks_loop p I tbl space_end bid block_start line q =
     (case addr_plus p block_start BYTES_IN_BLOCK of
        Inl e \<Rightarrow> Some (Inl e)
      | Inr next_start \<Rightarrow>
          if next_start \<le> space_end then
            (case take_slice tbl line LINES_IN_BLOCK of
               Inl e \<Rightarrow> Some (Inl e)
             | Inr sl \<Rightarrow>
                 init_blocks_loop p I tbl space_end (bid + 1) next_start (line + LINES_IN_BLOCK)
                   (inj_push I q
                      \<lparr>ib_id = bid, ib_state = Usable, ib_start = block_start, ib_lines = sl\<rparr>))
          else Some (Inr (bid, q)))"

definition init_blocks ::
  "profile \<Rightarrow> 'q block_queue \<Rightarrow> 'q immix_space \<Rightarrow> 'q immix_space res option" where
  "init_blocks p I self =
     map_option (\<lambda>r. bind_res r (\<lambda>(bid, q).
         Inr (self\<lparr>sp_usable_blocks := q, sp_total_blocks := bid\<rparr>)))
       (init_blocks_loop p I (sp_line_mark_table self) (sp_end self) 0 (sp_start self) 0
          (sp_usable_blocks self))"

text \<open>\<open>mmap len\<close> is the address of a new anonymous mapping of \<open>len\<close> bytes, if there is one.\<close>

definition space_fields ::
  "profile \<Rightarrow> 'q block_queue \<Rightarrow> (usize \<Rightarrow> usize option) \<Rightarrow> usize \<Rightarrow> 'q immix_space res" where
  "space_fields p I mmap space_size =
     bind_res (usize_add p space_size SPACE_ALIGN) (\<lambda>len.
     case mmap len of
       None \<Rightarrow> Inl (UnwrapFailed ''failed to call mmap'')
     | Some ptr \<Rightarrow>
         bind_res (align_up p (from_ptr ptr) SPACE_ALIGN) (\<lambda>start.
         bind_res (addr_plus p start space_size) (\<lambda>end.
         bind_res (lt_new p start end) (\<lambda>line_mark_table.
         bind_res (tm_new p (as_usize start) (as_usize end)) (\<lambda>trace_map.
         bind_res (am_new p 1 0 start end) (\<lambda>alloc_map.
           Inr \<lparr>sp_start = start, sp_end = end, sp_alloc_map = alloc_map,
                sp_trace_map = trace_map, sp_line_mark_table = line_mark_table,
                sp_total_blocks = 0, sp_mmap = (ptr, len),
                sp_usable_blocks = inj_new I, sp_used_blocks = inj_new I\<rparr>))))))"

definition space_new ::
  "profile \<Rightarrow> 'q block_queue \<Rightarrow> (usize \<Rightarrow> usize option) \<Rightarrow> usize \<Rightarrow> 'q immix_space res option" where
  "space_new p I mmap space_size =
     (case space_fields p I mmap space_size of
        Inl e \<Rightarrow> Some (Inl e)
      | Inr ret \<Rightarrow> init_blocks p I ret)"

definition return_used_block :: "'q block_queue \<Rightarrow> 'q immix_space \<Rightarrow> immix_block \<Rightarrow> 'q immix_space" where
  "return_used_block I self old = self\<lparr>sp_used_blocks := inj_push I (sp_used_blocks self) old\<rparr>"

definition get_next_usable_block ::
  "'q block_queue \<Rightarrow> 'q immix_space \<Rightarrow> registry \<Rightarrow>
     (immix_block option \<times> 'q immix_space \<times> registry) option" where
  "get_next_usable_block I self mutators =
     map_option (\<lambda>(r, q).
         let self' = self\<lparr>sp_usable_blocks := q\<rparr> in
         case r of
           None \<Rightarrow> (None, self', trigger_gc mutators)
         | Some v \<Rightarrow> (Some v, self', mutators))
       (steal_loop I (sp_usable_blocks self))"

section \<open>Sweep\<close>

text \<open>The inner loop over the lines of one block: the table, \<open>has_free_lines\<close>, \<open>free_lines\<close>.\<close>

function sweep_lines ::
  "profile \<Rightarrow> line_mark_slice \<Rightarrow> line_mark list \<Rightarrow> nat \<Rightarrow> bool \<Rightarrow> nat
     \<Rightarrow> (line_mark list \<times> bool \<times> nat) res" where
  "sweep_lines p sl tbl i has_free_lines free_lines =
     (if i < sl_len sl then
        bind_res (sl_get p sl tbl i) (\<lambda>m1.
        bind_res (sl_get p sl tbl i) (\<lambda>m2.
        if m1 \<noteq> Live \<and> m2 \<noteq> ConservLive
        then bind_res (sl_set p sl tbl i Free) (\<lambda>tbl'.
               sweep_lines p sl tbl' (Suc i) True (free_lines + 1))
        else sweep_lines p sl tbl (Suc i) has_free_lines free_lines))
      else Inr (tbl, has_free_lines, free_lines))"
  by pat_completeness auto
termination
  by (relation "measure (\<lambda>(p, sl, tbl, i, h, f). sl_len sl - i)") auto

declare sweep_lines.simps [simp del]

text \<open>The counters of the sweep: free lines, usable blocks, full blocks.\<close>

record 'q sweep_state =
  sw_used :: 'q
  sw_usable :: 'q
  sw_live :: "immix_block list"
  sw_cells :: "line_mark list"
  sw_free_lines :: nat
  sw_usable_count :: nat
  sw_full_count :: nat

definition sweep_block :: "profile \<Rightarrow> 'q block_queue \<Rightarrow> immix_block \<Rightarrow> 'q sweep_state \<Rightarrow> 'q sweep_state res" where
  "sweep_block p I block w =
     bind_res (sweep_lines p (ib_lines block) (sw_cells w) 0 False (sw_free_lines w))
       (\<lambda>(tbl, has_free_lines, free_lines).
        let w' = w\<lparr>sw_cells := tbl, sw_free_lines := free_lines\<rparr> in
        if has_free_lines
        then Inr (w'\<lparr>sw_usable_count := sw_usable_count w + 1,
                     sw_usable := inj_push I (sw_usable w) (set_state block Usable)\<rparr>)
        else Inr (w'\<lparr>sw_full_count := sw_full_count w + 1,
                     sw_live := set_state block Full # sw_live w\<rparr>))"

partial_function (option) sweep_loop ::
  "profile \<Rightarrow> 'q block_queue \<Rightarrow> 'q sweep_state \<Rightarrow> 'q sweep_state res option" where
  "sweep_loop p I w =
     (case inj_steal I (sw_used w) of
        (r, q) \<Rightarrow> (case r of
            Empty \<Rightarrow> Some (Inr (w\<lparr>sw_used := q\<rparr>))
          | Success block \<Rightarrow>
              (case sweep_block p I block (w\<lparr>sw_used := q\<rparr>) of
                 Inl e \<Rightarrow> Some (Inl e)
               | Inr w' \<Rightarrow> sweep_loop p I w')
          | Retry \<Rightarrow> sweep_loop p I (w\<lparr>sw_used := q\<rparr>)))"

text \<open>The lines a debug build prints at the end of every sweep.\<close>

definition sweep_report :: "profile \<Rightarrow> nat \<Rightarrow> nat \<Rightarrow> nat \<Rightarrow> nat \<Rightarrow> string list" where
  "sweep_report p total_blocks free_lines usable_blocks full_blocks =
     (if p = Debug
      then [''free lines    = '' @ dec_str free_lines @ '' of '' @ dec_str (total_blocks * LINES_IN_BLOCK) @ '' total'',
            ''usable blocks = '' @ dec_str usable_blocks,
            ''full blocks   = '' @ dec_str full_blocks]
      else [])"

definition sweep_finish :: "profile \<Rightarrow> 'q block_queue \<Rightarrow> 'q immix_space \<Rightarrow> 'q sweep_state
    \<Rightarrow> ('q immix_space \<times> string list) res" where
  "sweep_finish p I self w =
     (let used = foldl (inj_push I) (sw_used w) (sw_live w);
          out = sweep_report p (sp_total_blocks self) (sw_free_lines w) (sw_usable_count w) (sw_full_count w) in
      if sw_full_count w = sp_total_blocks self
      then Inl (Panic ''Out of memory in Immix Space'')
      else bind_res (debug_assert p ''full_blocks + usable_blocks == self.total_blocks''
                       (sw_full_count w + sw_usable_count w = sp_total_blocks self))
        (\<lambda>_. Inr (self\<lparr>sp_used_blocks := used, sp_usable_blocks := sw_usable w,
                  sp_line_mark_table := (sp_line_mark_table self)\<lparr>lt_cells := sw_cells w\<rparr>\<rparr>, out)))"

text \<open>The space after the sweep, and what has been printed.\<close>

definition sweep :: "profile \<Rightarrow> 'q block_queue \<Rightarrow> 'q immix_space \<Rightarrow> ('q immix_space \<times> string list) res option" where
  "sweep p I self =
     map_option (\<lambda>r. bind_res r (sweep_finish p I self))
       (sweep_loop p I \<lparr>sw_used = sp_used_blocks self, sw_usable = sp_usable_blocks self,
          sw_live = [], sw_cells = sp_cells self, sw_free_lines = 0,
          sw_usable_count = 0, sw_full_count = 0\<rparr>)"

definition addr_in_space :: "'q immix_space \<Rightarrow> address \<Rightarrow> bool" where
  "addr_in_space self addr \<longleftrightarrow> sp_start self \<le> addr \<and> addr < sp_end self"

section \<open>The blocks of a new space\<close>

definition nth_block :: "address \<Rightarrow> nat \<Rightarrow> immix_block" where
  "nth_block start i =
     \<lparr>ib_id = i, ib_state = Usable, ib_start = Address (of_nat (addr_nat start + 65536 * i)),
      ib_lines = \<lparr>sl_ptr = 256 * i, sl_len = 256\<rparr>\<rparr>"

lemma addr_nat_of_nat: "n < 2 ^ 64 \<Longrightarrow> addr_nat (Address (of_nat n)) = n"
  by (simp add: unat_of_nat)

lemma nth_block_sel [simp]:
  "ib_id (nth_block start i) = i" "ib_state (nth_block start i) = Usable"
  "ib_lines (nth_block start i) = \<lparr>sl_ptr = 256 * i, sl_len = 256\<rparr>"
  by (simp_all add: nth_block_def)

lemma nth_block_start:
  "addr_nat start + 65536 * i < 2 ^ 64 \<Longrightarrow>
     addr_nat (ib_start (nth_block start i)) = addr_nat start + 65536 * i"
  unfolding nth_block_def by (simp only: immix_block.simps addr_nat_of_nat)

lemma nth_block_next:
  assumes "addr_nat start + 65536 * Suc i < 2 ^ 64"
  shows "addr_plus p (ib_start (nth_block start i)) BYTES_IN_BLOCK =
    Inr (ib_start (nth_block start (Suc i)))"
proof -
  have now: "addr_nat (ib_start (nth_block start i)) = addr_nat start + 65536 * i"
    using assms by (intro nth_block_start) simp
  then have "addr_nat (ib_start (nth_block start i)) + unat BYTES_IN_BLOCK < 2 ^ 64"
    using assms by simp
  from addr_plus_ok [OF this, of p] obtain b where
    b: "addr_plus p (ib_start (nth_block start i)) BYTES_IN_BLOCK = Inr b"
       "addr_nat b = addr_nat start + 65536 * Suc i"
    using now by auto
  then have "b = ib_start (nth_block start (Suc i))"
    using nth_block_start [OF assms] by (simp only: addr_nat_inject [symmetric])
  with b show ?thesis by simp
qed

lemma init_blocks_loop_ok:
  assumes laws: "injector_laws I c r"
    and fits: "256 * n \<le> length (lt_cells tbl)"
    and top: "addr_nat end + 65536 < 2 ^ 64"
    and n: "addr_nat start + 65536 * n \<le> addr_nat end"
      "addr_nat end < addr_nat start + 65536 * Suc n"
    and i: "i \<le> n"
  shows "\<exists>q'. init_blocks_loop p I tbl end i (ib_start (nth_block start i)) (256 * i) q =
      Some (Inr (n, q')) \<and> c q' = c q @ map (nth_block start) [i..<n]"
  using i
proof (induction "n - i" arbitrary: i q)
  case 0
  then have i: "i = n" by simp
  have b: "addr_nat start + 65536 * Suc n < 2 ^ 64" using n top by simp
  have "\<not> ib_start (nth_block start (Suc n)) \<le> end"
    using n(2) unfolding address_le_iff nth_block_start [OF b] by simp
  then show ?case
    by (subst init_blocks_loop.simps) (simp add: i nth_block_next [OF b])
next
  case (Suc d)
  then have i: "i < n" "d = n - Suc i" "Suc i \<le> n" by simp_all
  have le: "addr_nat start + 65536 * Suc i \<le> addr_nat end"
    using n(1) i(3) by (meson add_le_mono le_refl le_trans mult_le_mono2)
  then have b: "addr_nat start + 65536 * Suc i < 2 ^ 64" using top by simp
  have in_range: "ib_start (nth_block start (Suc i)) \<le> end"
    using le unfolding address_le_iff nth_block_start [OF b] by simp
  have slice: "take_slice tbl (256 * i) 256 = Inr (ib_lines (nth_block start i))"
    using fits i(1) by (simp add: take_slice_def)
  have blk: "\<lparr>ib_id = i, ib_state = Usable, ib_start = ib_start (nth_block start i),
      ib_lines = ib_lines (nth_block start i)\<rparr> = nth_block start i"
    by (simp add: nth_block_def)
  have "init_blocks_loop p I tbl end i (ib_start (nth_block start i)) (256 * i) q =
      init_blocks_loop p I tbl end (Suc i) (ib_start (nth_block start (Suc i))) (256 * Suc i)
        (inj_push I q (nth_block start i))"
    by (subst init_blocks_loop.simps)
      (simp only: nth_block_next [OF b] in_range slice blk sum.case if_True geometry
        Suc_eq_plus1 [symmetric] mult_Suc_right add.commute [of 256])
  moreover obtain q' where
    "init_blocks_loop p I tbl end (Suc i) (ib_start (nth_block start (Suc i))) (256 * Suc i)
        (inj_push I q (nth_block start i)) = Some (Inr (n, q'))"
    "c q' = c (inj_push I q (nth_block start i)) @ map (nth_block start) [Suc i..<n]"
    using Suc.hyps(1) [OF i(2,3), of "inj_push I q (nth_block start i)"] by blast
  ultimately show ?case
    using i(1) injector_push [OF laws] by (simp add: upt_conv_Cons)
qed

section \<open>The invariant of the space\<close>

text \<open>
  The tables cover the space, and every block is in exactly one place: in one of the two
  queues or held by a mutator (\<open>held\<close>). \<open>c\<close> reads the contents of a queue.
\<close>

abbreviation space_size :: "'q immix_space \<Rightarrow> nat" where
  "space_size s \<equiv> addr_nat (sp_end s) - addr_nat (sp_start s)"

definition tables_ok :: "'q immix_space \<Rightarrow> bool" where
  "tables_ok s \<longleftrightarrow>
     sp_start s \<le> sp_end s \<and> addr_nat (sp_end s) + 65536 < 2 ^ 64 \<and>
     2 ^ 19 dvd addr_nat (sp_start s) \<and>
     sp_total_blocks s = space_size s div 65536 \<and>
     table_ok (sp_line_mark_table s) \<and> lt_space_start (sp_line_mark_table s) = sp_start s \<and>
     lt_len (sp_line_mark_table s) = space_size s div 256 \<and>
     am_start (sp_alloc_map s) = sp_start s \<and> am_end (sp_alloc_map s) = sp_end s \<and>
     length (am_cells (sp_alloc_map s)) = space_size s div 8 \<and>
     sm_offset (tm_map (sp_trace_map s)) = as_usize (sp_start s) \<and>
     length (sm_addresses (tm_map (sp_trace_map s))) = (space_size s + 7) div 8"

definition block_wf :: "'q immix_space \<Rightarrow> immix_block \<Rightarrow> bool" where
  "block_wf s b \<longleftrightarrow> ib_id b < sp_total_blocks s \<and>
     ib_start b = ib_start (nth_block (sp_start s) (ib_id b)) \<and>
     ib_lines b = \<lparr>sl_ptr = 256 * ib_id b, sl_len = 256\<rparr>"

definition all_blocks :: "('q \<Rightarrow> immix_block list) \<Rightarrow> immix_block list \<Rightarrow> 'q immix_space \<Rightarrow> immix_block list" where
  "all_blocks c held s = c (sp_usable_blocks s) @ c (sp_used_blocks s) @ held"

definition space_ok :: "('q \<Rightarrow> immix_block list) \<Rightarrow> immix_block list \<Rightarrow> 'q immix_space \<Rightarrow> bool" where
  "space_ok c held s \<longleftrightarrow> tables_ok s \<and> (\<forall>b\<in>set (all_blocks c held s). block_wf s b) \<and>
     mset (map ib_id (all_blocks c held s)) = mset [0..<sp_total_blocks s]"

lemma total_blocks_lines:
  "tables_ok s \<Longrightarrow> 256 * sp_total_blocks s \<le> length (sp_cells s)"
  by (simp add: tables_ok_def table_ok_def)

lemma block_wf_slice_ok:
  assumes "tables_ok s" and "block_wf s b"
  shows "slice_ok (ib_lines b) (sp_cells s)"
  using assms total_blocks_lines [OF assms(1)] by (auto simp: block_wf_def slice_ok_def)

section \<open>A new space\<close>

lemma lt_new_ok:
  assumes "start \<le> end"
  shows "lt_new p start end = Inr \<lparr>lt_space_start = start,
    lt_cells = replicate ((addr_nat end - addr_nat start) div 256) Free,
    lt_len = (addr_nat end - addr_nat start) div 256\<rparr>"
proof -
  have "addr_nat end - addr_nat start < 2 ^ 64"
    by (rule le_less_trans [OF diff_le_self]) simp
  then have "(addr_nat end - addr_nat start) div 256 < 2 ^ 63" by simp
  then show ?thesis
    using assms by (simp add: lt_new_def diff_ok unat_div layout_array_def Let_def map_replicate_const)
qed

lemma space_fields_ok:
  assumes mmap: "mmap (sz + SPACE_ALIGN) = Some ptr"
    and top: "unat ptr + unat sz + 2 ^ 19 + 65536 < 2 ^ 64"
  shows "\<exists>start end. 2 ^ 19 dvd addr_nat start \<and> unat ptr \<le> addr_nat start \<and>
      addr_nat start < unat ptr + 2 ^ 19 \<and> addr_nat end = addr_nat start + unat sz \<and>
      space_fields p I mmap sz = Inr \<lparr>sp_start = start, sp_end = end,
        sp_alloc_map = \<lparr>am_start = start, am_end = end,
          am_cells = replicate (unat sz div 8) 0, am_layout = unat sz div 8\<rparr>,
        sp_trace_map = \<lparr>tm_map = \<lparr>sm_offset = as_usize start,
          sm_addresses = replicate ((unat sz + 7) div 8) 0\<rparr>, tm_mark_state = 0\<rparr>,
        sp_line_mark_table = \<lparr>lt_space_start = start,
          lt_cells = replicate (unat sz div 256) Free, lt_len = unat sz div 256\<rparr>,
        sp_total_blocks = 0, sp_mmap = (ptr, sz + SPACE_ALIGN),
        sp_usable_blocks = inj_new I, sp_used_blocks = inj_new I\<rparr>"
proof -
  have align: "SPACE_ALIGN = 2 ^ 19" by (simp add: SPACE_ALIGN_def push_bit_eq_mult)
  have al: "unat SPACE_ALIGN = 2 ^ 19" by (simp add: align)
  have "addr_nat (from_ptr ptr) + 2 ^ 19 < 2 ^ 64" using top by (simp add: from_ptr_def)
  from align_up_ok [OF _ this, of p] obtain start where start:
    "align_up p (from_ptr ptr) SPACE_ALIGN = Inr start" "2 ^ 19 dvd addr_nat start"
    "unat ptr \<le> addr_nat start" "addr_nat start < unat ptr + 2 ^ 19"
    by (auto simp: align from_ptr_def)
  have "addr_nat start + unat sz < 2 ^ 64" using top start(4) by simp
  from addr_plus_ok [OF this, of p] obtain "end" where "end":
    "addr_plus p start sz = Inr end" "addr_nat end = addr_nat start + unat sz" by blast
  have le: "start \<le> end" using "end"(2) by (simp add: address_le_iff)
  have len: "usize_add p sz SPACE_ALIGN = Inr (sz + SPACE_ALIGN)"
    using top by (intro usize_add_ok) (simp add: al)
  have tm: "tm_new p (as_usize start) (as_usize end) = Inr \<lparr>tm_map = \<lparr>sm_offset = as_usize start,
      sm_addresses = replicate ((unat sz + 7) div 8) 0\<rparr>, tm_mark_state = 0\<rparr>"
    using le "end"(2) top
    by (simp add: tm_new_def sm_new_def address_order sm_new_of_ok map_replicate_const)
  have "unat sz div 8 * 1 < 2 ^ 63" using top by simp
  then have am: "am_new p 1 0 start end = Inr \<lparr>am_start = start, am_end = end,
      am_cells = replicate (unat sz div 8) 0, am_layout = unat sz div 8\<rparr>"
    using am_new_ok [OF le, of 1 p 0] "end"(2) by simp
  show ?thesis
    using start "end" am
    by - (rule exI [of _ start], rule exI [of _ "end"],
      simp add: space_fields_def len mmap lt_new_ok [OF le] tm)
qed

lemma space_new_ok:
  assumes laws: "injector_laws I c r"
    and mmap: "mmap (sz + SPACE_ALIGN) = Some ptr"
    and top: "unat ptr + unat sz + 2 ^ 19 + 65536 < 2 ^ 64"
  shows "\<exists>s. space_new p I mmap sz = Some (Inr s) \<and> space_ok c [] s \<and>
    space_size s = unat sz \<and> unat ptr \<le> addr_nat (sp_start s) \<and>
    addr_nat (sp_end s) < unat ptr + unat sz + 2 ^ 19 \<and>
    c (sp_usable_blocks s) = map (nth_block (sp_start s)) [0..<unat sz div 65536] \<and>
    c (sp_used_blocks s) = [] \<and> sp_cells s = replicate (unat sz div 256) Free \<and>
    am_cells (sp_alloc_map s) = replicate (unat sz div 8) 0 \<and>
    sp_trace_map s = \<lparr>tm_map = \<lparr>sm_offset = as_usize (sp_start s),
      sm_addresses = replicate ((unat sz + 7) div 8) 0\<rparr>, tm_mark_state = 0\<rparr>"
proof -
  from space_fields_ok [where I = I and p = p and mmap = mmap and sz = sz and ptr = ptr, OF mmap top] obtain start "end" where f:
    "2 ^ 19 dvd addr_nat start" "unat ptr \<le> addr_nat start" "addr_nat start < unat ptr + 2 ^ 19"
    "addr_nat end = addr_nat start + unat sz"
    "space_fields p I mmap sz = Inr \<lparr>sp_start = start, sp_end = end,
        sp_alloc_map = \<lparr>am_start = start, am_end = end,
          am_cells = replicate (unat sz div 8) 0, am_layout = unat sz div 8\<rparr>,
        sp_trace_map = \<lparr>tm_map = \<lparr>sm_offset = as_usize start,
          sm_addresses = replicate ((unat sz + 7) div 8) 0\<rparr>, tm_mark_state = 0\<rparr>,
        sp_line_mark_table = \<lparr>lt_space_start = start,
          lt_cells = replicate (unat sz div 256) Free, lt_len = unat sz div 256\<rparr>,
        sp_total_blocks = 0, sp_mmap = (ptr, sz + SPACE_ALIGN),
        sp_usable_blocks = inj_new I, sp_used_blocks = inj_new I\<rparr>"
    (is "_ = Inr ?s0") by blast
  define n where "n = unat sz div 65536"
  have n: "65536 * n \<le> unat sz" "unat sz < 65536 * Suc n" by (simp_all add: n_def)
  have lines: "256 * n \<le> unat sz div 256" using div_le_mono [OF n(1), of 256] by simp
  have top': "addr_nat end + 65536 < 2 ^ 64" using f(3,4) top by simp
  have "nth_block start 0 = \<lparr>ib_id = 0, ib_state = Usable, ib_start = start,
      ib_lines = \<lparr>sl_ptr = 0, sl_len = 256\<rparr>\<rparr>"
    by (simp add: nth_block_def)
  with init_blocks_loop_ok [OF laws, of n "sp_line_mark_table ?s0" "end" start 0 p "inj_new I"]
    n lines f(4) top' injector_new [OF laws]
  obtain q where q: "init_blocks_loop p I (sp_line_mark_table ?s0) end 0 start 0 (inj_new I) =
      Some (Inr (n, q))" "c q = map (nth_block start) [0..<n]"
    by auto
  define s where "s = ?s0\<lparr>sp_usable_blocks := q, sp_total_blocks := n\<rparr>"
  have new: "space_new p I mmap sz = Some (Inr s)"
    using q by (simp add: space_new_def f(5) init_blocks_def s_def)
  have "tables_ok s"
    using f(1-4) top' by (simp add: s_def tables_ok_def table_ok_def address_le_iff n_def)
  moreover have "map ib_id (map (nth_block start) [0..<n]) = [0..<n]" by (simp add: comp_def)
  ultimately have "space_ok c [] s"
    using q(2) injector_new [OF laws]
    by (auto simp: space_ok_def all_blocks_def s_def block_wf_def comp_def)
  with new show ?thesis
    using f q(2) injector_new [OF laws] by (simp add: s_def n_def)
qed

section \<open>What the sweep computes\<close>

definition block_lines :: "immix_block \<Rightarrow> nat set" where
  "block_lines b = {sl_ptr (ib_lines b) ..< sl_ptr (ib_lines b) + sl_len (ib_lines b)}"

definition has_free :: "line_mark list \<Rightarrow> immix_block \<Rightarrow> bool" where
  "has_free tbl b \<longleftrightarrow> (\<exists>j\<in>block_lines b. \<not> retained (tbl ! j))"

definition unmarked_lines :: "line_mark list \<Rightarrow> immix_block \<Rightarrow> nat" where
  "unmarked_lines tbl b = card {j \<in> block_lines b. \<not> retained (tbl ! j)}"

text \<open>The table after a sweep of the blocks \<open>bs\<close>: their unmarked lines are free.\<close>

definition sweep_cells :: "immix_block list \<Rightarrow> line_mark list \<Rightarrow> line_mark list" where
  "sweep_cells bs tbl =
     write_slots {j. (\<exists>b\<in>set bs. j \<in> block_lines b) \<and> \<not> retained (tbl ! j)} Free tbl"

lemma length_sweep_cells [simp]: "length (sweep_cells bs tbl) = length tbl"
  by (simp add: sweep_cells_def)

lemma nth_sweep_cells:
  "j < length tbl \<Longrightarrow> sweep_cells bs tbl ! j =
     (if (\<exists>b\<in>set bs. j \<in> block_lines b) \<and> \<not> retained (tbl ! j) then Free else tbl ! j)"
  by (simp add: sweep_cells_def)

lemma retained_sweep_cells [simp]:
  "j < length tbl \<Longrightarrow> retained (sweep_cells bs tbl ! j) \<longleftrightarrow> retained (tbl ! j)"
  by (simp add: nth_sweep_cells)

lemma slice_ok_sweep_cells [simp]: "slice_ok sl (sweep_cells bs tbl) \<longleftrightarrow> slice_ok sl tbl"
  by (simp add: slice_ok_def)

lemma block_lines_bound: "slice_ok (ib_lines b) tbl \<Longrightarrow> j \<in> block_lines b \<Longrightarrow> j < length tbl"
  by (auto simp: slice_ok_def block_lines_def)

lemma has_free_sweep_cells:
  "slice_ok (ib_lines b) tbl \<Longrightarrow> has_free (sweep_cells bs tbl) b \<longleftrightarrow> has_free tbl b"
  by (auto simp: has_free_def block_lines_bound)

lemma unmarked_sweep_cells:
  "slice_ok (ib_lines b) tbl \<Longrightarrow> unmarked_lines (sweep_cells bs tbl) b = unmarked_lines tbl b"
  unfolding unmarked_lines_def by (rule arg_cong [where f = card]) (auto simp: block_lines_bound)

lemma sweep_cells_Cons: "sweep_cells bs (sweep_cells [b] tbl) = sweep_cells (b # bs) tbl"
  by (rule nth_equalityI) (auto simp: nth_sweep_cells)

definition free_from :: "line_mark_slice \<Rightarrow> line_mark list \<Rightarrow> nat \<Rightarrow> nat set" where
  "free_from sl tbl i = {k. i \<le> k \<and> k < sl_len sl \<and> \<not> retained (slice_line sl tbl k)}"

lemma finite_free_from [simp]: "finite (free_from sl tbl i)"
  by (rule finite_subset [of _ "{..<sl_len sl}"]) (auto simp: free_from_def)

lemma free_from_step:
  assumes "i < sl_len sl"
  shows "free_from sl tbl i =
    (if retained (slice_line sl tbl i) then {} else {i}) \<union> free_from sl tbl (Suc i)"
  using assms by (auto simp: free_from_def Suc_le_eq order.order_iff_strict)

lemma free_from_update: "free_from sl (tbl[sl_ptr sl + i := v]) (Suc i) = free_from sl tbl (Suc i)"
  by (auto simp: free_from_def)

lemma sweep_lines_ok:
  assumes "slice_ok sl tbl"
  shows "sweep_lines p sl tbl i h f =
    Inr (write_slots ((+) (sl_ptr sl) ` free_from sl tbl i) Free tbl,
         h \<or> free_from sl tbl i \<noteq> {}, f + card (free_from sl tbl i))"
  using assms
proof (induction p sl tbl i h f rule: sweep_lines.induct)
  case (1 p sl tbl i h f)
  note unfold = sweep_lines.simps [of p sl tbl i]
  consider (out) "\<not> i < sl_len sl" | (keep) "i < sl_len sl" "retained (slice_line sl tbl i)"
    | (free) "i < sl_len sl" "\<not> retained (slice_line sl tbl i)" by blast
  then show ?case
  proof cases
    case out
    then have "free_from sl tbl i = {}" by (auto simp: free_from_def)
    with out show ?thesis by (simp add: unfold)
  next
    case keep
    then have "free_from sl tbl i = free_from sl tbl (Suc i)" by (simp add: free_from_step)
    moreover have "sweep_lines p sl tbl i h f = sweep_lines p sl tbl (Suc i) h f"
      using keep 1(3) by (auto simp: unfold retained_def)
    ultimately show ?thesis using 1(2) [OF keep(1)] keep 1(3) by (auto simp: retained_def)
  next
    case free
    let ?tbl = "tbl[sl_ptr sl + i := Free]"
    have eq: "sweep_lines p sl tbl i h f = sweep_lines p sl ?tbl (Suc i) True (f + 1)"
      using free 1(3) by (auto simp: unfold retained_def sl_set_ok)
    have IH: "sweep_lines p sl ?tbl (Suc i) True (f + 1) =
        Inr (write_slots ((+) (sl_ptr sl) ` free_from sl ?tbl (Suc i)) Free ?tbl, True,
             f + 1 + card (free_from sl ?tbl (Suc i)))"
      using 1(1) [OF free(1), of "slice_line sl tbl i" "slice_line sl tbl i" ?tbl] free 1(3)
      by (auto simp: retained_def sl_set_ok slice_ok_def)
    have ins: "free_from sl tbl i = insert i (free_from sl tbl (Suc i))"
      and new: "i \<notin> free_from sl tbl (Suc i)"
      using free by (simp_all add: free_from_step) (simp add: free_from_def)
    show ?thesis
      unfolding eq IH free_from_update ins write_slots_update using new by simp
  qed
qed

lemma block_lines_free:
  "(+) (sl_ptr (ib_lines b)) ` free_from (ib_lines b) tbl 0 = {j \<in> block_lines b. \<not> retained (tbl ! j)}"
  by (auto simp: free_from_def block_lines_def image_iff) (metis add_diff_inverse_nat nat_add_left_cancel_less not_less)

lemma sweep_block_ok:
  assumes "slice_ok (ib_lines b) (sw_cells w)"
  shows "sweep_block p I b w = Inr (
    if has_free (sw_cells w) b
    then w\<lparr>sw_cells := sweep_cells [b] (sw_cells w), sw_free_lines := sw_free_lines w + unmarked_lines (sw_cells w) b,
           sw_usable_count := sw_usable_count w + 1,
           sw_usable := inj_push I (sw_usable w) (set_state b Usable)\<rparr>
    else w\<lparr>sw_cells := sweep_cells [b] (sw_cells w), sw_free_lines := sw_free_lines w + unmarked_lines (sw_cells w) b,
           sw_full_count := sw_full_count w + 1, sw_live := set_state b Full # sw_live w\<rparr>)"
proof -
  let ?F = "free_from (ib_lines b) (sw_cells w) 0"
  have "?F \<noteq> {} \<longleftrightarrow> has_free (sw_cells w) b"
    using block_lines_free [of b "sw_cells w"] by (auto simp: has_free_def)
  moreover have "write_slots ((+) (sl_ptr (ib_lines b)) ` ?F) Free (sw_cells w) = sweep_cells [b] (sw_cells w)"
    by (simp add: sweep_cells_def block_lines_free)
  moreover have "card ?F = unmarked_lines (sw_cells w) b"
    using card_image [of "(+) (sl_ptr (ib_lines b))" ?F] by (simp add: unmarked_lines_def block_lines_free)
  ultimately show ?thesis
    using sweep_lines_ok [OF assms, of p 0 False "sw_free_lines w"]
    by (simp add: sweep_block_def Let_def)
qed

text \<open>One turn of the outer loop, the retries taken together.\<close>

lemma sweep_loop_steal:
  assumes laws: "injector_laws I c r"
  shows "\<exists>q. c q = tl (c (sw_used w)) \<and> sweep_loop p I w =
    (if c (sw_used w) = [] then Some (Inr (w\<lparr>sw_used := q\<rparr>))
     else case sweep_block p I (hd (c (sw_used w))) (w\<lparr>sw_used := q\<rparr>) of
            Inl e \<Rightarrow> Some (Inl e) | Inr w' \<Rightarrow> sweep_loop p I w')"
proof (induction "r (sw_used w)" arbitrary: w rule: less_induct)
  case less
  obtain a q where st: "inj_steal I (sw_used w) = (a, q)" by (cases "inj_steal I (sw_used w)")
  note unfold = sweep_loop.simps [of p I w]
  show ?case
  proof (cases a)
    case Empty
    then show ?thesis using st injector_empty [OF laws] by (auto simp: unfold)
  next
    case (Success x)
    with st injector_success [OF laws] have "c (sw_used w) = x # c q" by auto
    with st Success show ?thesis by (intro exI [of _ q]) (simp add: unfold)
  next
    case Retry
    with st injector_retry [OF laws] have q: "c q = c (sw_used w)" "r q < r (sw_used w)" by auto
    moreover have "sweep_loop p I w = sweep_loop p I (w\<lparr>sw_used := q\<rparr>)"
      using st Retry by (simp add: unfold)
    ultimately show ?thesis
      using less [of "w\<lparr>sw_used := q\<rparr>"] by (cases "c (sw_used w) = []") simp_all
  qed
qed

lemma sweep_loop_ok:
  assumes laws: "injector_laws I c r"
    and ok: "\<forall>b\<in>set (c (sw_used w)). slice_ok (ib_lines b) (sw_cells w)"
  shows "\<exists>w'. sweep_loop p I w = Some (Inr w') \<and> c (sw_used w') = [] \<and>
    c (sw_usable w') = c (sw_usable w) @
      map (\<lambda>b. set_state b Usable) (filter (has_free (sw_cells w)) (c (sw_used w))) \<and>
    sw_live w' = rev (map (\<lambda>b. set_state b Full)
      (filter (\<lambda>b. \<not> has_free (sw_cells w) b) (c (sw_used w)))) @ sw_live w \<and>
    sw_cells w' = sweep_cells (c (sw_used w)) (sw_cells w) \<and>
    sw_usable_count w' = sw_usable_count w + length (filter (has_free (sw_cells w)) (c (sw_used w))) \<and>
    sw_full_count w' = sw_full_count w +
      length (filter (\<lambda>b. \<not> has_free (sw_cells w) b) (c (sw_used w))) \<and>
    sw_free_lines w' = sw_free_lines w + (\<Sum>b\<leftarrow>c (sw_used w). unmarked_lines (sw_cells w) b)"
  using ok
proof (induction "c (sw_used w)" arbitrary: w)
  case Nil
  with sweep_loop_steal [OF laws, of w p] show ?case by (auto simp: sweep_cells_def)
next
  case (Cons b bs)
  note used = Cons.hyps(2) [symmetric]
  obtain q where q: "c q = bs" "sweep_loop p I w =
      (case sweep_block p I b (w\<lparr>sw_used := q\<rparr>) of
         Inl e \<Rightarrow> Some (Inl e) | Inr w' \<Rightarrow> sweep_loop p I w')"
    using sweep_loop_steal [OF laws, of w p] by (auto simp: used)
  have ok: "slice_ok (ib_lines b) (sw_cells w)" "\<forall>x\<in>set bs. slice_ok (ib_lines x) (sw_cells w)"
    using Cons.prems by (auto simp: used)
  let ?T = "sweep_cells [b] (sw_cells w)"
  have same: "filter (has_free ?T) bs = filter (has_free (sw_cells w)) bs"
    "filter (\<lambda>x. \<not> has_free ?T x) bs = filter (\<lambda>x. \<not> has_free (sw_cells w) x) bs"
    "map (unmarked_lines ?T) bs = map (unmarked_lines (sw_cells w)) bs"
    using ok(2) by (auto simp: has_free_sweep_cells unmarked_sweep_cells intro!: filter_cong)
  let ?fl = "sw_free_lines w + unmarked_lines (sw_cells w) b"
  have sb: "sweep_block p I b (w\<lparr>sw_used := q\<rparr>) = Inr (
      if has_free (sw_cells w) b
      then w\<lparr>sw_used := q, sw_cells := ?T, sw_free_lines := ?fl,
             sw_usable_count := sw_usable_count w + 1,
             sw_usable := inj_push I (sw_usable w) (set_state b Usable)\<rparr>
      else w\<lparr>sw_used := q, sw_cells := ?T, sw_free_lines := ?fl,
             sw_full_count := sw_full_count w + 1, sw_live := set_state b Full # sw_live w\<rparr>)"
    (is "_ = Inr ?w1")
    using sweep_block_ok [of b "w\<lparr>sw_used := q\<rparr>" p I] ok(1)
    by (cases "has_free (sw_cells w) b") auto
  define w1 where "w1 = ?w1"
  have w1: "sw_used w1 = q" "sw_cells w1 = ?T"
    "c (sw_usable w1) = c (sw_usable w) @ (if has_free (sw_cells w) b then [set_state b Usable] else [])"
    "sw_live w1 = (if has_free (sw_cells w) b then [] else [set_state b Full]) @ sw_live w"
    "sw_usable_count w1 = sw_usable_count w + (if has_free (sw_cells w) b then 1 else 0)"
    "sw_full_count w1 = sw_full_count w + (if has_free (sw_cells w) b then 0 else 1)" "sw_free_lines w1 = ?fl"
    by (simp_all add: w1_def injector_push [OF laws])
  have "\<forall>x\<in>set (c (sw_used w1)). slice_ok (ib_lines x) (sw_cells w1)"
    unfolding w1 q(1) using ok(2) by simp
  with Cons.hyps(1) [of w1] q(1) obtain w' where w': "sweep_loop p I w1 = Some (Inr w')"
    "c (sw_used w') = []"
    "c (sw_usable w') = c (sw_usable w1) @ map (\<lambda>b. set_state b Usable) (filter (has_free ?T) bs)"
    "sw_live w' = rev (map (\<lambda>b. set_state b Full) (filter (\<lambda>b. \<not> has_free ?T b) bs)) @ sw_live w1"
    "sw_cells w' = sweep_cells bs ?T"
    "sw_usable_count w' = sw_usable_count w1 + length (filter (has_free ?T) bs)"
    "sw_full_count w' = sw_full_count w1 + length (filter (\<lambda>b. \<not> has_free ?T b) bs)"
    "sw_free_lines w' = sw_free_lines w1 + (\<Sum>b\<leftarrow>bs. unmarked_lines ?T b)"
    unfolding w1 by blast
  have "sweep_loop p I w = Some (Inr w')"
    unfolding q(2) sb w1_def [symmetric] by (simp add: w'(1))
  then show ?case
    by (intro exI [of _ w'] conjI)
      (simp_all add: used w'(2-) w1(3-) same sweep_cells_Cons)
qed

lemma foldl_push: "injector_laws I c r \<Longrightarrow> c (foldl (inj_push I) q xs) = c q @ xs"
  by (induction xs arbitrary: q) (auto simp: injector_push)

text \<open>The whole sweep, as a function of the contents of the queues.\<close>

definition full_blocks :: "('q \<Rightarrow> immix_block list) \<Rightarrow> 'q immix_space \<Rightarrow> immix_block list" where
  "full_blocks c s = filter (\<lambda>b. \<not> has_free (sp_cells s) b) (c (sp_used_blocks s))"

definition freed_blocks :: "('q \<Rightarrow> immix_block list) \<Rightarrow> 'q immix_space \<Rightarrow> immix_block list" where
  "freed_blocks c s = filter (has_free (sp_cells s)) (c (sp_used_blocks s))"

text \<open>What the sweep reports.\<close>

definition space_report :: "profile \<Rightarrow> ('q \<Rightarrow> immix_block list) \<Rightarrow> 'q immix_space \<Rightarrow> string list" where
  "space_report p c s = sweep_report p (sp_total_blocks s) (\<Sum>b\<leftarrow>c (sp_used_blocks s). unmarked_lines (sp_cells s) b)
     (length (freed_blocks c s)) (length (full_blocks c s))"

lemma sweep_report_256: "sweep_report p blocks free usable full = (if p = Debug
    then [''free lines    = '' @ dec_str free @ '' of '' @ dec_str (blocks * 256) @ '' total'',
          ''usable blocks = '' @ dec_str usable, ''full blocks   = '' @ dec_str full]
    else [])"
  by (simp add: sweep_report_def LINES_IN_BLOCK_def LOG_BYTES_IN_BLOCK_def LOG_BYTES_IN_LINE_def)

lemma sweep_ok:
  assumes laws: "injector_laws I c r"
    and ok: "\<forall>b\<in>set (c (sp_used_blocks s)). slice_ok (ib_lines b) (sp_cells s)"
  shows "\<exists>s'. sweep p I s =
      Some (if length (full_blocks c s) = sp_total_blocks s
            then Inl (Panic ''Out of memory in Immix Space'')
            else if p = Debug \<and> length (c (sp_used_blocks s)) \<noteq> sp_total_blocks s
            then Inl (DebugAssert ''full_blocks + usable_blocks == self.total_blocks'')
            else Inr (s', space_report p c s)) \<and>
    c (sp_usable_blocks s') =
      c (sp_usable_blocks s) @ map (\<lambda>b. set_state b Usable) (freed_blocks c s) \<and>
    c (sp_used_blocks s') = rev (map (\<lambda>b. set_state b Full) (full_blocks c s)) \<and>
    sp_cells s' = sweep_cells (c (sp_used_blocks s)) (sp_cells s) \<and>
    s' = s\<lparr>sp_used_blocks := sp_used_blocks s', sp_usable_blocks := sp_usable_blocks s',
           sp_line_mark_table := (sp_line_mark_table s)\<lparr>lt_cells := sp_cells s'\<rparr>\<rparr>"
proof -
  let ?w = "\<lparr>sw_used = sp_used_blocks s, sw_usable = sp_usable_blocks s, sw_live = [],
    sw_cells = sp_cells s, sw_free_lines = 0, sw_usable_count = 0, sw_full_count = 0\<rparr>"
  obtain w' where w': "sweep_loop p I ?w = Some (Inr w')" "c (sw_used w') = []"
    "c (sw_usable w') = c (sp_usable_blocks s) @ map (\<lambda>b. set_state b Usable) (freed_blocks c s)"
    "sw_live w' = rev (map (\<lambda>b. set_state b Full) (full_blocks c s))"
    "sw_cells w' = sweep_cells (c (sp_used_blocks s)) (sp_cells s)"
    "sw_usable_count w' = length (freed_blocks c s)" "sw_full_count w' = length (full_blocks c s)"
    "sw_free_lines w' = (\<Sum>b\<leftarrow>c (sp_used_blocks s). unmarked_lines (sp_cells s) b)"
    using sweep_loop_ok [OF laws, of ?w p] ok by (auto simp: full_blocks_def freed_blocks_def)
  define s' where "s' = s\<lparr>sp_used_blocks := foldl (inj_push I) (sw_used w') (sw_live w'),
    sp_usable_blocks := sw_usable w',
    sp_line_mark_table := (sp_line_mark_table s)\<lparr>lt_cells := sw_cells w'\<rparr>\<rparr>"
  have count: "length (full_blocks c s) + length (freed_blocks c s) = length (c (sp_used_blocks s))"
    by (simp add: full_blocks_def freed_blocks_def sum_length_filter_compl add.commute)
  have "sweep p I s = Some (sweep_finish p I s w')"
    by (simp add: sweep_def w'(1))
  also have "sweep_finish p I s w' =
      (if length (full_blocks c s) = sp_total_blocks s
       then Inl (Panic ''Out of memory in Immix Space'')
       else if p = Debug \<and> length (c (sp_used_blocks s)) \<noteq> sp_total_blocks s
       then Inl (DebugAssert ''full_blocks + usable_blocks == self.total_blocks'')
       else Inr (s', space_report p c s))"
    by (simp add: sweep_finish_def Let_def w' count s'_def space_report_def debug_assert_def guard_res_def)
  finally show ?thesis
    using w' foldl_push [OF laws, of "sw_used w'" "sw_live w'"]
    by (intro exI [of _ s'] conjI) (simp_all add: s'_def)
qed

section \<open>The operations keep the invariant\<close>

lemma space_ok_slices:
  "space_ok c held s \<Longrightarrow> b \<in> set (all_blocks c held s) \<Longrightarrow> slice_ok (ib_lines b) (sp_cells s)"
  by (simp add: space_ok_def block_wf_slice_ok)

lemma block_wf_cong:
  "sp_start s' = sp_start s \<Longrightarrow> sp_total_blocks s' = sp_total_blocks s \<Longrightarrow>
     block_wf s' b \<longleftrightarrow> block_wf s b"
  by (simp add: block_wf_def)

lemma block_wf_set_state [simp]: "block_wf s (set_state b m) \<longleftrightarrow> block_wf s b"
  by (simp add: block_wf_def)

text \<open>Blocks move without getting lost: one rule for every operation on the queues.\<close>

lemma space_ok_move:
  assumes "space_ok c held s" and "tables_ok s'"
    and "sp_start s' = sp_start s" and "sp_total_blocks s' = sp_total_blocks s"
    and "mset (map ib_id (all_blocks c held' s')) = mset (map ib_id (all_blocks c held s))"
    and "\<forall>b\<in>set (all_blocks c held' s'). block_wf s b"
  shows "space_ok c held' s'"
  using assms unfolding space_ok_def
  by (auto simp: block_wf_cong [of s' s])

lemma tables_ok_queues [simp]:
  "tables_ok (s\<lparr>sp_usable_blocks := q\<rparr>) \<longleftrightarrow> tables_ok s"
  "tables_ok (s\<lparr>sp_used_blocks := q\<rparr>) \<longleftrightarrow> tables_ok s"
  by (simp_all add: tables_ok_def)

lemma tables_ok_cells:
  "length cs = length (sp_cells s) \<Longrightarrow>
     tables_ok (s\<lparr>sp_line_mark_table := (sp_line_mark_table s)\<lparr>lt_cells := cs\<rparr>\<rparr>) \<longleftrightarrow> tables_ok s"
  by (simp add: tables_ok_def table_ok_def)

lemma space_ok_return_used_block:
  assumes "injector_laws I c r" and "space_ok c (b # held) s"
  shows "space_ok c held (return_used_block I s b)"
  using assms(2)
proof (rule space_ok_move)
  show "tables_ok (return_used_block I s b)"
    using assms(2) by (simp add: return_used_block_def space_ok_def)
  show "\<forall>x\<in>set (all_blocks c held (return_used_block I s b)). block_wf s x"
    using assms by (auto simp: all_blocks_def return_used_block_def injector_push space_ok_def)
qed (use assms(1) in \<open>auto simp: all_blocks_def return_used_block_def injector_push\<close>)

lemma get_next_usable_block_ok:
  assumes laws: "injector_laws I c r"
  shows "\<exists>q. c q = tl (c (sp_usable_blocks s)) \<and> get_next_usable_block I s ms =
    Some (if c (sp_usable_blocks s) = [] then (None, s\<lparr>sp_usable_blocks := q\<rparr>, trigger_gc ms)
          else (Some (hd (c (sp_usable_blocks s))), s\<lparr>sp_usable_blocks := q\<rparr>, ms))"
  using steal_loop_returns [OF laws, of "sp_usable_blocks s"]
  by (auto simp: get_next_usable_block_def Let_def split: if_splits)

lemma space_ok_take:
  assumes "space_ok c held s" and "c (sp_usable_blocks s) = b # bs" and "c q = bs"
  shows "space_ok c (b # held) (s\<lparr>sp_usable_blocks := q\<rparr>)"
  using assms(1)
proof (rule space_ok_move)
  show "\<forall>x\<in>set (all_blocks c (b # held) (s\<lparr>sp_usable_blocks := q\<rparr>)). block_wf s x"
    using assms by (auto simp: all_blocks_def space_ok_def)
qed (use assms in \<open>auto simp: all_blocks_def space_ok_def\<close>)

text \<open>What a sweep that returns has done.\<close>

lemma sweep_result:
  assumes laws: "injector_laws I c r" and ok: "space_ok c held s"
    and sw: "sweep p I s = Some (Inr (s', out))"
  shows "c (sp_usable_blocks s') =
      c (sp_usable_blocks s) @ map (\<lambda>b. set_state b Usable) (freed_blocks c s)"
    and "c (sp_used_blocks s') = rev (map (\<lambda>b. set_state b Full) (full_blocks c s))"
    and "sp_cells s' = sweep_cells (c (sp_used_blocks s)) (sp_cells s)"
    and "s' = s\<lparr>sp_used_blocks := sp_used_blocks s', sp_usable_blocks := sp_usable_blocks s',
           sp_line_mark_table := (sp_line_mark_table s)\<lparr>lt_cells := sp_cells s'\<rparr>\<rparr>"
    and "length (full_blocks c s) \<noteq> sp_total_blocks s" and "out = space_report p c s"
    and "p = Debug \<Longrightarrow> length (freed_blocks c s) + length (full_blocks c s) = sp_total_blocks s"
proof -
  have count: "length (freed_blocks c s) + length (full_blocks c s) = length (c (sp_used_blocks s))"
    by (simp add: full_blocks_def freed_blocks_def sum_length_filter_compl)
  have "\<forall>b\<in>set (c (sp_used_blocks s)). slice_ok (ib_lines b) (sp_cells s)"
    using space_ok_slices [OF ok] by (simp add: all_blocks_def)
  from sweep_ok [OF laws this, of p] sw count show
    "c (sp_usable_blocks s') =
      c (sp_usable_blocks s) @ map (\<lambda>b. set_state b Usable) (freed_blocks c s)"
    "c (sp_used_blocks s') = rev (map (\<lambda>b. set_state b Full) (full_blocks c s))"
    "sp_cells s' = sweep_cells (c (sp_used_blocks s)) (sp_cells s)"
    "s' = s\<lparr>sp_used_blocks := sp_used_blocks s', sp_usable_blocks := sp_usable_blocks s',
           sp_line_mark_table := (sp_line_mark_table s)\<lparr>lt_cells := sp_cells s'\<rparr>\<rparr>"
    "length (full_blocks c s) \<noteq> sp_total_blocks s" "out = space_report p c s"
    "p = Debug \<Longrightarrow> length (freed_blocks c s) + length (full_blocks c s) = sp_total_blocks s"
    by (auto split: if_splits)
qed

lemma space_ok_sweep:
  assumes laws: "injector_laws I c r" and ok: "space_ok c held s"
    and sw: "sweep p I s = Some (Inr (s', out))"
  shows "space_ok c held s'"
  using ok
proof (rule space_ok_move)
  note s' = sweep_result [OF laws ok sw]
  let ?cells = "\<lambda>x. x\<lparr>sp_line_mark_table := (sp_line_mark_table x)\<lparr>lt_cells := sp_cells s'\<rparr>\<rparr>"
  have "tables_ok (?cells (s\<lparr>sp_used_blocks := sp_used_blocks s', sp_usable_blocks := sp_usable_blocks s'\<rparr>))"
    using ok s'(3) by (subst tables_ok_cells) (simp_all add: space_ok_def)
  then show "tables_ok s'" by (subst s'(4)) simp
  show "sp_start s' = sp_start s" "sp_total_blocks s' = sp_total_blocks s"
    by (subst s'(4), simp)+
  have "mset (map ib_id (freed_blocks c s)) + mset (map ib_id (full_blocks c s)) =
      mset (map ib_id (c (sp_used_blocks s)))"
    unfolding freed_blocks_def full_blocks_def
    by (simp add: mset_filter image_mset_union [symmetric] multiset_partition [symmetric])
  then show "mset (map ib_id (all_blocks c held s')) = mset (map ib_id (all_blocks c held s))"
    by (simp add: all_blocks_def s'(1,2) comp_def rev_map [symmetric] add.assoc [symmetric])
  show "\<forall>b\<in>set (all_blocks c held s'). block_wf s b"
    using ok by (auto simp: all_blocks_def space_ok_def s'(1,2) freed_blocks_def full_blocks_def)
qed

text \<open>With an unmarked line in a used block there is room, and the sweep finds it.\<close>

lemma space_ok_used_le: "space_ok c held s \<Longrightarrow> length (c (sp_used_blocks s)) \<le> sp_total_blocks s"
proof -
  assume "space_ok c held s"
  then have "size (mset (map ib_id (all_blocks c held s))) = size (mset [0..<sp_total_blocks s])"
    by (simp add: space_ok_def)
  then show ?thesis by (simp add: all_blocks_def)
qed

lemma sweep_succeeds:
  assumes laws: "injector_laws I c r" and ok: "space_ok c held s"
    and all: "p = Release \<or> length (c (sp_used_blocks s)) = sp_total_blocks s"
    and b: "b \<in> set (c (sp_used_blocks s))" and j: "j \<in> block_lines b" "\<not> retained (sp_cells s ! j)"
  shows "\<exists>s' out. sweep p I s = Some (Inr (s', out)) \<and> sp_cells s' ! j = Free \<and>
    set_state b Usable \<in> set (c (sp_usable_blocks s'))"
proof -
  have sl: "\<forall>x\<in>set (c (sp_used_blocks s)). slice_ok (ib_lines x) (sp_cells s)"
    using space_ok_slices [OF ok] by (simp add: all_blocks_def)
  have free: "has_free (sp_cells s) b" using j by (auto simp: has_free_def)
  then have "length (full_blocks c s) < length (c (sp_used_blocks s))"
    unfolding full_blocks_def using b by (intro length_filter_less) auto
  then have "length (full_blocks c s) \<noteq> sp_total_blocks s" using space_ok_used_le [OF ok] by simp
  with sweep_ok [OF laws sl, of p] all obtain s' out where sw: "sweep p I s = Some (Inr (s', out))" by auto
  note s' = sweep_result [OF laws ok sw]
  have "j < length (sp_cells s)" using block_lines_bound [OF _ j(1)] sl b by blast
  then have "sp_cells s' ! j = Free" using b j by (auto simp: s'(3) nth_sweep_cells)
  moreover have "set_state b Usable \<in> set (c (sp_usable_blocks s'))"
    using b free by (simp add: s'(1) freed_blocks_def)
  ultimately show ?thesis using sw by blast
qed

end
