(* ===== verification/Immix_Mutator.thy ===== *)
theory Immix_Mutator
  imports Immix_Space
begin

unbundle bit_operations_syntax

text \<open>
  \<open>src/src/heap/immix/immix_mutator.rs\<close>: the thread-local allocator. A mutator bumps a cursor
  through the hole between \<open>cursor\<close> and \<open>limit\<close>; when an object does not fit it looks for the
  next run of free lines in its block, and when the block has none it exchanges the block
  for another one of the space, yielding to the collector when asked to.

  The module calls \<open>gc::sync_barrier\<close>, which calls back into the mutator. The barrier is the
  argument \<open>slow\<close> of the operations here; what the allocator relies on is the locale
  \<open>gc_barrier\<close>, interpreted with the collector's own barrier where that is defined.
\<close>

section \<open>State\<close>

record mutator_local =
  ml_id :: index
  ml_space_start :: address
  ml_cursor :: address
  ml_limit :: address
  ml_line :: nat
  ml_block :: "immix_block option"

text \<open>
  The rest of the program's state: the space, the registered mutators, the memory (one word
  per 8-byte aligned address), and the statics of \<open>gc/mod.rs\<close>: \<open>CONTROLLER\<close>, the counter
  under \<open>STW_COND\<close>, \<open>ROOTS\<close> and \<open>GC_COUNT\<close>. \<open>wd_printed\<close> holds the lines that the sweeps have
  printed so far (in the dev profile); what a program prints itself is part of its result, and
  the standard output is an interleaving of the two.
\<close>

record 'q world =
  wd_space :: "'q immix_space"
  wd_registry :: registry
  wd_mem :: "usize \<Rightarrow> usize"
  wd_controller :: int
  wd_stw_count :: usize
  wd_roots :: "object_reference list"
  wd_gc_count :: usize
  wd_printed :: "string list"

record layout =
  ly_size :: usize
  ly_align :: usize

type_synonym 'q step = "mutator_local \<Rightarrow> 'q world \<Rightarrow> (mutator_local \<times> 'q world) res option"

abbreviation wd_cells :: "'q world \<Rightarrow> line_mark list" where
  "wd_cells w \<equiv> sp_cells (wd_space w)"

text \<open>What only a collection changes.\<close>

abbreviation gc_log :: "'q world \<Rightarrow> usize \<times> string list" where
  "gc_log w \<equiv> (wd_gc_count w, wd_printed w)"

definition with_cells :: "'q world \<Rightarrow> line_mark list \<Rightarrow> 'q world" where
  "with_cells w tbl = w\<lparr>wd_space := (wd_space w)\<lparr>sp_line_mark_table :=
     (sp_line_mark_table (wd_space w))\<lparr>lt_cells := tbl\<rparr>\<rparr>\<rparr>"

section \<open>Operations\<close>

definition reset :: "mutator_local \<Rightarrow> mutator_local" where
  "reset self = self\<lparr>ml_cursor := null_address, ml_limit := null_address,
     ml_line := LINES_IN_BLOCK, ml_block := None\<rparr>"

text \<open>\<open>idx\<close> is the index the arena hands out.\<close>

definition mutator_new :: "index \<Rightarrow> 'q world \<Rightarrow> mutator_local \<times> 'q world" where
  "mutator_new idx w =
     (\<lparr>ml_id = idx, ml_space_start = sp_start (wd_space w), ml_cursor = null_address,
       ml_limit = null_address, ml_line = LINES_IN_BLOCK, ml_block = None\<rparr>,
      w\<lparr>wd_registry := register (wd_registry w) idx mg_new\<rparr>)"

definition return_block :: "'q block_queue \<Rightarrow> mutator_local \<Rightarrow> 'q world \<Rightarrow> mutator_local \<times> 'q world" where
  "return_block I self w =
     (case ml_block self of
        None \<Rightarrow> (self, w)
      | Some b \<Rightarrow> (self\<lparr>ml_block := None\<rparr>,
                   w\<lparr>wd_space := return_used_block I (wd_space w) b\<rparr>))"

definition prepare_for_gc :: "'q block_queue \<Rightarrow> mutator_local \<Rightarrow> 'q world \<Rightarrow> mutator_local \<times> 'q world" where
  "prepare_for_gc I self w = return_block I self w"

definition destroy :: "'q block_queue \<Rightarrow> mutator_local \<Rightarrow> 'q world \<Rightarrow> mutator_local \<times> 'q world" where
  "destroy I self w =
     (let (self', w') = return_block I self w
      in (self', w'\<lparr>wd_registry := unregister (wd_registry w') (ml_id self')\<rparr>))"

definition yieldpoint :: "'q step \<Rightarrow> 'q step" where
  "yieldpoint slow self w =
     (if take_yield (rg_globals (wd_registry w) (ml_id self)) then slow self w
      else Some (Inr (self, w)))"

definition request_gc :: "'q step \<Rightarrow> 'q step" where
  "request_gc slow self w =
     yieldpoint slow self (w\<lparr>wd_registry := trigger_gc (wd_registry w)\<rparr>)"

definition init_object :: "profile \<Rightarrow> mutator_local \<Rightarrow> 'q world \<Rightarrow> address \<Rightarrow> u8 \<Rightarrow> 'q world res" where
  "init_object p self w addr encode =
     bind_res (diff p addr (ml_space_start self)) (\<lambda>d.
     let index = unat (d div POINTER_SIZE); cs = am_cells (sp_alloc_map (wd_space w)) in
     if index < length cs
     then Inr (w\<lparr>wd_space := (wd_space w)\<lparr>sp_alloc_map :=
                 (sp_alloc_map (wd_space w))\<lparr>am_cells := cs[index := encode]\<rparr>\<rparr>\<rparr>)
     else Inl (UB ''init_object outside the alloc map''))"

definition init_object_no_inline :: "profile \<Rightarrow> mutator_local \<Rightarrow> 'q world \<Rightarrow> address \<Rightarrow> u8 \<Rightarrow> 'q world res" where
  "init_object_no_inline p self w addr encode = init_object p self w addr encode"

text \<open>\<open>self.block()\<close> unwraps the option.\<close>

definition block_of :: "mutator_local \<Rightarrow> immix_block res" where
  "block_of self = (case ml_block self of None \<Rightarrow> Inl (UnwrapFailed ''None'') | Some b \<Rightarrow> Inr b)"

text \<open>The bump of the fast path: the object's first address and its end.\<close>

definition bump :: "profile \<Rightarrow> mutator_local \<Rightarrow> layout \<Rightarrow> (address \<times> address) res" where
  "bump p self ly =
     bind_res (align_up p (ml_cursor self) (ly_align ly)) (\<lambda>start.
     bind_res (addr_plus p start (ly_size ly)) (\<lambda>end. Inr (start, end)))"

text \<open>The branch of \<open>try_alloc_from_local\<close> that opens the hole at \<open>next_available_line\<close>.\<close>

definition open_hole ::
  "profile \<Rightarrow> mutator_local \<Rightarrow> immix_block \<Rightarrow> line_mark list \<Rightarrow> nat \<Rightarrow> (mutator_local \<times> line_mark list) res" where
  "open_hole p self b tbl next_available_line =
     bind_res (block_get_next_unavailable_line p b tbl next_available_line) (\<lambda>end_line.
     bind_res (addr_plus p (ib_start b) (push_bit LOG_BYTES_IN_LINE (of_nat next_available_line))) (\<lambda>cursor.
     bind_res (addr_plus p (ib_start b) (push_bit LOG_BYTES_IN_LINE (of_nat end_line))) (\<lambda>limit.
     bind_res (set_all (sl_set p (ib_lines b)) tbl [next_available_line..<end_line] FreshAlloc) (\<lambda>tbl'.
       Inr (self\<lparr>ml_cursor := cursor, ml_limit := limit, ml_line := end_line\<rparr>, tbl')))))"

definition next_hole :: "profile \<Rightarrow> mutator_local \<Rightarrow> line_mark list \<Rightarrow> (mutator_local \<times> line_mark list) option res" where
  "next_hole p self tbl =
     (if ml_line self < LINES_IN_BLOCK then
        bind_res (block_of self) (\<lambda>b.
        bind_res (block_get_next_available_line p b tbl (ml_line self)) (\<lambda>opt.
        case opt of
          None \<Rightarrow> Inr None
        | Some next_available_line \<Rightarrow>
            bind_res (open_hole p self b tbl next_available_line) (\<lambda>r. Inr (Some r))))
      else Inr None)"

definition take_block :: "mutator_local \<Rightarrow> immix_block \<Rightarrow> mutator_local" where
  "take_block self b = self\<lparr>ml_block := Some b, ml_cursor := ib_start b, ml_limit := ib_start b,
     ml_line := 0\<rparr>"

text \<open>\<open>self.space.get_next_usable_block()\<close> on the shared state.\<close>

definition fetch_block :: "'q block_queue \<Rightarrow> 'q world \<Rightarrow> (immix_block option \<times> 'q world) option" where
  "fetch_block I w =
     map_option (\<lambda>(b, sp, rg). (b, w\<lparr>wd_space := sp, wd_registry := rg\<rparr>))
       (get_next_usable_block I (wd_space w) (wd_registry w))"

text \<open>
  The allocation functions call each other; \<open>None\<close> is running out of fuel, one unit per
  hole or block tried. How much fuel is enough is proved below.
\<close>

function (sequential) alloc :: "nat \<Rightarrow> profile \<Rightarrow> 'q block_queue \<Rightarrow> 'q step \<Rightarrow> layout \<Rightarrow> mutator_local \<Rightarrow> 'q world
      \<Rightarrow> (address \<times> mutator_local \<times> 'q world) res option"
  and try_alloc_from_local :: "nat \<Rightarrow> profile \<Rightarrow> 'q block_queue \<Rightarrow> 'q step \<Rightarrow> layout \<Rightarrow> mutator_local \<Rightarrow> 'q world
      \<Rightarrow> (address \<times> mutator_local \<times> 'q world) res option"
  and alloc_from_global :: "nat \<Rightarrow> profile \<Rightarrow> 'q block_queue \<Rightarrow> 'q step \<Rightarrow> layout \<Rightarrow> mutator_local \<Rightarrow> 'q world
      \<Rightarrow> (address \<times> mutator_local \<times> 'q world) res option"
  and alloc_from_global_loop :: "nat \<Rightarrow> profile \<Rightarrow> 'q block_queue \<Rightarrow> 'q step \<Rightarrow> layout \<Rightarrow> mutator_local \<Rightarrow> 'q world
      \<Rightarrow> (address \<times> mutator_local \<times> 'q world) res option"
where
  "alloc fuel p I slow ly self w =
     bind_ro (Some (bump p self ly)) (\<lambda>r.
       if snd r \<le> ml_limit self then Some (Inr (fst r, self\<lparr>ml_cursor := snd r\<rparr>, w))
       else try_alloc_from_local fuel p I slow ly self w)"
| "try_alloc_from_local 0 p I slow ly self w = None"
| "try_alloc_from_local (Suc fuel) p I slow ly self w =
     bind_ro (Some (next_hole p self (wd_cells w))) (\<lambda>opt.
       case opt of
         Some hole \<Rightarrow> alloc fuel p I slow ly (fst hole) (with_cells w (snd hole))
       | None \<Rightarrow> alloc_from_global fuel p I slow ly self w)"
| "alloc_from_global fuel p I slow ly self w =
     alloc_from_global_loop fuel p I slow ly (fst (return_block I self w)) (snd (return_block I self w))"
| "alloc_from_global_loop 0 p I slow ly self w = None"
| "alloc_from_global_loop (Suc fuel) p I slow ly self w =
     bind_ro (yieldpoint slow self w) (\<lambda>y.
     bind_ro (map_option Inr (fetch_block I (snd y))) (\<lambda>g.
       case fst g of
         Some b \<Rightarrow> alloc fuel p I slow ly (take_block (fst y) b) (snd g)
       | None \<Rightarrow> alloc_from_global_loop fuel p I slow ly (fst y) (snd g)))"
  by pat_completeness auto
termination
  by (relation "measure (\<lambda>x. case x of
        Inl (Inl a) \<Rightarrow> 4 * fst a + 1 | Inl (Inr a) \<Rightarrow> 4 * fst a
      | Inr (Inl a) \<Rightarrow> 4 * fst a + 1 | Inr (Inr a) \<Rightarrow> 4 * fst a)") auto

declare alloc.simps [simp del] alloc_from_global.simps [simp del]

section \<open>Invariant of a mutator\<close>

text \<open>
  Without a block the hole is empty at the null address. With a block, \<open>limit\<close> is the start
  of line \<open>line\<close> of the block, and every line the hole reaches into has been claimed as
  \<open>FreshAlloc\<close>.
\<close>

definition mut_ok :: "'q immix_space \<Rightarrow> mutator_local \<Rightarrow> bool" where
  "mut_ok s m \<longleftrightarrow> ml_space_start m = sp_start s \<and>
     (case ml_block m of
        None \<Rightarrow> ml_cursor m = null_address \<and> ml_limit m = null_address \<and> ml_line m = 256
      | Some b \<Rightarrow> block_wf s b \<and> ml_line m \<le> 256 \<and>
          addr_nat (ml_limit m) = addr_nat (ib_start b) + 256 * ml_line m \<and>
          ib_start b \<le> ml_cursor m \<and> ml_cursor m \<le> ml_limit m \<and>
          (\<forall>k<ml_line m. addr_nat (ml_cursor m) - addr_nat (ib_start b) < 256 * Suc k \<longrightarrow>
             slice_line (ib_lines b) (sp_cells s) k = FreshAlloc))"

definition held_by :: "mutator_local \<Rightarrow> immix_block list" where
  "held_by m = (case ml_block m of None \<Rightarrow> [] | Some b \<Rightarrow> [b])"

text \<open>The blocks are accounted for, those held by the other mutators included.\<close>

definition pool_ok :: "('q \<Rightarrow> immix_block list) \<Rightarrow> mutator_local \<Rightarrow> 'q world \<Rightarrow> bool" where
  "pool_ok c m w \<longleftrightarrow> (\<exists>others. space_ok c (held_by m @ others) (wd_space w))"

text \<open>User space addresses lie in the lower half of the address range.\<close>

definition user_space :: "'q immix_space \<Rightarrow> bool" where
  "user_space s \<longleftrightarrow> addr_nat (sp_end s) < 2 ^ 63"

definition layout_ok :: "layout \<Rightarrow> bool" where
  "layout_ok ly \<longleftrightarrow> (\<exists>k<64. ly_align ly = 2 ^ k) \<and> unat (ly_size ly) + unat (ly_align ly) \<le> 2 ^ 63"

text \<open>What every step keeps: the geometry, and the lines the collector has retained.\<close>

definition heap_frame :: "'q world \<Rightarrow> 'q world \<Rightarrow> bool" where
  "heap_frame w w' \<longleftrightarrow>
     sp_start (wd_space w') = sp_start (wd_space w) \<and> sp_end (wd_space w') = sp_end (wd_space w) \<and>
     sp_total_blocks (wd_space w') = sp_total_blocks (wd_space w) \<and>
     length (wd_cells w') = length (wd_cells w) \<and>
     (\<forall>j<length (wd_cells w). retained (wd_cells w ! j) \<longrightarrow> retained (wd_cells w' ! j))"

lemma heap_frame_refl [simp]: "heap_frame w w"
  by (simp add: heap_frame_def)

lemma heap_frame_trans: "heap_frame w w1 \<Longrightarrow> heap_frame w1 w2 \<Longrightarrow> heap_frame w w2"
  by (simp add: heap_frame_def)

lemma user_space_frame: "heap_frame w w' \<Longrightarrow> user_space (wd_space w') \<longleftrightarrow> user_space (wd_space w)"
  by (simp add: heap_frame_def user_space_def)

lemma pool_ok_tables: "pool_ok c m w \<Longrightarrow> tables_ok (wd_space w)"
  by (auto simp: pool_ok_def space_ok_def)

lemma with_cells_sel [simp]:
  "wd_cells (with_cells w tbl) = tbl"
  "sp_start (wd_space (with_cells w tbl)) = sp_start (wd_space w)"
  "sp_end (wd_space (with_cells w tbl)) = sp_end (wd_space w)"
  "sp_total_blocks (wd_space (with_cells w tbl)) = sp_total_blocks (wd_space w)"
  "sp_usable_blocks (wd_space (with_cells w tbl)) = sp_usable_blocks (wd_space w)"
  "sp_used_blocks (wd_space (with_cells w tbl)) = sp_used_blocks (wd_space w)"
  "wd_registry (with_cells w tbl) = wd_registry w"
  by (simp_all add: with_cells_def)

lemma space_ok_with_cells:
  "length tbl = length (wd_cells w) \<Longrightarrow>
     space_ok c held (wd_space (with_cells w tbl)) \<longleftrightarrow> space_ok c held (wd_space w)"
  unfolding space_ok_def all_blocks_def
  by (simp add: with_cells_def tables_ok_cells block_wf_def)

section \<open>Geometry of a block\<close>

lemma block_start_nat:
  assumes "tables_ok s" and "block_wf s b"
  shows "addr_nat (ib_start b) = addr_nat (sp_start s) + 65536 * ib_id b"
    and "addr_nat (ib_start b) + 65536 \<le> addr_nat (sp_end s)"
proof -
  have "Suc (ib_id b) \<le> space_size s div 65536"
    using assms by (simp add: block_wf_def tables_ok_def)
  then have "65536 * Suc (ib_id b) \<le> space_size s"
    by (metis le_trans mult.commute mult_le_mono2 times_div_less_eq_dividend)
  moreover have "addr_nat (sp_start s) \<le> addr_nat (sp_end s)" "addr_nat (sp_end s) < 2 ^ 64"
    using assms(1) by (simp_all add: tables_ok_def address_le_iff)
  ultimately have le: "addr_nat (sp_start s) + 65536 * Suc (ib_id b) \<le> addr_nat (sp_end s)"
    by linarith
  then have "addr_nat (sp_start s) + 65536 * ib_id b < 2 ^ 64"
    by (intro le_less_trans [OF _ \<open>addr_nat (sp_end s) < 2 ^ 64\<close>]) simp
  then show eq: "addr_nat (ib_start b) = addr_nat (sp_start s) + 65536 * ib_id b"
    using assms(2) nth_block_start by (simp add: block_wf_def)
  show "addr_nat (ib_start b) + 65536 \<le> addr_nat (sp_end s)" using le eq by simp
qed

lemma block_start_aligned:
  assumes "tables_ok s" and "block_wf s b"
  shows "256 dvd addr_nat (ib_start b)"
proof -
  have "(256 :: nat) dvd 2 ^ 19" "2 ^ 19 dvd addr_nat (sp_start s)"
    using assms(1) by (simp_all add: tables_ok_def)
  then have "256 dvd addr_nat (sp_start s)" by (rule dvd_trans)
  moreover have "256 dvd 65536 * ib_id b" by (rule dvd_mult2) simp
  ultimately show ?thesis by (simp add: block_start_nat [OF assms])
qed

text \<open>The mark of the line that holds a byte of the block, found from its address.\<close>

lemma byte_line:
  assumes "tables_ok s" and "block_wf s b"
  shows "(addr_nat (ib_start b) + n - addr_nat (sp_start s)) div 256 = sl_ptr (ib_lines b) + n div 256"
proof -
  have "(65536 * ib_id b + n) div 256 = (n + 256 * (256 * ib_id b)) div 256"
    by (simp add: add.commute)
  also have "\<dots> = 256 * ib_id b + n div 256" by (subst div_mult_self2) simp_all
  finally have "(65536 * ib_id b + n) div 256 = 256 * ib_id b + n div 256" .
  moreover have "sl_ptr (ib_lines b) = 256 * ib_id b" using assms(2) by (simp add: block_wf_def)
  ultimately show ?thesis
    unfolding block_start_nat(1) [OF assms] by (simp add: add.assoc)
qed

section \<open>The bump\<close>

lemma bump_ok:
  assumes align: "ly_align ly = 2 ^ k" "k < 64"
    and small: "unat (ly_size ly) + unat (ly_align ly) \<le> 2 ^ 63"
    and low: "addr_nat (ml_cursor m) < 2 ^ 63"
  shows "\<exists>start end. bump p m ly = Inr (start, end) \<and> 2 ^ k dvd addr_nat start \<and>
    addr_nat (ml_cursor m) \<le> addr_nat start \<and> addr_nat start < addr_nat (ml_cursor m) + 2 ^ k \<and>
    addr_nat end = addr_nat start + unat (ly_size ly)"
proof -
  have k: "unat (ly_align ly) = 2 ^ k" using align by (simp add: unat_exp_64)
  have "addr_nat (ml_cursor m) + 2 ^ k < 2 ^ 64" using small low k by simp
  from align_up_ok [OF align(2) this, of p] obtain start where start:
    "align_up p (ml_cursor m) (ly_align ly) = Inr start" "2 ^ k dvd addr_nat start"
    "addr_nat (ml_cursor m) \<le> addr_nat start" "addr_nat start < addr_nat (ml_cursor m) + 2 ^ k"
    using align(1) by auto
  have "addr_nat start + unat (ly_size ly) < 2 ^ 64" using small low k start(4) by simp
  from addr_plus_ok [OF this, of p] start show ?thesis by (auto simp: bump_def)
qed

section \<open>Opening a hole\<close>

lemma unat_line_offset:
  "n \<le> 256 \<Longrightarrow> unat (push_bit LOG_BYTES_IN_LINE (of_nat n :: usize)) = 256 * n"
  by (simp add: LOG_BYTES_IN_LINE_def push_bit_eq_mult unat_word_ariths unat_of_nat)

lemma block_line_addr:
  assumes "tables_ok s" and "block_wf s b" and "n \<le> 256"
  shows "\<exists>a. addr_plus p (ib_start b) (push_bit LOG_BYTES_IN_LINE (of_nat n)) = Inr a \<and>
    addr_nat a = addr_nat (ib_start b) + 256 * n"
proof -
  have "addr_nat (ib_start b) + 65536 \<le> addr_nat (sp_end s)"
    by (rule block_start_nat(2) [OF assms(1,2)])
  moreover have "addr_nat (sp_end s) + 65536 < 2 ^ 64" using assms(1) by (simp add: tables_ok_def)
  moreover have "256 * n \<le> 65536" using assms(3) by simp
  ultimately have "addr_nat (ib_start b) + 256 * n < 2 ^ 64" by linarith
  then show ?thesis
    using addr_plus_ok [of "ib_start b" "push_bit LOG_BYTES_IN_LINE (of_nat n)" p]
      unat_line_offset [OF assms(3)] by simp
qed

lemma claim_lines_ok:
  assumes "slice_ok sl tbl" and "e \<le> sl_len sl"
  shows "set_all (sl_set p sl) tbl [n..<e] FreshAlloc =
    Inr (write_slots {sl_ptr sl + k |k. n \<le> k \<and> k < e} FreshAlloc tbl)"
proof -
  have slots: "\<forall>k\<in>set [n..<e]. sl_slot sl tbl k = Some (sl_ptr sl + k)"
    using assms by (auto simp: sl_slot_def slice_ok_def)
  then have "{i. \<exists>k\<in>set [n..<e]. sl_slot sl tbl k = Some i} = {sl_ptr sl + k |k. n \<le> k \<and> k < e}"
    by auto
  with sl.set_all_slots [of "[n..<e]" sl tbl p FreshAlloc] slots show ?thesis by auto
qed

lemma open_hole_ok:
  assumes tb: "tables_ok s" and b: "block_wf s b" and n: "n < 256"
    and free: "slice_line (ib_lines b) (sp_cells s) n = Free"
  shows "\<exists>e m' tbl'. open_hole p m b (sp_cells s) n = Inr (m', tbl') \<and> n < e \<and> e \<le> 256 \<and>
    m' = m\<lparr>ml_cursor := ml_cursor m', ml_limit := ml_limit m', ml_line := e\<rparr> \<and>
    addr_nat (ml_cursor m') = addr_nat (ib_start b) + 256 * n \<and>
    addr_nat (ml_limit m') = addr_nat (ib_start b) + 256 * e \<and>
    tbl' = write_slots {sl_ptr (ib_lines b) + k |k. n \<le> k \<and> k < e} FreshAlloc (sp_cells s) \<and>
    (\<forall>k. n \<le> k \<and> k < e \<longrightarrow> slice_line (ib_lines b) (sp_cells s) k = Free)"
proof -
  have ok: "slice_ok (ib_lines b) (sp_cells s)" and len: "sl_len (ib_lines b) = 256"
    using block_wf_slice_ok [OF tb b] b by (simp_all add: block_wf_def)
  from next_unavailable_spec [OF ok, of n p] n len obtain e where e:
    "get_next_unavailable_line p (ib_lines b) (sp_cells s) n = Inr e" "n \<le> e" "e \<le> 256"
    "\<forall>k. n \<le> k \<and> k < e \<longrightarrow> slice_line (ib_lines b) (sp_cells s) k = Free"
    "e < 256 \<longrightarrow> slice_line (ib_lines b) (sp_cells s) e \<noteq> Free" by auto
  have ne: "n < e" using e(2,5) n free by (cases "n = e") auto
  obtain cur lim where cur:
    "addr_plus p (ib_start b) (push_bit LOG_BYTES_IN_LINE (of_nat n)) = Inr cur"
    "addr_nat cur = addr_nat (ib_start b) + 256 * n"
    and lim: "addr_plus p (ib_start b) (push_bit LOG_BYTES_IN_LINE (of_nat e)) = Inr lim"
    "addr_nat lim = addr_nat (ib_start b) + 256 * e"
    using block_line_addr [OF tb b, of n p] block_line_addr [OF tb b e(3), of p] n by auto
  show ?thesis
    using ne e(3,4) cur lim claim_lines_ok [OF ok, of e p n] len
    by (intro exI [of _ e]) (auto simp: open_hole_def block_get_next_unavailable_line_def e(1))
qed

section \<open>Where an object is placed\<close>

text \<open>
  The object lies in the mutator's block, at its alignment, right below the new cursor, and every line
  it touches is a line this mutator has claimed.
\<close>

definition placed :: "'q world \<Rightarrow> layout \<Rightarrow> address \<Rightarrow> mutator_local \<Rightarrow> bool" where
  "placed w ly a m \<longleftrightarrow>
     unat (ly_align ly) dvd addr_nat a \<and>
     addr_nat (ml_cursor m) = addr_nat a + unat (ly_size ly) \<and>
     (\<exists>b. ml_block m = Some b \<and> ib_start b \<le> a) \<and>
     sp_start (wd_space w) \<le> a \<and> addr_nat a + unat (ly_size ly) \<le> addr_nat (sp_end (wd_space w)) \<and>
     (\<forall>x. addr_nat a \<le> x \<and> x < addr_nat a + unat (ly_size ly) \<longrightarrow>
        wd_cells w ! ((x - addr_nat (sp_start (wd_space w))) div 256) = FreshAlloc)"

text \<open>Between two tables, lines only went from free to claimed.\<close>

definition only_claims :: "line_mark list \<Rightarrow> line_mark list \<Rightarrow> bool" where
  "only_claims cs cs' \<longleftrightarrow> length cs' = length cs \<and>
     (\<forall>j<length cs. cs' ! j = cs ! j \<or> cs ! j = Free \<and> cs' ! j = FreshAlloc)"

lemma only_claims_refl [simp]: "only_claims cs cs"
  by (simp add: only_claims_def)

lemma only_claims_trans: "only_claims a b \<Longrightarrow> only_claims b d \<Longrightarrow> only_claims a d"
  unfolding only_claims_def by (metis line_mark.distinct(1))

definition alloc_good :: "('q \<Rightarrow> immix_block list) \<Rightarrow> layout \<Rightarrow> 'q world \<Rightarrow> address \<times> mutator_local \<times> 'q world \<Rightarrow> bool" where
  "alloc_good c ly w res = (case res of (a, m', w') \<Rightarrow>
     mut_ok (wd_space w') m' \<and> pool_ok c m' w' \<and> heap_frame w w' \<and> placed w' ly a m')"

lemma fast_path_placed:
  assumes tb: "tables_ok (wd_space w)" and m: "mut_ok (wd_space w) m"
    and size: "0 < unat (ly_size ly)" and align: "unat (ly_align ly) dvd addr_nat start"
    and ge: "addr_nat (ml_cursor m) \<le> addr_nat start"
    and "end": "addr_nat end = addr_nat start + unat (ly_size ly)" and lim: "end \<le> ml_limit m"
  shows "mut_ok (wd_space w) (m\<lparr>ml_cursor := end\<rparr>) \<and> placed w ly start (m\<lparr>ml_cursor := end\<rparr>)"
proof (cases "ml_block m")
  case None
  then have "addr_nat end \<le> 0" using m lim by (simp add: mut_ok_def address_le_iff null_address_def)
  then show ?thesis using "end" size by simp
next
  case (Some b)
  let ?B = "addr_nat (ib_start b)"
  have b: "block_wf (wd_space w) b" "ml_line m \<le> 256"
    "addr_nat (ml_limit m) = ?B + 256 * ml_line m" "?B \<le> addr_nat (ml_cursor m)"
    "\<forall>k<ml_line m. addr_nat (ml_cursor m) - ?B < 256 * Suc k \<longrightarrow>
       slice_line (ib_lines b) (wd_cells w) k = FreshAlloc"
    using m Some by (auto simp: mut_ok_def address_le_iff)
  note end_le = lim [unfolded address_le_iff b(3)]
  have fresh: "wd_cells w ! ((x - addr_nat (sp_start (wd_space w))) div 256) = FreshAlloc"
    if x: "addr_nat start \<le> x" "x < addr_nat start + unat (ly_size ly)" for x
  proof -
    define n where "n = x - ?B"
    have xn: "x = ?B + n" using x(1) ge b(4) by (simp add: n_def)
    then have "n < ml_line m * 256" using x(2) "end" end_le by simp
    then have "n div 256 < ml_line m" by (rule less_mult_imp_div_less)
    moreover have "addr_nat (ml_cursor m) - ?B < 256 * Suc (n div 256)"
      using xn x(1) ge by simp
    ultimately show ?thesis using b(5) xn byte_line [OF tb b(1)] by simp
  qed
  have "addr_nat (ml_limit m) \<le> addr_nat (sp_end (wd_space w))"
    using block_start_nat(2) [OF tb b(1)] b(2,3) by simp
  moreover have "addr_nat (sp_start (wd_space w)) \<le> addr_nat start"
    using block_start_nat(1) [OF tb b(1)] b(4) ge by simp
  ultimately have "placed w ly start (m\<lparr>ml_cursor := end\<rparr>)"
    using align "end" fresh lim Some b(4) ge by (auto simp: placed_def address_le_iff)
  moreover have "mut_ok (wd_space w) (m\<lparr>ml_cursor := end\<rparr>)"
    using m Some ge "end" lim by (auto simp: mut_ok_def address_le_iff)
  ultimately show ?thesis by simp
qed

lemma next_hole_ok:
  assumes pool: "pool_ok c m w" and m: "mut_ok (wd_space w) m"
  shows "next_hole p m (wd_cells w) = Inr None \<or>
    (\<exists>m' tbl'. next_hole p m (wd_cells w) = Inr (Some (m', tbl')) \<and>
       pool_ok c m' (with_cells w tbl') \<and> mut_ok (wd_space (with_cells w tbl')) m' \<and>
       heap_frame w (with_cells w tbl') \<and> only_claims (wd_cells w) tbl' \<and>
       (\<forall>x. addr_nat (ml_cursor m') \<le> x \<and> x < addr_nat (ml_limit m') \<longrightarrow>
          (x - addr_nat (sp_start (wd_space w))) div 256 < length (wd_cells w) \<and>
          wd_cells w ! ((x - addr_nat (sp_start (wd_space w))) div 256) = Free) \<and>
       256 dvd addr_nat (ml_cursor m') \<and> addr_nat (ml_cursor m') + 256 \<le> addr_nat (ml_limit m'))"
proof (cases "ml_line m < 256")
  case False
  then show ?thesis by (simp add: next_hole_def)
next
  case True
  then obtain b where b: "ml_block m = Some b" "block_wf (wd_space w) b"
    using m by (cases "ml_block m") (auto simp: mut_ok_def)
  note tb = pool_ok_tables [OF pool]
  have ok: "slice_ok (ib_lines b) (wd_cells w)" "sl_len (ib_lines b) = 256"
    using block_wf_slice_ok [OF tb b(2)] b(2) by (simp_all add: block_wf_def)
  from next_available_spec [OF ok(1), of p "ml_line m"] consider
      (none) "get_next_available_line p (ib_lines b) (wd_cells w) (ml_line m) = Inr None"
    | (some) n where "get_next_available_line p (ib_lines b) (wd_cells w) (ml_line m) = Inr (Some n)"
        "ml_line m \<le> n" "n < 256" "slice_line (ib_lines b) (wd_cells w) n = Free"
    using ok(2) by auto
  then show ?thesis
  proof cases
    case none
    then show ?thesis
      using True b(1) by (simp add: next_hole_def block_of_def block_get_next_available_line_def)
  next
    case some
    from open_hole_ok [OF tb b(2) some(3,4), of p m] obtain e m' tbl' where h:
      "open_hole p m b (wd_cells w) n = Inr (m', tbl')" "n < e" "e \<le> 256"
      "m' = m\<lparr>ml_cursor := ml_cursor m', ml_limit := ml_limit m', ml_line := e\<rparr>"
      "addr_nat (ml_cursor m') = addr_nat (ib_start b) + 256 * n"
      "addr_nat (ml_limit m') = addr_nat (ib_start b) + 256 * e"
      "tbl' = write_slots {sl_ptr (ib_lines b) + k |k. n \<le> k \<and> k < e} FreshAlloc (wd_cells w)"
      "\<forall>k. n \<le> k \<and> k < e \<longrightarrow> slice_line (ib_lines b) (wd_cells w) k = Free" by blast
    have m': "ml_block m' = Some b" "ml_line m' = e" "ml_space_start m' = ml_space_start m"
      by (subst h(4), simp add: b(1))+
    have len: "length tbl' = length (wd_cells w)" using h(7) by simp
    have nh: "next_hole p m (wd_cells w) = Inr (Some (m', tbl'))"
      using True b(1) some(1) h(1)
      by (simp add: next_hole_def block_of_def block_get_next_available_line_def)
    have "pool_ok c m' (with_cells w tbl')"
      using pool m'(1) b(1) by (simp add: pool_ok_def held_by_def space_ok_with_cells [OF len])
    moreover have "heap_frame w (with_cells w tbl')"
      using h(7,8) by (auto simp: heap_frame_def)
    moreover have "slice_line (ib_lines b) tbl' k = FreshAlloc" if "n \<le> k" "k < e" for k
      using that ok h(3) unfolding h(7) by (subst nth_write_slots) (auto simp: slice_ok_def)
    then have "mut_ok (wd_space (with_cells w tbl')) m'"
      using m m' b h(2,3,5,6) by (auto simp: mut_ok_def address_le_iff block_wf_def)
    moreover have "256 dvd addr_nat (ml_cursor m')"
      unfolding h(5) using block_start_aligned [OF tb b(2)] by simp
    moreover have "only_claims (wd_cells w) tbl'"
      using h(7,8) by (auto simp: only_claims_def)
    moreover have "(x - addr_nat (sp_start (wd_space w))) div 256 < length (wd_cells w) \<and>
        wd_cells w ! ((x - addr_nat (sp_start (wd_space w))) div 256) = Free"
      if x: "addr_nat (ml_cursor m') \<le> x" "x < addr_nat (ml_limit m')" for x
    proof -
      define d where "d = x - addr_nat (ib_start b)"
      have d: "x = addr_nat (ib_start b) + d" "256 * n \<le> d" "d < e * 256"
        using x h(5,6) by (simp_all add: d_def)
      then have "n \<le> d div 256" "d div 256 < e"
        using div_le_mono [OF d(2), of 256] less_mult_imp_div_less [OF d(3)] by simp_all
      moreover have "sl_ptr (ib_lines b) + 256 \<le> length (wd_cells w)"
        using ok by (simp add: slice_ok_def)
      ultimately show ?thesis
        using h(3,8) byte_line [OF tb b(2), of d] by (simp add: d(1))
    qed
    ultimately show ?thesis using nh h(2,5,6) by auto
  qed
qed

section \<open>Exchanging the block\<close>

lemma reset_sel [simp]:
  "ml_id (reset m) = ml_id m" "ml_space_start (reset m) = ml_space_start m"
  "ml_block (reset m) = None"
  by (simp_all add: reset_def)

lemma mut_ok_reset: "ml_space_start m = sp_start s \<Longrightarrow> mut_ok s (reset m)"
  by (simp add: mut_ok_def reset_def)

lemma return_block_ok:
  assumes laws: "injector_laws I c r" and pool: "pool_ok c m w"
    and rb: "return_block I m w = (m', w')"
  shows "pool_ok c m' w' \<and> heap_frame w w' \<and> ml_block m' = None \<and>
    ml_id m' = ml_id m \<and> ml_space_start m' = ml_space_start m \<and> wd_registry w' = wd_registry w \<and>
    wd_cells w' = wd_cells w \<and> wd_mem w' = wd_mem w"
proof (cases "ml_block m")
  case None
  then show ?thesis using pool rb by (simp add: return_block_def)
next
  case (Some b)
  from pool obtain others where "space_ok c (b # others) (wd_space w)"
    using Some by (auto simp: pool_ok_def held_by_def)
  from space_ok_return_used_block [OF laws this] show ?thesis
    using Some rb
    by (auto simp: return_block_def pool_ok_def held_by_def heap_frame_def return_used_block_def)
qed

lemma fetch_block_ok:
  assumes laws: "injector_laws I c r" and pool: "pool_ok c m w" and none: "ml_block m = None"
  shows "\<exists>ob w'. fetch_block I w = Some (ob, w') \<and> heap_frame w w' \<and> wd_cells w' = wd_cells w \<and>
    (case ob of
       None \<Rightarrow> pool_ok c m w' \<and> wd_registry w' = trigger_gc (wd_registry w) \<and>
               c (sp_usable_blocks (wd_space w)) = []
     | Some b \<Rightarrow> pool_ok c (take_block m b) w' \<and> wd_registry w' = wd_registry w \<and>
               block_wf (wd_space w') b \<and> c (sp_usable_blocks (wd_space w)) \<noteq> [] \<and>
               hd (c (sp_usable_blocks (wd_space w))) = b)"
proof -
  from pool none obtain others where ok: "space_ok c others (wd_space w)"
    by (auto simp: pool_ok_def held_by_def)
  obtain q where q: "c q = tl (c (sp_usable_blocks (wd_space w)))"
    "get_next_usable_block I (wd_space w) (wd_registry w) =
      Some (if c (sp_usable_blocks (wd_space w)) = []
            then (None, (wd_space w)\<lparr>sp_usable_blocks := q\<rparr>, trigger_gc (wd_registry w))
            else (Some (hd (c (sp_usable_blocks (wd_space w)))),
                  (wd_space w)\<lparr>sp_usable_blocks := q\<rparr>, wd_registry w))"
    using get_next_usable_block_ok [OF laws] by blast
  show ?thesis
  proof (cases "c (sp_usable_blocks (wd_space w))")
    case Nil
    then have "space_ok c others ((wd_space w)\<lparr>sp_usable_blocks := q\<rparr>)"
      using ok q(1) by (simp add: space_ok_def all_blocks_def block_wf_def)
    with Nil q none show ?thesis
      by (auto simp: fetch_block_def pool_ok_def held_by_def heap_frame_def)
  next
    case (Cons b bs)
    then have ok': "space_ok c (b # others) ((wd_space w)\<lparr>sp_usable_blocks := q\<rparr>)"
      using space_ok_take [OF ok Cons] q(1) by simp
    then have "block_wf ((wd_space w)\<lparr>sp_usable_blocks := q\<rparr>) b"
      by (simp add: space_ok_def all_blocks_def)
    with Cons q ok' show ?thesis
      by (auto simp: fetch_block_def pool_ok_def held_by_def heap_frame_def take_block_def)
  qed
qed

lemma mut_ok_take_block:
  assumes "ml_space_start m = sp_start s" and "block_wf s b"
  shows "mut_ok s (take_block m b)"
  using assms by (simp add: mut_ok_def take_block_def)

text \<open>Registering an object touches the alloc map only.\<close>

lemma init_object_space:
  assumes run: "init_object p m w addr encode = Inr w'" and ok: "space_ok c held (wd_space w)"
  shows "space_ok c held (wd_space w') \<and> heap_frame w w' \<and> wd_cells w' = wd_cells w"
proof -
  from run obtain k where "w' = w\<lparr>wd_space := (wd_space w)\<lparr>sp_alloc_map :=
      (sp_alloc_map (wd_space w))\<lparr>am_cells := (am_cells (sp_alloc_map (wd_space w)))[k := encode]\<rparr>\<rparr>\<rparr>"
    by (auto simp: init_object_def Let_def split: if_splits)
  moreover have "tables_ok (s\<lparr>sp_alloc_map := (sp_alloc_map s)\<lparr>am_cells := (am_cells (sp_alloc_map s))[k := encode]\<rparr>\<rparr>) \<longleftrightarrow>
      tables_ok s" for s :: "'a immix_space"
    by (simp add: tables_ok_def)
  moreover have "block_wf (s\<lparr>sp_alloc_map := x\<rparr>) b \<longleftrightarrow> block_wf s b" for s :: "'a immix_space" and x b
    by (simp add: block_wf_def)
  ultimately show ?thesis using ok by (simp add: space_ok_def all_blocks_def heap_frame_def)
qed

section \<open>Preconditions of the allocation functions\<close>

definition alloc_pre :: "('q \<Rightarrow> immix_block list) \<Rightarrow> mutator_local \<Rightarrow> 'q world \<Rightarrow> bool" where
  "alloc_pre c m w \<longleftrightarrow> pool_ok c m w \<and> mut_ok (wd_space w) m \<and> user_space (wd_space w)"

definition loop_pre :: "('q \<Rightarrow> immix_block list) \<Rightarrow> mutator_local \<Rightarrow> 'q world \<Rightarrow> bool" where
  "loop_pre c m w \<longleftrightarrow> pool_ok c m w \<and> ml_block m = None \<and>
     ml_space_start m = sp_start (wd_space w) \<and> user_space (wd_space w)"

text \<open>Whatever the call returns, if it returns a value, is well placed.\<close>

definition good_call :: "('q \<Rightarrow> immix_block list) \<Rightarrow> layout \<Rightarrow> 'q world \<Rightarrow> (address \<times> mutator_local \<times> 'q world) res option \<Rightarrow> bool" where
  "good_call c ly w res \<longleftrightarrow> (\<forall>x. res = Some (Inr x) \<longrightarrow> alloc_good c ly w x)"

section \<open>The contract of the collector's barrier\<close>

text \<open>
  What the allocator relies on when it yields: if the barrier returns, the mutator has been
  reset, every block is accounted for, and no line that was retained has been released.
\<close>

locale gc_barrier = block_queue_spec I c r
  for I :: "'q block_queue" and c :: "'q \<Rightarrow> immix_block list" and r :: "'q \<Rightarrow> nat" +
  fixes slow :: "'q step"
  assumes barrier: "pool_ok c m w \<Longrightarrow> slow m w = Some (Inr (m', w')) \<Longrightarrow>
      m' = reset m \<and> pool_ok c m' w' \<and> heap_frame w w'"
begin

lemma yieldpoint_loop_pre:
  assumes "loop_pre c m w" and "yieldpoint slow m w = Some (Inr (m', w'))"
  shows "loop_pre c m' w' \<and> heap_frame w w'"
proof (cases "take_yield (rg_globals (wd_registry w) (ml_id m))")
  case True
  then have "m' = reset m" "pool_ok c m' w'" "heap_frame w w'"
    using barrier [of m w m' w'] assms by (auto simp: yieldpoint_def loop_pre_def)
  then show ?thesis
    using assms(1) user_space_frame [of w w'] by (auto simp: loop_pre_def heap_frame_def)
next
  case False
  then show ?thesis using assms by (simp add: yieldpoint_def)
qed

lemma cursor_low: "alloc_pre c m w \<Longrightarrow> addr_nat (ml_cursor m) < 2 ^ 63"
proof (cases "ml_block m")
  case (Some b)
  assume pre: "alloc_pre c m w"
  then have b: "block_wf (wd_space w) b" "addr_nat (ml_cursor m) \<le> addr_nat (ib_start b) + 256 * ml_line m"
    "ml_line m \<le> 256"
    using Some by (auto simp: alloc_pre_def mut_ok_def address_le_iff)
  then have "addr_nat (ml_cursor m) \<le> addr_nat (sp_end (wd_space w))"
    using block_start_nat(2) [OF pool_ok_tables b(1), of c m] pre by (auto simp: alloc_pre_def)
  then show ?thesis using pre by (auto simp: alloc_pre_def user_space_def)
qed (auto simp: alloc_pre_def mut_ok_def null_address_def)

text \<open>
  Partial correctness of the four functions together, by induction on the fuel: whatever
  they return is placed in lines the mutator owns.
\<close>

lemma good_call_frame:
  "heap_frame w w1 \<Longrightarrow> good_call c ly w1 res \<Longrightarrow> good_call c ly w res"
  by (auto simp: good_call_def alloc_good_def intro: heap_frame_trans)

lemma alloc_good_if_try:
  assumes ly: "layout_ok ly" "0 < unat (ly_size ly)" and pre: "alloc_pre c m w"
    and try_ok: "good_call c ly w (try_alloc_from_local fuel p I slow ly m w)"
  shows "good_call c ly w (alloc fuel p I slow ly m w)"
proof -
  from ly(1) obtain k where k: "k < 64" "ly_align ly = 2 ^ k" by (auto simp: layout_ok_def)
  then have uk: "unat (ly_align ly) = 2 ^ k" by (simp add: unat_exp_64)
  from bump_ok [OF k(2,1) _ cursor_low [OF pre], of p] ly(1) obtain start "end" where bump:
    "bump p m ly = Inr (start, end)" "2 ^ k dvd addr_nat start"
    "addr_nat (ml_cursor m) \<le> addr_nat start" "addr_nat end = addr_nat start + unat (ly_size ly)"
    by (auto simp: layout_ok_def)
  show ?thesis
  proof (cases "end \<le> ml_limit m")
    case True
    have pool: "pool_ok c m w" and m: "mut_ok (wd_space w) m"
      using pre by (simp_all add: alloc_pre_def)
    from fast_path_placed [OF pool_ok_tables [OF pool] m ly(2) _ bump(3,4) True] uk bump(2)
    have "mut_ok (wd_space w) (m\<lparr>ml_cursor := end\<rparr>) \<and> placed w ly start (m\<lparr>ml_cursor := end\<rparr>)"
      by simp
    moreover have "pool_ok c (m\<lparr>ml_cursor := end\<rparr>) w"
      using pool by (simp add: pool_ok_def held_by_def)
    ultimately show ?thesis
      using True bump(1) by (simp add: alloc.simps good_call_def alloc_good_def)
  next
    case False
    then show ?thesis using bump(1) try_ok by (simp add: alloc.simps)
  qed
qed

lemma global_good_if_loop:
  assumes pre: "alloc_pre c m w"
    and loop_ok: "\<And>m w. loop_pre c m w \<Longrightarrow> good_call c ly w (alloc_from_global_loop fuel p I slow ly m w)"
  shows "good_call c ly w (alloc_from_global fuel p I slow ly m w)"
proof -
  obtain m1 w1 where rb: "return_block I m w = (m1, w1)" by (cases "return_block I m w")
  have pool: "pool_ok c m w" using pre by (simp add: alloc_pre_def)
  note rb_ok = return_block_ok [OF laws pool rb]
  then have frame: "heap_frame w w1" by simp
  have "loop_pre c m1 w1"
    using rb_ok pre user_space_frame [OF frame]
    by (auto simp: loop_pre_def alloc_pre_def mut_ok_def heap_frame_def)
  from good_call_frame [OF frame loop_ok [OF this]] show ?thesis
    by (simp add: alloc_from_global.simps rb)
qed

lemma calls_good:
  assumes ly: "layout_ok ly" "0 < unat (ly_size ly)"
  shows "(\<forall>m w. alloc_pre c m w \<longrightarrow> good_call c ly w (try_alloc_from_local fuel p I slow ly m w)) \<and>
    (\<forall>m w. loop_pre c m w \<longrightarrow> good_call c ly w (alloc_from_global_loop fuel p I slow ly m w))"
proof (induction fuel)
  case 0
  then show ?case by (simp add: good_call_def)
next
  case (Suc fuel)
  then have alloc_ok: "good_call c ly w (alloc fuel p I slow ly m w)" if "alloc_pre c m w" for m w
    using alloc_good_if_try [OF ly that] that by blast
  have global_ok: "good_call c ly w (alloc_from_global fuel p I slow ly m w)" if "alloc_pre c m w" for m w
    using global_good_if_loop [OF that] Suc by blast
  have "good_call c ly w (try_alloc_from_local (Suc fuel) p I slow ly m w)" if pre: "alloc_pre c m w" for m w
  proof -
    have pool: "pool_ok c m w" and m: "mut_ok (wd_space w) m"
      using pre by (simp_all add: alloc_pre_def)
    from next_hole_ok [OF pool m, of p] show ?thesis
    proof (elim disjE exE conjE)
      assume "next_hole p m (wd_cells w) = Inr None"
      then show ?thesis using global_ok [OF pre] by simp
    next
      fix m' tbl'
      assume nh: "next_hole p m (wd_cells w) = Inr (Some (m', tbl'))"
        and h: "pool_ok c m' (with_cells w tbl')" "mut_ok (wd_space (with_cells w tbl')) m'"
          "heap_frame w (with_cells w tbl')"
      then have "alloc_pre c m' (with_cells w tbl')"
        using pre user_space_frame [OF h(3)] by (simp add: alloc_pre_def)
      from good_call_frame [OF h(3) alloc_ok [OF this]] nh show ?thesis by simp
    qed
  qed
  moreover have "good_call c ly w (alloc_from_global_loop (Suc fuel) p I slow ly m w)"
    if pre: "loop_pre c m w" for m w
  proof (cases "\<exists>m1 w1. yieldpoint slow m w = Some (Inr (m1, w1))")
    case False
    then have "alloc_from_global_loop (Suc fuel) p I slow ly m w \<noteq> Some (Inr x)" for x by auto
    then show ?thesis unfolding good_call_def by blast
  next
    case True
    then obtain m1 w1 where y: "yieldpoint slow m w = Some (Inr (m1, w1))" by blast
    from yieldpoint_loop_pre [OF pre y] have l1: "loop_pre c m1 w1" "heap_frame w w1" by auto
    then have pool: "pool_ok c m1 w1" and none: "ml_block m1 = None" by (auto simp: loop_pre_def)
    from fetch_block_ok [OF laws pool none] obtain ob w2 where f:
      "fetch_block I w1 = Some (ob, w2)" "heap_frame w1 w2"
      "case ob of None \<Rightarrow> pool_ok c m1 w2 | Some b \<Rightarrow>
         pool_ok c (take_block m1 b) w2 \<and> block_wf (wd_space w2) b"
      by (auto split: option.splits)
    have us: "user_space (wd_space w2)" "ml_space_start m1 = sp_start (wd_space w2)"
      using l1(1) f(2) user_space_frame [OF f(2)] by (auto simp: loop_pre_def heap_frame_def)
    show ?thesis
    proof (cases ob)
      case None
      then have "loop_pre c m1 w2" using f(3) none us by (simp add: loop_pre_def)
      with Suc have "good_call c ly w2 (alloc_from_global_loop fuel p I slow ly m1 w2)" by blast
      from good_call_frame [OF l1(2) good_call_frame [OF f(2) this]] show ?thesis
        by (simp add: y f(1) None)
    next
      case (Some b)
      then have "alloc_pre c (take_block m1 b) w2"
        using f(3) us mut_ok_take_block [of m1 "wd_space w2" b] by (simp add: alloc_pre_def)
      from good_call_frame [OF l1(2) good_call_frame [OF f(2) alloc_ok [OF this]]] show ?thesis
        by (simp add: y f(1) Some)
    qed
  qed
  ultimately show ?case by blast
qed

lemma alloc_placed:
  assumes "layout_ok ly" and "0 < unat (ly_size ly)" and "alloc_pre c m w"
    and "alloc fuel p I slow ly m w = Some (Inr (a, m', w'))"
  shows "alloc_good c ly w (a, m', w')"
  using alloc_good_if_try [OF assms(1-3)] calls_good [OF assms(1,2)] assms(3,4)
  unfolding good_call_def by blast

end

section \<open>Allocation that does not enter the barrier\<close>

text \<open>
  With a barrier that never returns, an allocation that returns did so without a collection.
  What it returns it returns with every other barrier too.
\<close>

definition no_barrier :: "'q step" where
  "no_barrier m w = None"

sublocale block_queue_spec \<subseteq> quiet: gc_barrier I c r no_barrier
  by unfold_locales (simp add: no_barrier_def)

lemma yieldpoint_no_barrier:
  "yieldpoint no_barrier m w = (if take_yield (rg_globals (wd_registry w) (ml_id m)) then None
     else Some (Inr (m, w)))"
  by (simp add: yieldpoint_def no_barrier_def)

lemma alloc_mono_if_try:
  assumes "\<And>m w x. try_alloc_from_local fuel p I no_barrier ly m w = Some x \<Longrightarrow>
      try_alloc_from_local fuel p I slow ly m w = Some x"
    and "alloc fuel p I no_barrier ly m w = Some x"
  shows "alloc fuel p I slow ly m w = Some x"
  using assms(2) assms(1) [of m w x]
  by (cases "bump p m ly") (simp_all add: alloc.simps split: if_splits)

lemma quiet_calls_mono:
  "(\<forall>m w x. try_alloc_from_local fuel p I no_barrier ly m w = Some x \<longrightarrow>
      try_alloc_from_local fuel p I slow ly m w = Some x) \<and>
   (\<forall>m w x. alloc_from_global_loop fuel p I no_barrier ly m w = Some x \<longrightarrow>
      alloc_from_global_loop fuel p I slow ly m w = Some x)"
proof (induction fuel)
  case (Suc fuel)
  then have alloc: "alloc fuel p I slow ly m w = Some x"
    if "alloc fuel p I no_barrier ly m w = Some x" for m w x
    using alloc_mono_if_try [OF _ that] by blast
  have "try_alloc_from_local (Suc fuel) p I slow ly m w = Some x"
    if run: "try_alloc_from_local (Suc fuel) p I no_barrier ly m w = Some x" for m w x
  proof (cases "next_hole p m (wd_cells w)")
    case (Inr opt)
    then show ?thesis
      using run alloc Suc by (cases opt) (simp_all add: alloc_from_global.simps)
  qed (use run in simp)
  moreover have "alloc_from_global_loop (Suc fuel) p I slow ly m w = Some x"
    if run: "alloc_from_global_loop (Suc fuel) p I no_barrier ly m w = Some x" for m w x
  proof (cases "take_yield (rg_globals (wd_registry w) (ml_id m))")
    case False
    then have y: "yieldpoint slow m w = Some (Inr (m, w))" "yieldpoint no_barrier m w = Some (Inr (m, w))"
      by (simp_all add: yieldpoint_def)
    with run obtain g where g: "fetch_block I w = Some g"
      by (cases "fetch_block I w") simp_all
    show ?thesis using run alloc Suc y g by (cases "fst g") simp_all
  qed (use run in \<open>simp add: yieldpoint_no_barrier\<close>)
  ultimately show ?case by blast
qed simp

lemma alloc_quiet_mono:
  "alloc fuel p I no_barrier ly m w = Some x \<Longrightarrow> alloc fuel p I slow ly m w = Some x"
  using alloc_mono_if_try quiet_calls_mono by blast

text \<open>Without a collection an allocation touches neither the memory nor the objects' bytes.\<close>

definition keeps_data :: "'q world \<Rightarrow> (address \<times> mutator_local \<times> 'q world) res option \<Rightarrow> bool" where
  "keeps_data w res \<longleftrightarrow> (\<forall>a m' w'. res = Some (Inr (a, m', w')) \<longrightarrow>
     wd_mem w' = wd_mem w \<and> sp_alloc_map (wd_space w') = sp_alloc_map (wd_space w))"

lemma keeps_data_mono:
  "keeps_data w1 res \<Longrightarrow> wd_mem w1 = wd_mem w \<Longrightarrow> sp_alloc_map (wd_space w1) = sp_alloc_map (wd_space w) \<Longrightarrow>
     keeps_data w res"
  by (simp add: keeps_data_def)

lemma alloc_keeps_if_try:
  assumes "\<And>m w. keeps_data w (try_alloc_from_local fuel p I slow ly m w)"
  shows "keeps_data w (alloc fuel p I slow ly m w)"
  using assms [of w m] by (cases "bump p m ly") (auto simp: alloc.simps keeps_data_def)

lemma return_block_data:
  "wd_mem (snd (return_block I m w)) = wd_mem w"
  "sp_alloc_map (wd_space (snd (return_block I m w))) = sp_alloc_map (wd_space w)"
  by (simp_all add: return_block_def return_used_block_def split: option.splits)

lemma fetch_block_data:
  assumes "fetch_block I w = Some g"
  shows "wd_mem (snd g) = wd_mem w" "sp_alloc_map (wd_space (snd g)) = sp_alloc_map (wd_space w)"
  using assms by (auto simp: fetch_block_def get_next_usable_block_def Let_def split: option.splits)

lemma with_cells_data:
  "wd_mem (with_cells w tbl) = wd_mem w" "sp_alloc_map (wd_space (with_cells w tbl)) = sp_alloc_map (wd_space w)"
  by (simp_all add: with_cells_def)

lemma quiet_calls_keep:
  "(\<forall>m w. keeps_data w (try_alloc_from_local fuel p I no_barrier ly m w)) \<and>
   (\<forall>m w. keeps_data w (alloc_from_global_loop fuel p I no_barrier ly m w))"
proof (induction fuel)
  case 0
  then show ?case by (simp add: keeps_data_def)
next
  case (Suc fuel)
  then have alloc: "keeps_data w (alloc fuel p I no_barrier ly m w)" for m w
    using alloc_keeps_if_try by blast
  have "keeps_data w (try_alloc_from_local (Suc fuel) p I no_barrier ly m w)" for m w
  proof (cases "next_hole p m (wd_cells w)")
    case (Inl e)
    then show ?thesis by (simp add: keeps_data_def)
  next
    case (Inr opt)
    have "keeps_data w (alloc_from_global fuel p I no_barrier ly m w)"
      unfolding alloc_from_global.simps by (rule keeps_data_mono [OF _ return_block_data]) (use Suc in blast)
    then show ?thesis
      using Inr keeps_data_mono [OF alloc with_cells_data] by (cases opt) simp_all
  qed
  moreover have "keeps_data w (alloc_from_global_loop (Suc fuel) p I no_barrier ly m w)" for m w
  proof (cases "take_yield (rg_globals (wd_registry w) (ml_id m)) \<or> fetch_block I w = None")
    case True
    then show ?thesis by (auto simp: yieldpoint_no_barrier keeps_data_def)
  next
    case False
    then obtain g where g: "fetch_block I w = Some g" by auto
    show ?thesis
      using keeps_data_mono [OF alloc fetch_block_data [OF g]] keeps_data_mono [OF _ fetch_block_data [OF g]] Suc False g
      by (cases "fst g") (simp_all add: yieldpoint_no_barrier)
  qed
  ultimately show ?case by blast
qed

lemma alloc_quiet_keeps: "keeps_data w (alloc fuel p I no_barrier ly m w)"
  using alloc_keeps_if_try quiet_calls_keep by blast

text \<open>Every byte of the object was free before, or lay in the mutator's hole above its cursor.\<close>

definition byte_fresh :: "mutator_local \<Rightarrow> 'q world \<Rightarrow> nat \<Rightarrow> bool" where
  "byte_fresh m w x \<longleftrightarrow>
     (let l = (x - addr_nat (sp_start (wd_space w))) div 256
      in l < length (wd_cells w) \<and> wd_cells w ! l = Free) \<or>
     addr_nat (ml_cursor m) \<le> x \<and> x < addr_nat (ml_limit m)"

definition fresh_call :: "layout \<Rightarrow> mutator_local \<Rightarrow> 'q world \<Rightarrow> (address \<times> mutator_local \<times> 'q world) res option \<Rightarrow> bool" where
  "fresh_call ly m w res \<longleftrightarrow> (\<forall>a m' w'. res = Some (Inr (a, m', w')) \<longrightarrow>
     only_claims (wd_cells w) (wd_cells w') \<and>
     (\<forall>x. addr_nat a \<le> x \<and> x < addr_nat a + unat (ly_size ly) \<longrightarrow> byte_fresh m w x) \<and>
     (\<forall>x. byte_fresh m' w' x \<longrightarrow> byte_fresh m w x))"

lemma fresh_call_mono:
  assumes "fresh_call ly m1 w1 res" and "only_claims (wd_cells w) (wd_cells w1)"
    and "\<And>x. byte_fresh m1 w1 x \<Longrightarrow> byte_fresh m w x"
  shows "fresh_call ly m w res"
  using assms only_claims_trans [OF assms(2)] unfolding fresh_call_def by blast

lemma byte_fresh_hole:
  assumes claims: "only_claims (wd_cells w) tbl"
    and hole: "\<forall>x. addr_nat (ml_cursor m1) \<le> x \<and> x < addr_nat (ml_limit m1) \<longrightarrow>
        (x - addr_nat (sp_start (wd_space w))) div 256 < length (wd_cells w) \<and>
        wd_cells w ! ((x - addr_nat (sp_start (wd_space w))) div 256) = Free"
    and x: "byte_fresh m1 (with_cells w tbl) x"
  shows "byte_fresh m w x"
proof -
  have "wd_cells w ! j = Free \<and> j < length (wd_cells w)" if "j < length tbl" "tbl ! j = Free" for j
    using that claims by (auto simp: only_claims_def)
  with x hole show ?thesis by (simp add: byte_fresh_def Let_def) blast
qed

lemma byte_fresh_take:
  "wd_cells w1 = wd_cells w \<Longrightarrow> sp_start (wd_space w1) = sp_start (wd_space w) \<Longrightarrow>
     byte_fresh (take_block m1 b) w1 x \<Longrightarrow> byte_fresh m w x"
  by (auto simp: byte_fresh_def take_block_def Let_def)

text \<open>A block with a free line at the head of the usable queue is enough for a small object.\<close>

definition block_ready :: "('q \<Rightarrow> immix_block list) \<Rightarrow> 'q world \<Rightarrow> bool" where
  "block_ready c w \<longleftrightarrow> c (sp_usable_blocks (wd_space w)) \<noteq> [] \<and>
     (\<exists>k<256. slice_line (ib_lines (hd (c (sp_usable_blocks (wd_space w))))) (wd_cells w) k = Free)"

context block_queue_spec
begin

lemma bump_layout:
  assumes "layout_ok ly" and "alloc_pre c m w"
  obtains start "end" where "bump p m ly = Inr (start, end)"
    "unat (ly_align ly) dvd addr_nat start" "addr_nat (ml_cursor m) \<le> addr_nat start"
    "addr_nat start < addr_nat (ml_cursor m) + unat (ly_align ly)"
    "addr_nat end = addr_nat start + unat (ly_size ly)"
proof -
  from assms(1) obtain k where k: "k < 64" "ly_align ly = 2 ^ k" by (auto simp: layout_ok_def)
  then have "unat (ly_align ly) = 2 ^ k" by (simp add: unat_exp_64)
  with bump_ok [OF k(2,1) _ quiet.cursor_low [OF assms(2)], of p] assms(1) that show ?thesis
    by (auto simp: layout_ok_def)
qed

lemma fresh_alloc_if_try:
  assumes ly: "layout_ok ly" and pre: "alloc_pre c m w"
    and try_ok: "fresh_call ly m w (try_alloc_from_local fuel p I slow ly m w)"
  shows "fresh_call ly m w (alloc fuel p I slow ly m w)"
proof -
  obtain start "end" where b: "bump p m ly = Inr (start, end)"
    "addr_nat (ml_cursor m) \<le> addr_nat start" "addr_nat end = addr_nat start + unat (ly_size ly)"
    using bump_layout [OF ly pre, of p] by blast
  show ?thesis
  proof (cases "end \<le> ml_limit m")
    case True
    then show ?thesis
      using b by (auto simp: alloc.simps fresh_call_def byte_fresh_def address_le_iff)
  next
    case False
    then show ?thesis using b(1) try_ok by (simp add: alloc.simps)
  qed
qed

lemma fresh_global_if_loop:
  assumes pre: "alloc_pre c m w"
    and loop_ok: "\<And>m w m0. loop_pre c m w \<Longrightarrow>
      fresh_call ly m0 w (alloc_from_global_loop fuel p I slow ly m w)"
  shows "fresh_call ly m w (alloc_from_global fuel p I slow ly m w)"
proof -
  obtain m1 w1 where rb: "return_block I m w = (m1, w1)" by (cases "return_block I m w")
  have pool: "pool_ok c m w" using pre by (simp add: alloc_pre_def)
  note rb_ok = return_block_ok [OF laws pool rb]
  then have "loop_pre c m1 w1"
    using pre user_space_frame [of w w1]
    by (auto simp: loop_pre_def alloc_pre_def mut_ok_def heap_frame_def)
  from loop_ok [OF this, of m] show ?thesis
    using rb_ok by (simp add: alloc_from_global.simps rb fresh_call_def byte_fresh_def heap_frame_def)
qed

lemma fresh_calls:
  assumes ly: "layout_ok ly"
  shows "(\<forall>m w. alloc_pre c m w \<longrightarrow> fresh_call ly m w (try_alloc_from_local fuel p I no_barrier ly m w)) \<and>
    (\<forall>m w m0. loop_pre c m w \<longrightarrow> fresh_call ly m0 w (alloc_from_global_loop fuel p I no_barrier ly m w))"
proof (induction fuel)
  case 0
  then show ?case by (simp add: fresh_call_def)
next
  case (Suc fuel)
  then have alloc_ok: "fresh_call ly m w (alloc fuel p I no_barrier ly m w)" if "alloc_pre c m w" for m w
    using fresh_alloc_if_try [OF ly that] that by blast
  have global_ok: "fresh_call ly m w (alloc_from_global fuel p I no_barrier ly m w)" if "alloc_pre c m w" for m w
    using fresh_global_if_loop [OF that] Suc by blast
  have "fresh_call ly m w (try_alloc_from_local (Suc fuel) p I no_barrier ly m w)" if pre: "alloc_pre c m w" for m w
  proof -
    have pool: "pool_ok c m w" and m: "mut_ok (wd_space w) m" using pre by (simp_all add: alloc_pre_def)
    from next_hole_ok [OF pool m, of p] show ?thesis
    proof (elim disjE exE conjE)
      assume "next_hole p m (wd_cells w) = Inr None"
      then show ?thesis using global_ok [OF pre] by simp
    next
      fix m1 tbl
      assume nh: "next_hole p m (wd_cells w) = Inr (Some (m1, tbl))"
        and h: "pool_ok c m1 (with_cells w tbl)" "mut_ok (wd_space (with_cells w tbl)) m1"
          "heap_frame w (with_cells w tbl)" "only_claims (wd_cells w) tbl"
        and free: "\<forall>x. addr_nat (ml_cursor m1) \<le> x \<and> x < addr_nat (ml_limit m1) \<longrightarrow>
          (x - addr_nat (sp_start (wd_space w))) div 256 < length (wd_cells w) \<and>
          wd_cells w ! ((x - addr_nat (sp_start (wd_space w))) div 256) = Free"
      have "alloc_pre c m1 (with_cells w tbl)"
        using h pre user_space_frame [OF h(3)] by (simp add: alloc_pre_def)
      from fresh_call_mono [OF alloc_ok [OF this] _ byte_fresh_hole [OF h(4) free]] h(4) nh
      show ?thesis by simp
    qed
  qed
  moreover have "fresh_call ly m0 w (alloc_from_global_loop (Suc fuel) p I no_barrier ly m w)"
    if pre: "loop_pre c m w" for m w m0
  proof (cases "take_yield (rg_globals (wd_registry w) (ml_id m))")
    case True
    then show ?thesis by (simp add: yieldpoint_no_barrier fresh_call_def)
  next
    case False
    then have y: "yieldpoint no_barrier m w = Some (Inr (m, w))" by (simp add: yieldpoint_def)
    have pool: "pool_ok c m w" and none: "ml_block m = None" using pre by (simp_all add: loop_pre_def)
    from fetch_block_ok [OF laws pool none] obtain ob w2 where f:
      "fetch_block I w = Some (ob, w2)" "heap_frame w w2" "wd_cells w2 = wd_cells w"
      "case ob of None \<Rightarrow> pool_ok c m w2 | Some b \<Rightarrow>
         pool_ok c (take_block m b) w2 \<and> block_wf (wd_space w2) b"
      by (auto split: option.splits)
    have us: "user_space (wd_space w2)" "ml_space_start m = sp_start (wd_space w2)"
      "sp_start (wd_space w2) = sp_start (wd_space w)"
      using pre f(2) user_space_frame [OF f(2)] by (auto simp: loop_pre_def heap_frame_def)
    show ?thesis
    proof (cases ob)
      case None
      then have "loop_pre c m w2" using f(4) none us by (simp add: loop_pre_def)
      with Suc have "fresh_call ly m0 w2 (alloc_from_global_loop fuel p I no_barrier ly m w2)" by blast
      then show ?thesis using f(3) us(3) by (simp add: y f(1) None fresh_call_def byte_fresh_def)
    next
      case (Some b)
      then have "alloc_pre c (take_block m b) w2"
        using f(4) us mut_ok_take_block [of m "wd_space w2" b] by (simp add: alloc_pre_def)
      from fresh_call_mono [OF alloc_ok [OF this] _ byte_fresh_take [OF f(3) us(3)]] f(3)
      show ?thesis by (simp add: y f(1) Some)
    qed
  qed
  ultimately show ?case by blast
qed

lemma alloc_fresh:
  assumes "layout_ok ly" and "alloc_pre c m w"
  shows "fresh_call ly m w (alloc fuel p I no_barrier ly m w)"
  using fresh_alloc_if_try [OF assms] fresh_calls [OF assms(1)] assms(2) by blast

text \<open>The bytes of an object are not fresh any more.\<close>

lemma object_not_fresh:
  assumes "alloc_good c ly w (a, m', w')" and "addr_nat a \<le> x" "x < addr_nat a + unat (ly_size ly)"
  shows "\<not> byte_fresh m' w' x"
  using assms by (auto simp: alloc_good_def placed_def byte_fresh_def Let_def)

text \<open>Two objects allocated one after the other do not overlap.\<close>

lemma allocs_disjoint:
  assumes ly: "layout_ok ly1" "layout_ok ly2" "0 < unat (ly_size ly1)" and pre: "alloc_pre c m w"
    and first: "alloc fuel p I no_barrier ly1 m w = Some (Inr (a1, m1, w1))"
    and second: "alloc fuel p I no_barrier ly2 m1 w1 = Some (Inr (a2, m2, w2))"
  shows "addr_nat a1 + unat (ly_size ly1) \<le> addr_nat a2 \<or> addr_nat a2 + unat (ly_size ly2) \<le> addr_nat a1 \<or>
    unat (ly_size ly2) = 0"
proof (rule ccontr)
  assume overlap: "\<not> ?thesis"
  have good: "alloc_good c ly1 w (a1, m1, w1)" by (rule quiet.alloc_placed [OF ly(1,3) pre first])
  then have pre1: "alloc_pre c m1 w1"
    using pre user_space_frame [of w w1] by (simp add: alloc_pre_def alloc_good_def)
  define x where "x = max (addr_nat a1) (addr_nat a2)"
  have x: "addr_nat a1 \<le> x" "x < addr_nat a1 + unat (ly_size ly1)"
    "addr_nat a2 \<le> x" "x < addr_nat a2 + unat (ly_size ly2)"
    using overlap ly(3) by (auto simp: x_def)
  have "byte_fresh m1 w1 x"
    using alloc_fresh [OF ly(2) pre1, of fuel p] second x(3,4) by (simp add: fresh_call_def)
  then show False using object_not_fresh [OF good x(1,2)] by blast
qed

text \<open>A small object fits into any hole: a hole is a run of whole lines.\<close>

lemma hole_fits:
  assumes ly: "layout_ok ly" "unat (ly_size ly) \<le> 256" "unat (ly_align ly) \<le> 256"
    and pre: "alloc_pre c m w"
    and hole: "256 dvd addr_nat (ml_cursor m)" "addr_nat (ml_cursor m) + 256 \<le> addr_nat (ml_limit m)"
  shows "\<exists>end. alloc fuel p I slow ly m w = Some (Inr (ml_cursor m, m\<lparr>ml_cursor := end\<rparr>, w))"
proof -
  obtain start "end" where b: "bump p m ly = Inr (start, end)"
    "unat (ly_align ly) dvd addr_nat start" "addr_nat (ml_cursor m) \<le> addr_nat start"
    "addr_nat start < addr_nat (ml_cursor m) + unat (ly_align ly)"
    "addr_nat end = addr_nat start + unat (ly_size ly)"
    using bump_layout [OF ly(1) pre, of p] by blast
  from ly(1) obtain k where k: "k < 64" "ly_align ly = 2 ^ k" by (auto simp: layout_ok_def)
  then have ak: "unat (ly_align ly) = 2 ^ k" by (simp add: unat_exp_64)
  then have "(2 :: nat) ^ k \<le> 2 ^ 8" using ly(3) by simp
  then have "k \<le> 8" by (rule power_le_imp_le_exp [rotated]) simp
  then have "(2 :: nat) ^ k dvd 2 ^ 8" by (rule le_imp_power_dvd)
  then have "unat (ly_align ly) dvd addr_nat (ml_cursor m)"
    unfolding ak using hole(1) by (auto intro: dvd_trans)
  then have "unat (ly_align ly) dvd addr_nat start - addr_nat (ml_cursor m)"
    using b(2) by (simp add: dvd_diff_nat)
  then have "addr_nat start = addr_nat (ml_cursor m)"
    using b(3,4) by (metis add.commute less_diff_conv2 diff_is_0_eq' dvd_imp_le le_antisym not_less zero_less_diff linorder_not_less)
  then have "start = ml_cursor m" and "end \<le> ml_limit m"
    using b(5) hole(2) ly(2) by (simp_all only: addr_nat_inject address_le_iff)
  then show ?thesis using b(1) by (intro exI [of _ "end"]) (simp add: alloc.simps)
qed

lemma next_hole_of_new_block:
  assumes pool: "pool_ok c (take_block m b) w" and m: "mut_ok (wd_space w) (take_block m b)"
    and free: "\<exists>k<256. slice_line (ib_lines b) (wd_cells w) k = Free"
  shows "next_hole p (take_block m b) (wd_cells w) \<noteq> Inr None"
proof -
  have b: "block_wf (wd_space w) b" using m by (simp add: mut_ok_def take_block_def)
  have ok: "slice_ok (ib_lines b) (wd_cells w)" "sl_len (ib_lines b) = 256"
    using block_wf_slice_ok [OF pool_ok_tables [OF pool] b] b by (simp_all add: block_wf_def)
  from next_available_spec [OF ok(1), of p 0] ok(2) free
  obtain j where "get_next_available_line p (ib_lines b) (wd_cells w) 0 = Inr (Some j)" by auto
  then show ?thesis
    by (cases "open_hole p (take_block m b) b (wd_cells w) j")
      (simp_all add: next_hole_def block_of_def take_block_def block_get_next_available_line_def)
qed

text \<open>What is enough for the first hole found to hold the object.\<close>

lemma alloc_from_hole:
  assumes ly: "layout_ok ly" "unat (ly_size ly) \<le> 256" "unat (ly_align ly) \<le> 256"
    and pre: "alloc_pre c m w" and hole: "next_hole p m (wd_cells w) \<noteq> Inr None"
  shows "\<exists>x. try_alloc_from_local (Suc fuel) p I slow ly m w = Some (Inr x)"
proof -
  have pool: "pool_ok c m w" and m: "mut_ok (wd_space w) m" using pre by (simp_all add: alloc_pre_def)
  from next_hole_ok [OF pool m, of p] hole obtain m1 tbl where
    nh: "next_hole p m (wd_cells w) = Inr (Some (m1, tbl))"
    and h: "pool_ok c m1 (with_cells w tbl)" "mut_ok (wd_space (with_cells w tbl)) m1"
      "heap_frame w (with_cells w tbl)"
      "256 dvd addr_nat (ml_cursor m1)" "addr_nat (ml_cursor m1) + 256 \<le> addr_nat (ml_limit m1)"
    by auto
  have "alloc_pre c m1 (with_cells w tbl)"
    using h pre user_space_frame [OF h(3)] by (simp add: alloc_pre_def)
  from hole_fits [OF ly this h(4,5), of fuel p slow] nh show ?thesis by auto
qed

lemma alloc_returns_if_try:
  assumes "layout_ok ly" and "alloc_pre c m w"
    and "\<exists>x. try_alloc_from_local fuel p I slow ly m w = Some x \<and> P x"
    and "\<And>y. P (Inr y)"
  shows "\<exists>x. alloc fuel p I slow ly m w = Some x \<and> P x"
proof -
  obtain start "end" where b: "bump p m ly = Inr (start, end)"
    using bump_layout [OF assms(1,2), of p] by blast
  with assms(3,4) show ?thesis by (cases "end \<le> ml_limit m") (simp_all add: alloc.simps)
qed

lemma loop_takes_ready_block:
  assumes ly: "layout_ok ly" "unat (ly_size ly) \<le> 256" "unat (ly_align ly) \<le> 256"
    and pre: "loop_pre c m w" and ready: "block_ready c w"
    and y: "yieldpoint slow m0 w0 = Some (Inr (m, w))"
  shows "\<exists>x. alloc_from_global_loop (Suc (Suc fuel)) p I slow ly m0 w0 = Some (Inr x)"
proof -
  have pool: "pool_ok c m w" and none: "ml_block m = None" using pre by (simp_all add: loop_pre_def)
  from fetch_block_ok [OF laws pool none] ready obtain b w2 where f:
    "fetch_block I w = Some (Some b, w2)" "heap_frame w w2" "wd_cells w2 = wd_cells w"
    "pool_ok c (take_block m b) w2" "block_wf (wd_space w2) b" "hd (c (sp_usable_blocks (wd_space w))) = b"
    by (auto simp: block_ready_def split: option.splits)
  have us: "user_space (wd_space w2)" "ml_space_start m = sp_start (wd_space w2)"
    using pre f(2) user_space_frame [OF f(2)] by (auto simp: loop_pre_def heap_frame_def)
  have mut: "mut_ok (wd_space w2) (take_block m b)" by (rule mut_ok_take_block [OF us(2) f(5)])
  then have ap: "alloc_pre c (take_block m b) w2" using f(4) us by (simp add: alloc_pre_def)
  have "next_hole p (take_block m b) (wd_cells w2) \<noteq> Inr None"
    using next_hole_of_new_block [OF f(4) mut] ready f(3,6) by (simp add: block_ready_def)
  from alloc_from_hole [OF ly ap this, of fuel slow]
  have "\<exists>x. try_alloc_from_local (Suc fuel) p I slow ly (take_block m b) w2 = Some x \<and> \<not> isl x" by auto
  from alloc_returns_if_try [OF ly(1) ap this]
  obtain x where x: "alloc (Suc fuel) p I slow ly (take_block m b) w2 = Some x" "\<not> isl x" by auto
  then show ?thesis using y f(1) by (cases x) auto
qed

lemma alloc_quiet_returns:
  assumes ly: "layout_ok ly" "unat (ly_size ly) \<le> 256" "unat (ly_align ly) \<le> 256"
    and pre: "alloc_pre c m w" and ready: "block_ready c w"
    and quiet: "\<not> take_yield (rg_globals (wd_registry w) (ml_id m))"
  shows "\<exists>x. alloc 3 p I no_barrier ly m w = Some (Inr x)"
proof -
  have fuel: "(3 :: nat) = Suc (Suc (Suc 0))" by simp
  have "\<exists>x. try_alloc_from_local 3 p I no_barrier ly m w = Some (Inr x)"
  proof (cases "next_hole p m (wd_cells w) = Inr None")
    case False
    from alloc_from_hole [OF ly pre False] show ?thesis unfolding fuel .
  next
    case True
    obtain m1 w1 where rb: "return_block I m w = (m1, w1)" by (cases "return_block I m w")
    have pool: "pool_ok c m w" using pre by (simp add: alloc_pre_def)
    note rb_ok = return_block_ok [OF laws pool rb]
    then have l1: "loop_pre c m1 w1"
      using pre user_space_frame [of w w1]
      by (auto simp: loop_pre_def alloc_pre_def mut_ok_def heap_frame_def)
    have "sp_usable_blocks (wd_space w1) = sp_usable_blocks (wd_space w)"
      using rb by (auto simp: return_block_def return_used_block_def split: option.splits)
    then have "block_ready c w1" using ready rb_ok by (simp add: block_ready_def)
    moreover have "yieldpoint no_barrier m1 w1 = Some (Inr (m1, w1))"
      using quiet rb_ok by (simp add: yieldpoint_def)
    ultimately show ?thesis
      using loop_takes_ready_block [OF ly l1, of no_barrier m1 w1 0 p] True
      by (simp add: fuel alloc_from_global.simps rb)
  qed
  then have "\<exists>x. try_alloc_from_local 3 p I no_barrier ly m w = Some x \<and> \<not> isl x" by auto
  from alloc_returns_if_try [OF ly(1) pre this] obtain x where
    "alloc 3 p I no_barrier ly m w = Some x" "\<not> isl x" by auto
  then show ?thesis by (cases x) auto
qed

end

section \<open>Allocation returns\<close>

text \<open>
  With collections an allocation returns too, if the barrier does: one that returns leaves a
  block with a free line in the queue, or the space is exhausted and the barrier panics. The
  situation in which the barrier returns is the parameter \<open>calm\<close>.
\<close>

locale gc_supply = gc_barrier I c r slow
  for I :: "'q block_queue" and c :: "'q \<Rightarrow> immix_block list" and r :: "'q \<Rightarrow> nat" and slow :: "'q step" +
  fixes calm :: "mutator_local \<Rightarrow> 'q world \<Rightarrow> bool"
  assumes supplies: "calm m w \<Longrightarrow> loop_pre c m w \<Longrightarrow> take_yield (rg_globals (wd_registry w) (ml_id m)) \<Longrightarrow>
      (\<exists>e. slow m w = Some (Inl e)) \<or> (\<exists>m' w'. slow m w = Some (Inr (m', w')) \<and> block_ready c w')"
    and calm_return: "calm m w \<Longrightarrow> alloc_pre c m w \<Longrightarrow> return_block I m w = (m1, w1) \<Longrightarrow> calm m1 w1"
    and calm_empty: "calm m w \<Longrightarrow> loop_pre c m w \<Longrightarrow> fetch_block I w = Some (None, w1) \<Longrightarrow>
      calm m w1 \<and> take_yield (rg_globals (wd_registry w1) (ml_id m))"
    and calm_ready: "calm m w \<Longrightarrow> loop_pre c m w \<Longrightarrow> c (sp_usable_blocks (wd_space w)) \<noteq> [] \<Longrightarrow>
      block_ready c w"
begin

lemma loop_returns_yielding:
  assumes ly: "layout_ok ly" "unat (ly_size ly) \<le> 256" "unat (ly_align ly) \<le> 256"
    and calm: "calm m w" and pre: "loop_pre c m w"
    and yield: "take_yield (rg_globals (wd_registry w) (ml_id m))"
  shows "\<exists>x. alloc_from_global_loop (Suc (Suc fuel)) p I slow ly m w = Some x"
  using supplies [OF calm pre yield]
proof (elim disjE exE conjE)
  fix e assume "slow m w = Some (Inl e)"
  then show ?thesis using yield by (simp add: yieldpoint_def)
next
  fix m' w' assume "slow m w = Some (Inr (m', w'))" and ready: "block_ready c w'"
  then have y: "yieldpoint slow m w = Some (Inr (m', w'))" using yield by (simp add: yieldpoint_def)
  with yieldpoint_loop_pre [OF pre] have "loop_pre c m' w'" by blast
  from loop_takes_ready_block [OF ly this ready y, of fuel p] show ?thesis by blast
qed

lemma loop_returns:
  assumes ly: "layout_ok ly" "unat (ly_size ly) \<le> 256" "unat (ly_align ly) \<le> 256"
    and calm: "calm m w" and pre: "loop_pre c m w"
  shows "\<exists>x. alloc_from_global_loop (Suc (Suc (Suc fuel))) p I slow ly m w = Some x"
proof (cases "take_yield (rg_globals (wd_registry w) (ml_id m))")
  case True
  from loop_returns_yielding [OF ly calm pre this, of "Suc fuel" p] show ?thesis .
next
  case False
  then have y: "yieldpoint slow m w = Some (Inr (m, w))" by (simp add: yieldpoint_def)
  show ?thesis
  proof (cases "c (sp_usable_blocks (wd_space w)) = []")
    case False
    from loop_takes_ready_block [OF ly pre calm_ready [OF calm pre False] y, of "Suc fuel" p]
    show ?thesis by blast
  next
    case True
    have pool: "pool_ok c m w" and none: "ml_block m = None" using pre by (simp_all add: loop_pre_def)
    from fetch_block_ok [OF laws pool none] True obtain w1 where f:
      "fetch_block I w = Some (None, w1)" "pool_ok c m w1" "heap_frame w w1"
      by (auto split: option.splits)
    have "loop_pre c m w1"
      using pre f user_space_frame [OF f(3)] by (simp add: loop_pre_def heap_frame_def)
    from loop_returns_yielding [OF ly _ this, of fuel p] calm_empty [OF calm pre f(1)]
    show ?thesis using y f(1) by auto
  qed
qed

lemma alloc_returns:
  assumes ly: "layout_ok ly" "unat (ly_size ly) \<le> 256" "unat (ly_align ly) \<le> 256"
    and pre: "alloc_pre c m w" and calm: "calm m w"
  shows "\<exists>x. alloc 4 p I slow ly m w = Some x"
proof -
  have fuel: "(4 :: nat) = Suc (Suc (Suc (Suc 0)))" by simp
  have "\<exists>x. try_alloc_from_local 4 p I slow ly m w = Some x"
  proof (cases "next_hole p m (wd_cells w) = Inr None")
    case False
    from alloc_from_hole [OF ly pre False] show ?thesis unfolding fuel by blast
  next
    case True
    obtain m1 w1 where rb: "return_block I m w = (m1, w1)" by (cases "return_block I m w")
    have pool: "pool_ok c m w" using pre by (simp add: alloc_pre_def)
    have "loop_pre c m1 w1"
      using return_block_ok [OF laws pool rb] pre user_space_frame [of w w1]
      by (auto simp: loop_pre_def alloc_pre_def mut_ok_def heap_frame_def)
    from loop_returns [OF ly calm_return [OF calm pre rb] this, of 0 p] True show ?thesis
      by (simp add: fuel alloc_from_global.simps rb)
  qed
  then have "\<exists>x. try_alloc_from_local 4 p I slow ly m w = Some x \<and> True" by simp
  from alloc_returns_if_try [OF ly(1) pre this] show ?thesis by blast
qed

end

end
