(* ===== verification/Marking.thy ===== *)
theory Marking
  imports Main
begin

text \<open>
  The argument behind every worklist marking: a set \<open>B\<close> of finished nodes and a set \<open>W\<close> of
  pending ones such that the roots and the successors of finished nodes are finished or
  pending. However the pending nodes are scheduled, when none is left the finished nodes
  are exactly the reachable ones.
\<close>

inductive_set reach :: "'o set \<Rightarrow> ('o \<Rightarrow> 'o set) \<Rightarrow> 'o set" for roots succ where
  root: "x \<in> roots \<Longrightarrow> x \<in> reach roots succ"
| edge: "x \<in> reach roots succ \<Longrightarrow> y \<in> succ x \<Longrightarrow> y \<in> reach roots succ"

lemma reach_mono:
  assumes "\<And>x. succ x \<subseteq> succ' x"
  shows "reach R succ \<subseteq> reach R succ'"
proof
  fix x assume "x \<in> reach R succ"
  then show "x \<in> reach R succ'" by induction (use assms in \<open>auto intro: reach.intros\<close>)
qed

lemma reach_mono_roots:
  assumes "R \<subseteq> R'"
  shows "reach R succ \<subseteq> reach R' succ"
proof
  fix x assume "x \<in> reach R succ"
  then show "x \<in> reach R' succ" by induction (use assms in \<open>auto intro: reach.intros\<close>)
qed

definition covered :: "'o set \<Rightarrow> ('o \<Rightarrow> 'o set) \<Rightarrow> 'o set \<Rightarrow> 'o set \<Rightarrow> bool" where
  "covered roots succ B W \<longleftrightarrow> roots \<subseteq> B \<union> W \<and> (\<forall>x\<in>B. succ x \<subseteq> B \<union> W) \<and> B \<union> W \<subseteq> reach roots succ"

locale marking =
  fixes roots :: "'o set" and succ :: "'o \<Rightarrow> 'o set"
begin

lemma covered_init: "covered roots succ {} roots"
  by (auto simp: covered_def intro: reach.root)

lemma covered_reach: "covered roots succ B W \<Longrightarrow> x \<in> B \<union> W \<Longrightarrow> x \<in> reach roots succ"
  by (auto simp: covered_def)

text \<open>A pending node is finished, and its successors that are not finished become pending.\<close>

lemma covered_step:
  assumes "covered roots succ B W" and "x \<in> W" and "W \<subseteq> insert x W'" and "W' \<subseteq> W \<union> succ x"
    and "succ x \<subseteq> insert x (B \<union> W')"
  shows "covered roots succ (insert x B) W'"
proof -
  have x: "x \<in> reach roots succ" and W: "W \<subseteq> reach roots succ"
    using assms(1,2) by (auto simp: covered_def)
  have "succ x \<subseteq> reach roots succ" using x by (auto intro: reach.edge)
  then have "W' \<subseteq> reach roots succ" using assms(4) W by blast
  with x show ?thesis using assms(1,3,5) unfolding covered_def by blast
qed

lemma covered_done:
  assumes "covered roots succ B {}"
  shows "B = reach roots succ"
proof
  show "B \<subseteq> reach roots succ" using assms by (simp add: covered_def)
  show "reach roots succ \<subseteq> B"
  proof
    fix x assume "x \<in> reach roots succ"
    then show "x \<in> B" by induction (use assms in \<open>auto simp: covered_def\<close>)
  qed
qed

end

end
