(* ===== verification/Trace.thy ===== *)
theory Trace
  imports Immix_Space Marking
begin

unbundle bit_operations_syntax

text \<open>
  \<open>src/src/heap/gc/multi_thread_trace.rs\<close>: the trace. Worker threads take references off a
  shared injector and their own queues, mark the object and its line, and push the fields
  that look like untraced objects. Which pending reference is processed next, and by which
  worker, depends on the crossbeam queues and on the scheduler, which are outside the
  repository: the choice is the argument \<open>sched\<close> (\<open>trace_env\<close>), and the results hold for every
  such argument. Objects are processed one at a time here; the interleaving of the workers is
  the subject of \<open>Trace_Workers\<close>.
\<close>

section \<open>One object\<close>

text \<open>A read of a reference through \<open>*base.plus(offset).to_ptr::<ObjectReference>()\<close>.\<close>

definition load_ref :: "profile \<Rightarrow> (usize \<Rightarrow> usize) \<Rightarrow> address \<Rightarrow> usize \<Rightarrow> object_reference res" where
  "load_ref p mem base offset =
     bind_res (addr_plus p base offset) (\<lambda>a.
       if 8 dvd addr_nat a then Inr (ObjectReference (mem (as_usize a)))
       else Inl (UB ''misaligned read of a reference''))"

definition ref_offsets :: "u8 \<Rightarrow> usize list res" where
  "ref_offsets ref_bits =
     (if ref_bits = 1 then Inr [0]
      else if ref_bits = 3 then Inr [0, 8]
      else if ref_bits = 15 then Inr [0, 8, 16, 24]
      else Inl (Panic ''unexpected ref_bits patterns''))"

text \<open>\<open>steal_process_edge!\<close> for each offset: the references pushed to the injector.\<close>

fun process_edges :: "profile \<Rightarrow> (usize \<Rightarrow> usize) \<Rightarrow> trace_map \<Rightarrow> address \<Rightarrow> usize list
    \<Rightarrow> object_reference list res" where
  "process_edges p mem tm base [] = Inr []"
| "process_edges p mem tm base (off # offs) =
     bind_res (load_ref p mem base off) (\<lambda>obj_addr.
     bind_res (process_edges p mem tm base offs) (\<lambda>rest.
       Inr (if is_untraced_and_valid tm (oref_as_usize obj_addr) then obj_addr # rest else rest)))"

text \<open>
  The body of the worker's loop after it has obtained \<open>next\<close>. The inner \<open>loop\<close> runs once:
  \<open>assert!(short_encode)\<close> stands before its only way round.
\<close>

definition trace_object :: "profile \<Rightarrow> 'q immix_space \<Rightarrow> (usize \<Rightarrow> usize) \<Rightarrow> object_reference
    \<Rightarrow> trace_map \<Rightarrow> line_mark_table \<Rightarrow> (trace_map \<times> line_mark_table \<times> object_reference list) res" where
  "trace_object p sp mem nxt tm lt =
     (let addr = to_address nxt in
      bind_res (guard_res (AssertFailed ''addr >= space_start && addr < space_end'')
                  (sp_start sp \<le> addr \<and> addr < sp_end sp)) (\<lambda>_.
      bind_res (mark_as_traced p tm (to_ptr addr)) (\<lambda>tm'.
      bind_res (mark_line_live p lt addr) (\<lambda>lt'.
      bind_res (get_ref_byte p (am_cells (sp_alloc_map sp)) (sp_start sp) nxt) (\<lambda>value.
      let ref_bits = value AND (push_bit REF_BITS_LEN 1 - 1);
          short_encode = (value AND push_bit SHORT_ENCODE_BIT 1 \<noteq> 0) in
      bind_res (ref_offsets ref_bits) (\<lambda>offs.
      bind_res (process_edges p mem tm' addr offs) (\<lambda>pushed.
      bind_res (guard_res (AssertFailed ''short_encode'') short_encode) (\<lambda>_.
        Inr (tm', lt', pushed)))))))))"

section \<open>The loop\<close>

text \<open>What a trace meets from outside: the number \<open>num_cpus::get()\<close> of workers, which pending
  reference is taken when \<open>k\<close> objects have been processed, and which worker takes it. The last
  field matters only when a worker other than the first has panicked: whether the first worker,
  which cannot return any more, comes upon a failing object as well.\<close>

record trace_env =
  te_cpus :: nat
  te_next :: "nat \<Rightarrow> object_reference list \<Rightarrow> nat"
  te_worker :: "nat \<Rightarrow> nat"
  te_first_panics :: "rust_error option"

definition pick :: "trace_env \<Rightarrow> nat \<Rightarrow> object_reference list \<Rightarrow> nat" where
  "pick sched k work = te_next sched k work mod length work"

definition taker :: "trace_env \<Rightarrow> nat \<Rightarrow> nat" where
  "taker sched k = te_worker sched k mod te_cpus sched"

definition without :: "nat \<Rightarrow> 'a list \<Rightarrow> 'a list" where
  "without i xs = take i xs @ drop (Suc i) xs"

text \<open>The objects are processed until no work is left (\<open>Inr\<close>) or a worker panics (\<open>Inl\<close>, with the
  worker and its panic).\<close>

partial_function (option) trace_loop ::
  "profile \<Rightarrow> 'q immix_space \<Rightarrow> (usize \<Rightarrow> usize) \<Rightarrow> trace_env \<Rightarrow> nat
    \<Rightarrow> object_reference list \<Rightarrow> trace_map \<Rightarrow> line_mark_table
    \<Rightarrow> (nat \<times> rust_error + trace_map \<times> line_mark_table) option" where
  "trace_loop p sp mem sched k work tm lt =
     (if work = [] then Some (Inr (tm, lt))
      else (case trace_object p sp mem (work ! pick sched k work) tm lt of
              Inl e \<Rightarrow> Some (Inl (taker sched k, e))
            | Inr (tm', lt', pushed) \<Rightarrow>
                trace_loop p sp mem sched (Suc k) (without (pick sched k work) work @ pushed) tm' lt'))"

text \<open>
  The workers are joined in order and each result is unwrapped, so the first worker decides. When
  it has panicked, \<open>start_trace\<close> panics. When another worker \<open>i\<close> has, that worker stays counted in
  \<open>active_threads\<close>, which therefore never becomes 0, and the first worker does not return
  (\<open>worker_panic_blocks_return\<close> for the threads themselves): \<open>join\<close> waits forever, the value \<open>None\<close>,
  unless the first worker panics too.
\<close>

definition join_workers :: "trace_env \<Rightarrow> nat \<Rightarrow> rust_error \<Rightarrow> 'a res option" where
  "join_workers sched i e = (if i = 0 then Some (Inl e) else map_option Inl (te_first_panics sched))"

text \<open>The roots are drained into the injector, the workers run and are joined.\<close>

definition start_trace :: "profile \<Rightarrow> trace_env \<Rightarrow> (usize \<Rightarrow> usize)
    \<Rightarrow> object_reference list \<Rightarrow> 'q immix_space \<Rightarrow> 'q immix_space res option" where
  "start_trace p sched mem work_stack sp =
     (case trace_loop p sp mem sched 0 work_stack (sp_trace_map sp) (sp_line_mark_table sp) of
        None \<Rightarrow> None
      | Some (Inl (i, e)) \<Rightarrow> join_workers sched i e
      | Some (Inr (tm, lt)) \<Rightarrow> Some (Inr (sp\<lparr>sp_trace_map := tm, sp_line_mark_table := lt\<rparr>)))"

lemma start_trace_Inr:
  assumes "start_trace p sched mem roots sp = Some (Inr sp')"
  obtains tm lt where
    "trace_loop p sp mem sched 0 roots (sp_trace_map sp) (sp_line_mark_table sp) = Some (Inr (tm, lt))"
    "sp' = sp\<lparr>sp_trace_map := tm, sp_line_mark_table := lt\<rparr>"
  using assms
  by (auto simp: start_trace_def join_workers_def split: option.splits sum.splits prod.splits if_splits)

section \<open>The object graph\<close>

text \<open>The references an object's byte in the alloc map says it holds.\<close>

definition ref_byte :: "'q immix_space \<Rightarrow> object_reference \<Rightarrow> u8" where
  "ref_byte sp r = am_cells (sp_alloc_map sp) ! ((addr_nat (to_address r) - addr_nat (sp_start sp)) div 8)"

definition obj_offsets :: "'q immix_space \<Rightarrow> object_reference \<Rightarrow> usize list" where
  "obj_offsets sp r = (case ref_offsets (ref_byte sp r AND 63) of Inl _ \<Rightarrow> [] | Inr offs \<Rightarrow> offs)"

definition obj_fields :: "'q immix_space \<Rightarrow> (usize \<Rightarrow> usize) \<Rightarrow> object_reference \<Rightarrow> object_reference list" where
  "obj_fields sp mem r = map (\<lambda>off. ObjectReference (mem (oref_as_usize r + off))) (obj_offsets sp r)"

definition in_trace_range :: "'q immix_space \<Rightarrow> object_reference \<Rightarrow> bool" where
  "in_trace_range sp r \<longleftrightarrow> sp_start sp \<le> to_address r \<and>
     (addr_nat (to_address r) - addr_nat (sp_start sp)) div 8 < (space_size sp + 7) div 8"

definition heap_succ :: "'q immix_space \<Rightarrow> (usize \<Rightarrow> usize) \<Rightarrow> object_reference \<Rightarrow> object_reference set" where
  "heap_succ sp mem r = {v \<in> set (obj_fields sp mem r). in_trace_range sp v}"

text \<open>
  The fields that a trace follows: those whose cell does not carry the mark state when the trace
  starts. In a heap in which everything reachable is untraced these are all references; in the
  first collection of a space, whose cells all equal its mark state, they are none.
\<close>

definition followed :: "'q immix_space \<Rightarrow> (usize \<Rightarrow> usize) \<Rightarrow> object_reference \<Rightarrow> object_reference set" where
  "followed sp mem r = {v \<in> set (obj_fields sp mem r). is_untraced_and_valid (sp_trace_map sp) (oref_as_usize v)}"

text \<open>
  An object the collector can process: an aligned address in the space, in a line the table
  covers, whose byte has the short-encode bit and one of the three known reference patterns.
\<close>

definition wf_object :: "'q immix_space \<Rightarrow> object_reference \<Rightarrow> bool" where
  "wf_object sp r \<longleftrightarrow>
     sp_start sp \<le> to_address r \<and> to_address r < sp_end sp \<and>
     line_of (sp_start sp) (to_address r) < space_size sp div 256 \<and>
     8 dvd addr_nat (to_address r) \<and>
     (addr_nat (to_address r) - addr_nat (sp_start sp)) div 8 < length (am_cells (sp_alloc_map sp)) \<and>
     ref_byte sp r AND 63 \<in> {1, 3, 15} \<and> ref_byte sp r AND 128 \<noteq> 0"

abbreviation with_marks :: "'q immix_space \<Rightarrow> trace_map \<Rightarrow> line_mark_table \<Rightarrow> 'q immix_space" where
  "with_marks sp tm lt \<equiv> sp\<lparr>sp_trace_map := tm, sp_line_mark_table := lt\<rparr>"

abbreviation mark_slot :: "'q immix_space \<Rightarrow> object_reference \<Rightarrow> nat" where
  "mark_slot sp r \<equiv> (addr_nat (to_address r) - addr_nat (sp_start sp)) div 8"

definition mark_slot_in :: "nat \<Rightarrow> trace_map \<Rightarrow> trace_map" where
  "mark_slot_in i tm = tm\<lparr>tm_map := (tm_map tm)
     \<lparr>sm_addresses := (sm_addresses (tm_map tm))[i := tm_mark_state tm]\<rparr>\<rparr>"

definition mark_line_in :: "nat \<Rightarrow> line_mark_table \<Rightarrow> line_mark_table" where
  "mark_line_in i lt = lt\<lparr>lt_cells := mark_cells i (lt_cells lt)\<rparr>"

lemma mark_slot_in_sel [simp]:
  "tm_mark_state (mark_slot_in i tm) = tm_mark_state tm"
  "sm_offset (tm_map (mark_slot_in i tm)) = sm_offset (tm_map tm)"
  "sm_addresses (tm_map (mark_slot_in i tm)) = (sm_addresses (tm_map tm))[i := tm_mark_state tm]"
  by (simp_all add: mark_slot_in_def)

lemma mark_line_in_sel [simp]:
  "lt_space_start (mark_line_in i lt) = lt_space_start lt" "lt_len (mark_line_in i lt) = lt_len lt"
  "lt_cells (mark_line_in i lt) = mark_cells i (lt_cells lt)"
  by (simp_all add: mark_line_in_def)

lemma tables_ok_marked:
  "tables_ok (with_marks sp tm lt) \<Longrightarrow>
     tables_ok (with_marks sp (mark_slot_in i tm) (mark_line_in j lt))"
  by (simp add: tables_ok_def table_ok_def)

lemma trace_slot:
  assumes "tables_ok (with_marks sp tm lt)"
  shows "sm_slot (tm_map tm) (oref_as_usize r) =
    (if in_trace_range sp r then Some (mark_slot sp r) else None)"
  using assms
  by (simp add: sm_slot_def in_trace_range_def tables_ok_def Let_def address_order)

lemma trace_get:
  assumes tb: "tables_ok (with_marks sp tm lt)"
  shows "is_untraced_and_valid tm (oref_as_usize r) \<longleftrightarrow>
    in_trace_range sp r \<and> sm_addresses (tm_map tm) ! mark_slot sp r \<noteq> tm_mark_state tm"
proof -
  have "addr_nat (sp_start sp) + (space_size sp + 7) \<le> 2 ^ 64"
    using tb by (simp add: tables_ok_def address_le_iff)
  then have "addr_nat (sp_start sp) + 8 * ((space_size sp + 7) div 8) \<le> 2 ^ 64"
    using times_div_less_eq_dividend [of 8 "space_size sp + 7"] by linarith
  then have "sm_get (tm_map tm) (oref_as_usize r) =
      map_option ((!) (sm_addresses (tm_map tm))) (sm_slot (tm_map tm) (oref_as_usize r))"
    using tb by (intro sm_get_slot) (simp add: tables_ok_def)
  then show ?thesis by (simp add: is_untraced_and_valid_def trace_slot [OF tb])
qed

lemma space_in_trace_range:
  assumes "sp_start sp \<le> to_address r" and "to_address r < sp_end sp"
  shows "in_trace_range sp r"
proof -
  have "addr_nat (to_address r) - addr_nat (sp_start sp) < space_size sp"
    using assms by (auto simp: address_le_iff address_less_iff)
  then have "addr_nat (to_address r) - addr_nat (sp_start sp) + 8 \<le> space_size sp + 7" by simp
  then have "(addr_nat (to_address r) - addr_nat (sp_start sp) + 8) div 8 \<le> (space_size sp + 7) div 8"
    by (rule div_le_mono)
  with assms(1) show ?thesis by (simp add: in_trace_range_def)
qed

lemma trace_get_start:
  assumes "tables_ok sp"
  shows "is_untraced_and_valid (sp_trace_map sp) (oref_as_usize r) \<longleftrightarrow>
    in_trace_range sp r \<and> sm_addresses (tm_map (sp_trace_map sp)) ! mark_slot sp r \<noteq> tm_mark_state (sp_trace_map sp)"
  using assms trace_get [where sp = sp and tm = "sp_trace_map sp" and lt = "sp_line_mark_table sp"] by simp

lemma followed_heap_succ: "tables_ok sp \<Longrightarrow> followed sp mem r \<subseteq> heap_succ sp mem r"
  by (auto simp: followed_def heap_succ_def trace_get_start)

lemma reach_followed: "tables_ok sp \<Longrightarrow> reach R (followed sp mem) \<subseteq> reach R (heap_succ sp mem)"
  by (rule reach_mono) (rule followed_heap_succ)

text \<open>What a trace follows on a heap of untraced objects.\<close>

lemma reach_untraced:
  assumes tb: "tables_ok sp"
    and "\<forall>r\<in>reach R (heap_succ sp mem). is_untraced_and_valid (sp_trace_map sp) (oref_as_usize r)"
  shows "reach R (followed sp mem) = reach R (heap_succ sp mem)"
proof
  show "reach R (heap_succ sp mem) \<subseteq> reach R (followed sp mem)"
  proof
    fix x assume "x \<in> reach R (heap_succ sp mem)"
    then show "x \<in> reach R (followed sp mem)"
    proof induction
      case (edge x y)
      have "y \<in> reach R (heap_succ sp mem)" using edge.hyps by (rule reach.edge)
      then have "y \<in> followed sp mem x" using assms(2) edge.hyps(2) by (auto simp: followed_def heap_succ_def)
      then show ?case using edge.IH by (rule reach.edge [rotated])
    qed (rule reach.root)
  qed
qed (rule reach_followed [OF tb])

section \<open>A trace under way\<close>

text \<open>The tables while a trace of the space \<open>sp\<close> is under way: of the cells only marks have been
  added to, so what looks untraced now did so at the start.\<close>

definition tracing :: "'q immix_space \<Rightarrow> trace_map \<Rightarrow> line_mark_table \<Rightarrow> bool" where
  "tracing sp tm lt \<longleftrightarrow> tables_ok sp \<and> tables_ok (with_marks sp tm lt) \<and>
     tm_mark_state tm = tm_mark_state (sp_trace_map sp) \<and>
     (\<forall>j. sm_addresses (tm_map (sp_trace_map sp)) ! j = tm_mark_state tm \<longrightarrow>
        sm_addresses (tm_map tm) ! j = tm_mark_state tm)"

lemma tracing_tables: "tracing sp tm lt \<Longrightarrow> tables_ok (with_marks sp tm lt)" "tracing sp tm lt \<Longrightarrow> tables_ok sp"
  by (simp_all add: tracing_def)

lemma tracing_start: "tables_ok sp \<Longrightarrow> tracing sp (sp_trace_map sp) (sp_line_mark_table sp)"
  by (simp add: tracing_def)

lemma tracing_marked:
  assumes "tracing sp tm lt" and "i < length (sm_addresses (tm_map tm))"
  shows "tracing sp (mark_slot_in i tm) (mark_line_in j lt)"
  using assms tables_ok_marked [where sp = sp and tm = tm and lt = lt] by (auto simp: tracing_def nth_list_update)

lemma tracing_untraced:
  assumes "tracing sp tm lt" and "is_untraced_and_valid tm (oref_as_usize v)"
  shows "is_untraced_and_valid (sp_trace_map sp) (oref_as_usize v)"
  using assms(2) trace_get [OF tracing_tables(1) [OF assms(1)], of v] trace_get_start [OF tracing_tables(2) [OF assms(1)], of v] assms(1)
  by (auto simp: tracing_def)

lemma pushed_followed:
  assumes "tracing sp tm lt"
  shows "set (filter (\<lambda>v. is_untraced_and_valid tm (oref_as_usize v)) (obj_fields sp mem r)) \<subseteq> followed sp mem r"
  using tracing_untraced [OF assms] by (auto simp: followed_def)

section \<open>What processing an object does\<close>

lemma load_ref_ok:
  assumes "addr_nat a + unat off < 2 ^ 64" and "8 dvd addr_nat a" and "8 dvd unat off"
  shows "load_ref p mem a off = Inr (ObjectReference (mem (as_usize a + off)))"
  using assms by (simp add: load_ref_def addr_plus_def usize_add_ok unat_add_small dvd_add)

lemma process_edges_ok:
  assumes "8 dvd addr_nat a" and "\<forall>off\<in>set offs. addr_nat a + unat off < 2 ^ 64 \<and> 8 dvd unat off"
  shows "process_edges p mem tm a offs =
    Inr (filter (\<lambda>v. is_untraced_and_valid tm (oref_as_usize v))
          (map (\<lambda>off. ObjectReference (mem (as_usize a + off))) offs))"
  using assms(2) by (induction offs) (auto simp: load_ref_ok [OF _ assms(1)])

lemma ref_offsets_eq:
  "ref_offsets b = (if b \<in> {1, 3, 15} then Inr (if b = 1 then [0] else if b = 3 then [0, 8] else [0, 8, 16, 24])
     else Inl (Panic ''unexpected ref_bits patterns''))"
  by (simp add: ref_offsets_def)

lemma obj_offsets_bounds:
  "off \<in> set (obj_offsets sp r) \<Longrightarrow> unat off \<le> 24 \<and> 8 dvd unat off"
  by (auto simp: obj_offsets_def ref_offsets_eq split: if_splits)

lemma ref_masks:
  "push_bit REF_BITS_LEN 1 - 1 = (63 :: u8)" "push_bit SHORT_ENCODE_BIT 1 = (128 :: u8)"
  "2 ^ REF_BITS_LEN - 1 = (63 :: u8)" "2 ^ SHORT_ENCODE_BIT = (128 :: u8)"
  by (simp_all add: REF_BITS_LEN_def SHORT_ENCODE_BIT_def push_bit_eq_mult)

lemma get_ref_byte_eq:
  assumes "sp_start sp \<le> to_address r"
  shows "get_ref_byte p (am_cells (sp_alloc_map sp)) (sp_start sp) r =
    (if mark_slot sp r < length (am_cells (sp_alloc_map sp)) then Inr (ref_byte sp r)
     else Inl (UB ''get_ref_byte outside the alloc map''))"
  using assms diff_ok(2) [OF assms]
  by (simp add: get_ref_byte_def diff_ok(1) Let_def unat_div_pointer ref_byte_def)

text \<open>Every access of the trace to a well-formed object succeeds.\<close>

lemma wf_object_ops:
  assumes tb: "tables_ok (with_marks sp tm lt)" and wf: "wf_object sp r"
  shows "mark_as_traced p tm (to_ptr (to_address r)) = Inr (mark_slot_in (mark_slot sp r) tm)"
    and "mark_line_live p lt (to_address r) = Inr (mark_line_in (line_of (sp_start sp) (to_address r)) lt)"
    and "get_ref_byte p (am_cells (sp_alloc_map sp)) (sp_start sp) r = Inr (ref_byte sp r)"
    and "ref_offsets (ref_byte sp r AND 63) = Inr (obj_offsets sp r)"
    and "\<forall>off\<in>set (obj_offsets sp r). addr_nat (to_address r) + unat off < 2 ^ 64 \<and> 8 dvd unat off"
proof -
  have r: "sp_start sp \<le> to_address r" "to_address r < sp_end sp" "8 dvd addr_nat (to_address r)"
    "line_of (sp_start sp) (to_address r) < space_size sp div 256"
    "mark_slot sp r < length (am_cells (sp_alloc_map sp))"
    "ref_byte sp r AND 63 \<in> {1, 3, 15}"
    using wf by (simp_all add: wf_object_def)
  have "sm_slot (tm_map tm) (to_ptr (to_address r)) = Some (mark_slot sp r)"
    using trace_slot [OF tb, of r] space_in_trace_range [OF r(1,2)] by (simp add: to_ptr_def)
  then show "mark_as_traced p tm (to_ptr (to_address r)) = Inr (mark_slot_in (mark_slot sp r) tm)"
    by (simp add: mark_as_traced_ok mark_slot_in_def)
  show "mark_line_live p lt (to_address r) = Inr (mark_line_in (line_of (sp_start sp) (to_address r)) lt)"
    using tb r mark_line_live_ok [of lt "to_address r" p] by (simp add: tables_ok_def mark_line_in_def)
  show "get_ref_byte p (am_cells (sp_alloc_map sp)) (sp_start sp) r = Inr (ref_byte sp r)"
    using r(1,5) by (simp add: get_ref_byte_eq)
  show "ref_offsets (ref_byte sp r AND 63) = Inr (obj_offsets sp r)"
    using r(6) by (auto simp: obj_offsets_def ref_offsets_eq)
  show "\<forall>off\<in>set (obj_offsets sp r). addr_nat (to_address r) + unat off < 2 ^ 64 \<and> 8 dvd unat off"
    using obj_offsets_bounds [of _ sp r] r(2) tb by (fastforce simp: tables_ok_def address_less_iff)
qed

lemma trace_object_wf:
  assumes tb: "tables_ok (with_marks sp tm lt)" and wf: "wf_object sp r"
  shows "trace_object p sp mem r tm lt =
    (let tm' = mark_slot_in (mark_slot sp r) tm in
     Inr (tm', mark_line_in (line_of (sp_start sp) (to_address r)) lt,
          filter (\<lambda>v. is_untraced_and_valid tm' (oref_as_usize v)) (obj_fields sp mem r)))"
proof -
  have r: "sp_start sp \<le> to_address r" "to_address r < sp_end sp" "8 dvd addr_nat (to_address r)"
    "ref_byte sp r AND 63 \<in> {1, 3, 15}" "ref_byte sp r AND 128 \<noteq> 0"
    using wf by (simp_all add: wf_object_def)
  note ops = wf_object_ops [OF tb wf]
  note edges = process_edges_ok [OF r(3) ops(5), of p mem "mark_slot_in (mark_slot sp r) tm"]
  show ?thesis
    unfolding trace_object_def Let_def
    using r ops(1-4) edges by (simp add: ref_masks obj_fields_def comp_def)
qed

lemma trace_object_inv:
  assumes tb: "tables_ok (with_marks sp tm lt)" and ret: "trace_object p sp mem r tm lt = Inr x"
  shows "wf_object sp r"
proof -
  from ret obtain tm' lt' where s: "sp_start sp \<le> to_address r" "to_address r < sp_end sp"
    "mark_line_live p lt (to_address r) = Inr lt'"
    "get_ref_byte p (am_cells (sp_alloc_map sp)) (sp_start sp) r = Inr (ref_byte sp r)"
    "\<exists>offs pushed. ref_offsets (ref_byte sp r AND 63) = Inr offs \<and>
       process_edges p mem tm' (to_address r) offs = Inr pushed"
    "ref_byte sp r AND 128 \<noteq> 0"
    by (auto simp: trace_object_def Let_def get_ref_byte_eq ref_masks split: if_splits) blast
  have slot: "mark_slot sp r < length (am_cells (sp_alloc_map sp))"
    using s(1,4) by (simp add: get_ref_byte_eq split: if_splits)
  have bits: "ref_byte sp r AND 63 \<in> {1, 3, 15}"
    using s(5) by (auto simp: ref_offsets_eq split: if_splits)
  then obtain rest where "ref_offsets (ref_byte sp r AND 63) = Inr (0 # rest)"
    by (auto simp: ref_offsets_eq)
  then have "8 dvd addr_nat (to_address r)"
    using s(5) by (auto simp: load_ref_def addr_plus_def usize_add_def split: if_splits)
  moreover have "line_of (sp_start sp) (to_address r) < lt_len lt"
    using mark_line_live_inv [of lt "to_address r" p lt'] s(1,3) tb
    by (simp add: tables_ok_def table_ok_def)
  ultimately show ?thesis
    using s slot bits tb by (simp add: wf_object_def tables_ok_def)
qed

section \<open>The trace terminates\<close>

text \<open>
  A reference can be pending many times over: it is marked when it is taken, not when it is
  pushed. What decreases is the number of unmarked cells and, while that stays, the number of
  pending references whose cell is marked already; only unmarked references are pushed.
\<close>

definition unmarked_slots :: "trace_map \<Rightarrow> nat set" where
  "unmarked_slots tm = {i. i < length (sm_addresses (tm_map tm)) \<and>
     sm_addresses (tm_map tm) ! i \<noteq> tm_mark_state tm}"

definition stale_work :: "'q immix_space \<Rightarrow> trace_map \<Rightarrow> object_reference list \<Rightarrow> nat" where
  "stale_work sp tm work =
     length (filter (\<lambda>r. sm_addresses (tm_map tm) ! mark_slot sp r = tm_mark_state tm) work)"

lemma set_without: "i < length xs \<Longrightarrow> insert (xs ! i) (set (without i xs)) = set xs"
proof -
  assume i: "i < length xs"
  have "set xs = set (take i xs @ xs ! i # drop (Suc i) xs)"
    using id_take_nth_drop [OF i] by simp
  then show ?thesis by (simp add: without_def)
qed

lemma filter_without:
  assumes "i < length xs"
  shows "length (filter P xs) = length (filter P (without i xs)) + (if P (xs ! i) then 1 else 0)"
proof -
  have "length (filter P xs) = length (filter P (take i xs @ xs ! i # drop (Suc i) xs))"
    using id_take_nth_drop [OF assms] by simp
  then show ?thesis by (simp add: without_def)
qed

lemma pick_less: "work \<noteq> [] \<Longrightarrow> pick sched k work < length work"
  by (simp add: pick_def)

lemma finite_unmarked [simp]: "finite (unmarked_slots tm)"
  by (simp add: unmarked_slots_def)

lemma trace_step_measure:
  fixes sp :: "'q immix_space"
  assumes tb: "tables_ok (with_marks sp tm lt)" and work: "i < length work"
    and wf: "wf_object sp (work ! i)"
    and tm': "tm' = mark_slot_in (mark_slot sp (work ! i)) tm"
    and pushed: "\<forall>v\<in>set pushed. is_untraced_and_valid tm' (oref_as_usize v)"
  shows "((card (unmarked_slots tm'), stale_work sp tm' (without i work @ pushed)),
          (card (unmarked_slots tm), stale_work sp tm work)) \<in> less_than <*lex*> less_than"
proof -
  let ?s = "mark_slot sp (work ! i)" and ?cs = "sm_addresses (tm_map tm)"
  have s: "?s < length ?cs"
    using wf space_in_trace_range [of sp "work ! i"] tb
    by (simp add: wf_object_def in_trace_range_def tables_ok_def)
  show ?thesis
  proof (cases "?cs ! ?s = tm_mark_state tm")
    case False
    then have "unmarked_slots tm' = unmarked_slots tm - {?s}" "?s \<in> unmarked_slots tm"
      using s by (auto simp: tm' unmarked_slots_def nth_list_update)
    then have "card (unmarked_slots tm') < card (unmarked_slots tm)"
      by (simp only: card_Diff1_less finite_unmarked)
    then show ?thesis by simp
  next
    case True
    then have "?cs[?s := tm_mark_state tm] = ?cs" by (metis list_update_id)
    then have same: "tm' = tm" by (simp add: tm' mark_slot_in_def)
    have "stale_work sp tm pushed = 0"
      using pushed unfolding stale_work_def same by (simp add: filter_empty_conv trace_get [OF tb])
    moreover have "stale_work sp tm work = stale_work sp tm (without i work) + 1"
      using filter_without [OF work, of "\<lambda>r. ?cs ! mark_slot sp r = tm_mark_state tm"] True
      by (simp add: stale_work_def)
    ultimately have "stale_work sp tm (without i work @ pushed) < stale_work sp tm work"
      by (simp add: stale_work_def)
    then show ?thesis by (simp add: same)
  qed
qed

text \<open>Induction along the loop, for whatever schedule.\<close>

lemma trace_loop_induct [consumes 1, case_names finish fail step]:
  fixes sp :: "'q immix_space"
  assumes "tracing sp tm lt"
    and "\<And>k tm lt. tracing sp tm lt \<Longrightarrow> P k [] tm lt"
    and "\<And>k work tm lt e. tracing sp tm lt \<Longrightarrow> work \<noteq> [] \<Longrightarrow>
      trace_object p sp mem (work ! pick sched k work) tm lt = Inl e \<Longrightarrow> P k work tm lt"
    and "\<And>k work tm lt tm' lt' pushed r. tracing sp tm lt \<Longrightarrow> work \<noteq> [] \<Longrightarrow>
      r = work ! pick sched k work \<Longrightarrow> wf_object sp r \<Longrightarrow>
      tm' = mark_slot_in (mark_slot sp r) tm \<Longrightarrow>
      lt' = mark_line_in (line_of (sp_start sp) (to_address r)) lt \<Longrightarrow>
      pushed = filter (\<lambda>v. is_untraced_and_valid tm' (oref_as_usize v)) (obj_fields sp mem r) \<Longrightarrow>
      trace_object p sp mem r tm lt = Inr (tm', lt', pushed) \<Longrightarrow>
      tracing sp tm' lt' \<Longrightarrow>
      P (Suc k) (without (pick sched k work) work @ pushed) tm' lt' \<Longrightarrow> P k work tm lt"
  shows "P k work tm lt"
  using assms(1)
proof (induction "(card (unmarked_slots tm), stale_work sp tm work)" arbitrary: k work tm lt
    rule: wf_induct_rule [OF wf_lex_prod [OF wf_less_than wf_less_than]])
  case 1
  show ?case
  proof (cases "work = []")
    case True
    then show ?thesis using assms(2) 1(2) by simp
  next
    case False
    note i = pick_less [OF False, of sched k]
    define r where "r = work ! pick sched k work"
    show ?thesis
    proof (cases "trace_object p sp mem r tm lt")
      case (Inl e)
      then show ?thesis using assms(3) 1(2) False by (simp add: r_def)
    next
      case (Inr x)
      note tb = tracing_tables(1) [OF 1(2)]
      note wf = trace_object_inv [OF tb Inr]
      define tm' where "tm' = mark_slot_in (mark_slot sp r) tm"
      define lt' where "lt' = mark_line_in (line_of (sp_start sp) (to_address r)) lt"
      define pushed where
        "pushed = filter (\<lambda>v. is_untraced_and_valid tm' (oref_as_usize v)) (obj_fields sp mem r)"
      have obj: "trace_object p sp mem r tm lt = Inr (tm', lt', pushed)"
        using trace_object_wf [OF tb wf, of p mem] by (simp add: tm'_def lt'_def pushed_def Let_def)
      have "mark_slot sp r < length (sm_addresses (tm_map tm))"
        using wf space_in_trace_range [of sp r] tb by (simp add: wf_object_def in_trace_range_def tables_ok_def)
      then have tb': "tracing sp tm' lt'" unfolding tm'_def lt'_def by (rule tracing_marked [OF 1(2)])
      have "((card (unmarked_slots tm'), stale_work sp tm' (without (pick sched k work) work @ pushed)),
          (card (unmarked_slots tm), stale_work sp tm work)) \<in> less_than <*lex*> less_than"
        using wf by (intro trace_step_measure [OF tb i]) (auto simp: r_def tm'_def pushed_def)
      from 1(1) [OF this tb'] show ?thesis
        using assms(4) [OF 1(2) False r_def wf tm'_def lt'_def pushed_def obj tb'] by blast
    qed
  qed
qed

lemma trace_loop_total:
  assumes "tracing sp tm lt"
  shows "\<exists>res. trace_loop p sp mem sched k work tm lt = Some res"
  using assms
proof (induction k work tm lt rule: trace_loop_induct [where p = p and mem = mem and sched = sched])
  case (finish k tm lt)
  show ?case by (subst trace_loop.simps) simp
next
  case (fail k work tm lt e)
  then show ?case by (subst trace_loop.simps) simp
next
  case (step k work tm lt tm' lt' pushed r)
  then show ?case by (subst trace_loop.simps) simp
qed

section \<open>The trace marks what is reachable\<close>

text \<open>The line of an object's first byte and the next one are kept by the sweep.\<close>

definition line_kept :: "'q immix_space \<Rightarrow> line_mark list \<Rightarrow> object_reference \<Rightarrow> bool" where
  "line_kept sp cs r \<longleftrightarrow> (let l = line_of (sp_start sp) (to_address r) in
     l < length cs \<and> retained (cs ! l) \<and> (Suc l < length cs \<longrightarrow> retained (cs ! Suc l)))"

lemma trace_loop_frame:
  assumes "tracing sp tm lt"
    and "trace_loop p sp mem sched k work tm lt = Some (Inr (tm1, lt1))"
  shows "tracing sp tm1 lt1 \<and> tm_mark_state tm1 = tm_mark_state tm \<and>
    length (lt_cells lt1) = length (lt_cells lt) \<and>
    (\<forall>j<length (lt_cells lt). retained (lt_cells lt ! j) \<longrightarrow> retained (lt_cells lt1 ! j))"
  using assms
proof (induction k work tm lt rule: trace_loop_induct [where p = p and mem = mem and sched = sched])
  case (finish k tm lt)
  then show ?case by (auto simp: trace_loop.simps)
next
  case (fail k work tm lt e)
  then show ?case by (simp add: trace_loop.simps)
next
  case (step k work tm lt tm' lt' pushed r)
  have "line_of (sp_start sp) (to_address r) < length (lt_cells lt)"
    using tracing_tables(1) [OF step(1)] step(4) by (simp add: wf_object_def tables_ok_def table_ok_def)
  then have "\<forall>j<length (lt_cells lt). retained (lt_cells lt ! j) \<longrightarrow> retained (lt_cells lt' ! j)"
    using mark_cells_retains by (auto simp: step(6))
  moreover have "trace_loop p sp mem sched k work tm lt =
      trace_loop p sp mem sched (Suc k) (without (pick sched k work) work @ pushed) tm' lt'"
    using step(2,3,8) by (subst trace_loop.simps) simp
  ultimately show ?case using step(10,11) by (simp add: step(5,6))
qed

interpretation heap_graph: marking "set roots" "followed sp mem" for roots sp mem .

lemma aligned_slot_inject:
  assumes "tables_ok (with_marks sp tm lt)"
    and "sp_start sp \<le> to_address r" "8 dvd addr_nat (to_address r)"
    and "sp_start sp \<le> to_address r'" "8 dvd addr_nat (to_address r')"
    and "mark_slot sp r = mark_slot sp r'"
  shows "r = r'"
proof -
  have "(8 :: nat) dvd 2 ^ 19" by simp
  then have "8 dvd addr_nat (sp_start sp)"
    using assms(1) dvd_trans by (auto simp: tables_ok_def)
  then have "8 dvd addr_nat (to_address r) - addr_nat (sp_start sp)"
    "8 dvd addr_nat (to_address r') - addr_nat (sp_start sp)"
    using assms(3,5) by (simp_all add: dvd_diff_nat)
  then have "addr_nat (to_address r) - addr_nat (sp_start sp) =
      addr_nat (to_address r') - addr_nat (sp_start sp)"
    using assms(6) by (metis dvd_div_mult_self)
  then have "addr_nat (to_address r) = addr_nat (to_address r')"
    using assms(2,4) unfolding address_le_iff by linarith
  then show ?thesis by (metis addr_nat_inject to_address_to_object_reference(2))
qed

lemma in_trace_range_ge: "in_trace_range sp r \<Longrightarrow> sp_start sp \<le> to_address r"
  by (simp add: in_trace_range_def)

text \<open>
  The invariant: \<open>B\<close> are the objects processed so far, exactly the reachable ones whose cell
  carries the mark state but did not from the start, and their lines are kept.
\<close>

definition trace_inv ::
  "'q immix_space \<Rightarrow> (usize \<Rightarrow> usize) \<Rightarrow> object_reference list \<Rightarrow> object_reference set \<Rightarrow>
    object_reference list \<Rightarrow> trace_map \<Rightarrow> line_mark_table \<Rightarrow> bool" where
  "trace_inv sp mem roots B work tm lt \<longleftrightarrow>
     covered (set roots) (followed sp mem) B (set work) \<and>
     (\<forall>r\<in>reach (set roots) (followed sp mem). in_trace_range sp r \<longrightarrow>
        (sm_addresses (tm_map tm) ! mark_slot sp r = tm_mark_state tm \<longleftrightarrow>
           r \<in> B \<or> sm_addresses (tm_map (sp_trace_map sp)) ! mark_slot sp r = tm_mark_state tm)) \<and>
     (\<forall>r\<in>B. wf_object sp r \<and> line_kept sp (lt_cells lt) r)"

lemma line_kept_mark:
  assumes "l < length cs" and "l = line_of (sp_start sp) (to_address r) \<or> line_kept sp cs r"
  shows "line_kept sp (mark_cells l cs) r"
  using assms by (auto simp: line_kept_def Let_def nth_mark_cells)

lemma trace_inv_step:
  fixes sp :: "'q immix_space"
  assumes inv: "trace_inv sp mem roots B work tm lt" and tr: "tracing sp tm lt"
    and aligned: "\<forall>r\<in>reach (set roots) (followed sp mem). 8 dvd addr_nat (to_address r)"
    and i: "i < length work" and r: "r = work ! i" and wf: "wf_object sp r"
    and tm': "tm' = mark_slot_in (mark_slot sp r) tm"
    and lt': "lt' = mark_line_in (line_of (sp_start sp) (to_address r)) lt"
    and pushed: "pushed = filter (\<lambda>v. is_untraced_and_valid tm' (oref_as_usize v)) (obj_fields sp mem r)"
  shows "trace_inv sp mem roots (insert r B) (without i work @ pushed) tm' lt'"
proof -
  let ?R = "reach (set roots) (followed sp mem)"
  note tb = tracing_tables(1) [OF tr]
  have cov: "covered (set roots) (followed sp mem) B (set work)" using inv by (simp add: trace_inv_def)
  have rw: "r \<in> set work" using i r by simp
  then have rR: "r \<in> ?R" using heap_graph.covered_reach [OF cov] by blast
  have ge: "sp_start sp \<le> to_address r" using wf by (simp add: wf_object_def)
  have in_r: "in_trace_range sp r" using wf by (simp add: wf_object_def space_in_trace_range)
  have slot: "mark_slot sp r < length (sm_addresses (tm_map tm))"
    using in_r tb by (simp add: in_trace_range_def tables_ok_def)
  have tr': "tracing sp tm' lt'" unfolding tm' lt' by (rule tracing_marked [OF tr slot])
  note tb' = tracing_tables(1) [OF tr']
  have marks: "sm_addresses (tm_map tm') ! mark_slot sp x = tm_mark_state tm' \<longleftrightarrow>
      x \<in> insert r B \<or> sm_addresses (tm_map (sp_trace_map sp)) ! mark_slot sp x = tm_mark_state tm'"
    if x: "x \<in> ?R" "in_trace_range sp x" for x
  proof (cases "x = r")
    case True
    then show ?thesis using slot by (simp add: tm')
  next
    case False
    then have "mark_slot sp x \<noteq> mark_slot sp r"
      using aligned_slot_inject [OF tb in_trace_range_ge [OF x(2)] _ ge] aligned x(1) rR by blast
    then show ?thesis using inv x False by (simp add: tm' trace_inv_def)
  qed
  have line: "line_of (sp_start sp) (to_address r) < length (lt_cells lt)"
    using wf tb by (simp add: wf_object_def tables_ok_def table_ok_def)
  have kept: "\<forall>x\<in>insert r B. wf_object sp x \<and> line_kept sp (lt_cells lt') x"
    using inv wf line_kept_mark [OF line] by (auto simp: trace_inv_def lt')
  have sub: "set pushed \<subseteq> followed sp mem r" unfolding pushed by (rule pushed_followed [OF tr'])
  have "followed sp mem r \<subseteq> insert r (B \<union> set pushed)"
  proof
    fix v assume v: "v \<in> followed sp mem r"
    then have "v \<in> ?R" "in_trace_range sp v"
      "sm_addresses (tm_map (sp_trace_map sp)) ! mark_slot sp v \<noteq> tm_mark_state (sp_trace_map sp)"
      using rR by (auto simp: followed_def trace_get_start [OF tracing_tables(2) [OF tr]] intro: reach.edge)
    moreover have "tm_mark_state tm' = tm_mark_state (sp_trace_map sp)" using tr' by (simp add: tracing_def)
    ultimately show "v \<in> insert r (B \<union> set pushed)"
      using marks [of v] v by (auto simp: pushed followed_def trace_get [OF tb'])
  qed
  with sub have "covered (set roots) (followed sp mem) (insert r B) (set (without i work @ pushed))"
    using set_without [OF i] r by (intro heap_graph.covered_step [OF cov rw]) auto
  with marks kept show ?thesis by (simp add: trace_inv_def)
qed

lemma trace_loop_marks:
  assumes "tracing sp tm lt"
    and "trace_inv sp mem roots B work tm lt"
    and aligned: "\<forall>r\<in>reach (set roots) (followed sp mem). 8 dvd addr_nat (to_address r)"
    and "trace_loop p sp mem sched k work tm lt = Some (Inr (tm1, lt1))"
  shows "trace_inv sp mem roots (reach (set roots) (followed sp mem)) [] tm1 lt1"
  using assms(1,2,4)
proof (induction k work tm lt arbitrary: B
    rule: trace_loop_induct [where p = p and mem = mem and sched = sched])
  case (finish k tm lt)
  then have "covered (set roots) (followed sp mem) B {}" by (simp add: trace_inv_def)
  then have "B = reach (set roots) (followed sp mem)" by (rule heap_graph.covered_done)
  with finish show ?case by (simp add: trace_loop.simps)
next
  case (fail k work tm lt e)
  then show ?case by (simp add: trace_loop.simps)
next
  case (step k work tm lt tm' lt' pushed r)
  have "trace_inv sp mem roots (insert r B) (without (pick sched k work) work @ pushed) tm' lt'"
    using trace_inv_step [OF step(11,1) aligned pick_less [OF step(2)] step(3-7)] .
  moreover have "trace_loop p sp mem sched k work tm lt =
      trace_loop p sp mem sched (Suc k) (without (pick sched k work) work @ pushed) tm' lt'"
    using step(2,3,8) by (subst trace_loop.simps) simp
  ultimately show ?case using step(10) step(12) by simp
qed

lemma trace_inv_init: "trace_inv sp mem roots {} roots (sp_trace_map sp) (sp_line_mark_table sp)"
  using heap_graph.covered_init by (simp add: trace_inv_def)

text \<open>When a worker panics, the object it has taken is reachable and not well-formed.\<close>

lemma trace_loop_fails:
  assumes "tracing sp tm lt"
    and "set work \<subseteq> reach (set roots) (followed sp mem)"
    and "trace_loop p sp mem sched k work tm lt = Some (Inl (i, e))"
  shows "(\<exists>r\<in>reach (set roots) (followed sp mem). \<not> wf_object sp r) \<and> (\<exists>j. i = taker sched j)"
  using assms
proof (induction k work tm lt rule: trace_loop_induct [where p = p and mem = mem and sched = sched])
  case (finish k tm lt)
  then show ?case by (simp add: trace_loop.simps)
next
  case (fail k work tm lt err)
  let ?r = "work ! pick sched k work"
  have "?r \<in> reach (set roots) (followed sp mem)" using pick_less [OF fail(2)] fail(4) by auto
  moreover have "\<not> wf_object sp ?r"
    using trace_object_wf [OF tracing_tables(1) [OF fail(1)], of ?r p mem] fail(3) by (auto simp: Let_def)
  moreover have "i = taker sched k" using fail(2,3,5) by (subst (asm) trace_loop.simps) simp
  ultimately show ?case by blast
next
  case (step k work tm lt tm' lt' pushed r)
  have r: "r \<in> set work" using pick_less [OF step(2)] step(3) by simp
  have "set pushed \<subseteq> followed sp mem r" unfolding step(7) by (rule pushed_followed [OF step(9)])
  then have "set (without (pick sched k work) work @ pushed) \<subseteq> reach (set roots) (followed sp mem)"
    using step(11) r set_without [OF pick_less [OF step(2), of sched k]] step(3) by (auto intro: reach.edge)
  moreover have "trace_loop p sp mem sched (Suc k) (without (pick sched k work) work @ pushed) tm' lt' = Some (Inl (i, e))"
    using step(2,3,8,12) by (subst (asm) trace_loop.simps) simp
  ultimately show ?case by (rule step(10))
qed

text \<open>Only the lines of reachable objects are marked.\<close>

lemma trace_loop_only:
  assumes "tracing sp tm lt"
    and "set work \<subseteq> reach (set roots) (followed sp mem)"
    and "trace_loop p sp mem sched k work tm lt = Some (Inr (tm1, lt1))"
    and "j < length (lt_cells lt)" and "retained (lt_cells lt1 ! j)"
  shows "retained (lt_cells lt ! j) \<or> (\<exists>r\<in>reach (set roots) (followed sp mem).
    j \<in> {line_of (sp_start sp) (to_address r), Suc (line_of (sp_start sp) (to_address r))})"
  using assms
proof (induction k work tm lt rule: trace_loop_induct [where p = p and mem = mem and sched = sched])
  case (finish k tm lt)
  then show ?case by (simp add: trace_loop.simps)
next
  case (fail k work tm lt e)
  then show ?case by (simp add: trace_loop.simps)
next
  case (step k work tm lt tm' lt' pushed r)
  have r: "r \<in> set work" using pick_less [OF step(2)] step(3) by simp
  have "set pushed \<subseteq> followed sp mem r" unfolding step(7) by (rule pushed_followed [OF step(9)])
  then have sub: "set (without (pick sched k work) work @ pushed) \<subseteq> reach (set roots) (followed sp mem)"
    using step(11) r set_without [OF pick_less [OF step(2), of sched k]] by (auto intro: reach.edge)
  have run: "trace_loop p sp mem sched (Suc k) (without (pick sched k work) work @ pushed) tm' lt' =
      Some (Inr (tm1, lt1))"
    using step(2,3,8,12) by (subst (asm) trace_loop.simps) simp
  have line: "line_of (sp_start sp) (to_address r) < length (lt_cells lt)"
    using tracing_tables(1) [OF step(1)] step(4) by (simp add: wf_object_def tables_ok_def table_ok_def)
  from step(10) [OF sub run] step(13,14) have
    "retained (mark_cells (line_of (sp_start sp) (to_address r)) (lt_cells lt) ! j) \<or>
      (\<exists>r\<in>reach (set roots) (followed sp mem).
        j \<in> {line_of (sp_start sp) (to_address r), Suc (line_of (sp_start sp) (to_address r))})"
    by (simp add: step(6))
  then show ?case
    using r step(11) nth_mark_cells [OF step(13) line] by (auto split: if_splits)
qed

section \<open>start_trace\<close>

lemma trace_loop_ends:
  "tables_ok sp \<Longrightarrow> \<exists>res. trace_loop p sp mem sched 0 roots (sp_trace_map sp) (sp_line_mark_table sp) = Some res"
  by (rule trace_loop_total [OF tracing_start])

text \<open>The call returns, normally or with a panic, unless it has several workers and one of them takes
  a reference that is not a well-formed object.\<close>

lemma start_trace_hangs:
  assumes tb: "tables_ok sp" and none: "start_trace p sched mem roots sp = None"
  shows "te_cpus sched \<noteq> 1 \<and> (\<exists>r\<in>reach (set roots) (followed sp mem). \<not> wf_object sp r)"
proof -
  obtain res where "trace_loop p sp mem sched 0 roots (sp_trace_map sp) (sp_line_mark_table sp) = Some res"
    using trace_loop_ends [OF tb] by blast
  then obtain i e where loop: "trace_loop p sp mem sched 0 roots (sp_trace_map sp) (sp_line_mark_table sp) = Some (Inl (i, e))"
    and i: "i \<noteq> 0" using none by (auto simp: start_trace_def join_workers_def split: sum.splits prod.splits if_splits)
  have "set roots \<subseteq> reach (set roots) (followed sp mem)" by (auto intro: reach.root)
  from trace_loop_fails [OF tracing_start [OF tb] this loop] i show ?thesis by (auto simp: taker_def)
qed

lemma start_trace_returns:
  assumes "tables_ok sp" and "te_cpus sched = 1 \<or> (\<forall>r\<in>reach (set roots) (followed sp mem). wf_object sp r)"
  shows "\<exists>res. start_trace p sched mem roots sp = Some res"
  using assms start_trace_hangs [of sp p sched mem roots] by (cases "start_trace p sched mem roots sp") auto

lemma start_trace_frame:
  assumes "tables_ok sp" and "start_trace p sched mem roots sp = Some (Inr sp')"
  shows "tables_ok sp' \<and> sp' = with_marks sp (sp_trace_map sp') (sp_line_mark_table sp') \<and>
    tm_mark_state (sp_trace_map sp') = tm_mark_state (sp_trace_map sp) \<and>
    length (sp_cells sp') = length (sp_cells sp) \<and>
    (\<forall>j<length (sp_cells sp). retained (sp_cells sp ! j) \<longrightarrow> retained (sp_cells sp' ! j))"
proof -
  obtain tm lt where tl: "trace_loop p sp mem sched 0 roots (sp_trace_map sp) (sp_line_mark_table sp) =
      Some (Inr (tm, lt))" and sp': "sp' = with_marks sp tm lt"
    by (rule start_trace_Inr [OF assms(2)])
  from trace_loop_frame [OF tracing_start [OF assms(1)] tl] show ?thesis by (simp add: sp' tracing_def)
qed

lemma start_trace_marks:
  assumes tb: "tables_ok sp" and run: "start_trace p sched mem roots sp = Some (Inr sp')"
    and aligned: "\<forall>r\<in>reach (set roots) (followed sp mem). 8 dvd addr_nat (to_address r)"
    and r: "r \<in> reach (set roots) (followed sp mem)"
  shows "is_traced p (sp_trace_map sp') (oref_as_usize r) = Inr True \<and>
    wf_object sp r \<and> line_kept sp (sp_cells sp') r"
proof -
  obtain tm lt where tl: "trace_loop p sp mem sched 0 roots (sp_trace_map sp) (sp_line_mark_table sp) =
      Some (Inr (tm, lt))" and sp': "sp' = with_marks sp tm lt"
    by (rule start_trace_Inr [OF run])
  have tr1: "tracing sp tm lt" using trace_loop_frame [OF tracing_start [OF tb] tl] by simp
  have inv: "trace_inv sp mem roots (reach (set roots) (followed sp mem)) [] tm lt"
    by (rule trace_loop_marks [OF tracing_start [OF tb] trace_inv_init aligned tl])
  then have wf: "wf_object sp r" "line_kept sp (lt_cells lt) r" using r by (auto simp: trace_inv_def)
  then have range: "in_trace_range sp r" by (simp add: wf_object_def space_in_trace_range)
  with inv r have "sm_addresses (tm_map tm) ! mark_slot sp r = tm_mark_state tm"
    by (simp add: trace_inv_def)
  with wf range show ?thesis
    using is_traced_ok(1) [of tm "oref_as_usize r" "mark_slot sp r" p] trace_slot [OF tracing_tables(1) [OF tr1], of r]
    by (simp add: sp')
qed

lemma start_trace_only:
  assumes tb: "tables_ok sp" and run: "start_trace p sched mem roots sp = Some (Inr sp')"
    and "j < length (sp_cells sp)" and "retained (sp_cells sp' ! j)"
  shows "retained (sp_cells sp ! j) \<or> (\<exists>r\<in>reach (set roots) (followed sp mem).
    j \<in> {line_of (sp_start sp) (to_address r), Suc (line_of (sp_start sp) (to_address r))})"
proof -
  obtain tm lt where tl: "trace_loop p sp mem sched 0 roots (sp_trace_map sp) (sp_line_mark_table sp) =
      Some (Inr (tm, lt))" and sp': "sp' = with_marks sp tm lt"
    by (rule start_trace_Inr [OF run])
  from trace_loop_only [OF tracing_start [OF tb] _ tl, of roots j] assms(3,4) show ?thesis
    by (auto simp: sp' intro: reach.root)
qed

lemma start_trace_succeeds:
  assumes tb: "tables_ok sp" and wf: "\<forall>r\<in>reach (set roots) (followed sp mem). wf_object sp r"
  shows "\<exists>sp'. start_trace p sched mem roots sp = Some (Inr sp')"
proof -
  obtain res where res: "trace_loop p sp mem sched 0 roots (sp_trace_map sp) (sp_line_mark_table sp) = Some res"
    using trace_loop_ends [OF tb] by blast
  have "set roots \<subseteq> reach (set roots) (followed sp mem)" by (auto intro: reach.root)
  from trace_loop_fails [OF tracing_start [OF tb] this] wf res show ?thesis
    by (cases res) (force simp: start_trace_def)+
qed

text \<open>A reference that is no well-formed object keeps the trace from completing.\<close>

lemma start_trace_incomplete:
  assumes tb: "tables_ok sp" and aligned: "\<forall>r\<in>reach (set roots) (followed sp mem). 8 dvd addr_nat (to_address r)"
    and r: "r \<in> reach (set roots) (followed sp mem)" "\<not> wf_object sp r"
  shows "start_trace p sched mem roots sp \<noteq> Some (Inr sp')"
  using start_trace_marks [OF tb _ aligned r(1)] r(2) by blast

section \<open>A trace map in which every cell carries the mark state\<close>

text \<open>Then no field looks untraced: only the objects on the work list itself are processed.\<close>

lemma unmarked_mark_slot_in: "unmarked_slots (mark_slot_in i tm) \<subseteq> unmarked_slots tm"
proof
  fix x assume "x \<in> unmarked_slots (mark_slot_in i tm)"
  then show "x \<in> unmarked_slots tm" by (cases "x = i") (auto simp: unmarked_slots_def)
qed

lemma unmarked_tm_new: "tm_new p start end = Inr tm \<Longrightarrow> unmarked_slots tm = {}"
  by (auto simp: tm_new_def sm_new_def sm_new_of_def bind_res_def Let_def unmarked_slots_def
      split: sum.splits)

lemma trace_loop_stale:
  fixes sp :: "'q immix_space"
  assumes "tracing sp tm lt" and "unmarked_slots tm = {}"
    and "trace_loop p sp mem sched k work tm lt = Some (Inr (tm1, lt1))"
    and "j < length (lt_cells lt)" and "retained (lt_cells lt1 ! j)"
  shows "retained (lt_cells lt ! j) \<or> (\<exists>r\<in>set work.
    j \<in> {line_of (sp_start sp) (to_address r), Suc (line_of (sp_start sp) (to_address r))})"
  using assms
proof (induction k work tm lt rule: trace_loop_induct [where p = p and mem = mem and sched = sched])
  case (finish k tm lt)
  then show ?case by (simp add: trace_loop.simps)
next
  case (fail k work tm lt e)
  then show ?case by (simp add: trace_loop.simps)
next
  case (step k work tm lt tm' lt' pushed r)
  let ?rest = "without (pick sched k work) work"
  have r: "r \<in> set work" and rest: "set ?rest \<subseteq> set work"
    using pick_less [OF step(2), of sched k] set_without [of "pick sched k work" work] step(3) by auto
  have none: "unmarked_slots tm' = {}"
    using step(11) unmarked_mark_slot_in unfolding step(5) by blast
  have "\<not> is_untraced_and_valid tm' (oref_as_usize v)" for v
    using none tracing_tables(1) [OF step(9)]
    by (auto simp: trace_get [OF tracing_tables(1) [OF step(9)]] unmarked_slots_def in_trace_range_def tables_ok_def)
  then have pushed: "pushed = []" by (simp add: step(7))
  have line: "line_of (sp_start sp) (to_address r) < length (lt_cells lt)"
    using tracing_tables(1) [OF step(1)] step(4) by (simp add: wf_object_def tables_ok_def table_ok_def)
  have run: "trace_loop p sp mem sched (Suc k) (?rest @ pushed) tm' lt' = Some (Inr (tm1, lt1))"
    using step(2,3,8,12) by (subst (asm) trace_loop.simps) simp
  from step(10) [OF none run] step(13,14) have
    "retained (mark_cells (line_of (sp_start sp) (to_address r)) (lt_cells lt) ! j) \<or>
      (\<exists>r\<in>set ?rest. j \<in> {line_of (sp_start sp) (to_address r), Suc (line_of (sp_start sp) (to_address r))})"
    by (simp add: step(6) pushed)
  then show ?case
    using r rest nth_mark_cells [OF step(13) line] by (auto split: if_splits)
qed

lemma start_trace_stale:
  assumes tb: "tables_ok sp" and run: "start_trace p sched mem roots sp = Some (Inr sp')"
    and "unmarked_slots (sp_trace_map sp) = {}"
    and "j < length (sp_cells sp)" and "retained (sp_cells sp' ! j)"
  shows "retained (sp_cells sp ! j) \<or> (\<exists>r\<in>set roots.
    j \<in> {line_of (sp_start sp) (to_address r), Suc (line_of (sp_start sp) (to_address r))})"
proof -
  obtain tm lt where tl: "trace_loop p sp mem sched 0 roots (sp_trace_map sp) (sp_line_mark_table sp) =
      Some (Inr (tm, lt))" and sp': "sp' = with_marks sp tm lt"
    by (rule start_trace_Inr [OF run])
  from trace_loop_stale [OF tracing_start [OF tb] assms(3) tl] assms(4,5) show ?thesis by (simp add: sp')
qed

end
