(* ===== verification/Trace_Workers.thy ===== *)
theory Trace_Workers
  imports Trace
begin

unbundle bit_operations_syntax

text \<open>
  \<open>src/src/heap/gc/multi_thread_trace.rs\<close> again, with its threads: \<open>cpus\<close> workers share an
  injector, a counter of active threads, the trace map and the line mark table, and each has
  a queue of its own. Every shared access is a step of its own, so that the result holds for
  every interleaving. How many tasks \<open>steal_batch_and_pop\<close> moves is up to the crossbeam
  library: any number is a step. The memory and the alloc map do not change during a
  collection.
\<close>

section \<open>States\<close>

text \<open>Where a worker stands in \<open>worker_batch_steal_trace\<close>, with its local variables.\<close>

datatype worker_pc =
    Popping \<comment> \<open>before \<open>worker.pop()\<close>\<close>
  | Stealing \<comment> \<open>before \<open>steal_batch_and_pop\<close>\<close>
  | Leaving \<comment> \<open>the injector was empty, before \<open>fetch_sub\<close>\<close>
  | Spinning \<comment> \<open>before \<open>injector.is_empty()\<close>\<close>
  | Counting \<comment> \<open>before \<open>active_threads.load\<close>\<close>
  | Rejoining \<comment> \<open>before \<open>fetch_add\<close>\<close>
  | Visiting object_reference \<comment> \<open>\<open>next\<close> is known, before the assertion and \<open>mark_as_traced\<close>\<close>
  | Lining object_reference \<comment> \<open>before \<open>mark_line_live\<close>\<close>
  | Reading object_reference \<comment> \<open>before \<open>get_ref_byte\<close>\<close>
  | Scanning object_reference "usize list" \<comment> \<open>the offsets still to be loaded\<close>
  | Pushing object_reference object_reference "usize list" \<comment> \<open>before \<open>injector.push\<close>\<close>
  | Returned
  | Panicked rust_error

record tstate =
  ts_injector :: "object_reference list"
  ts_active :: usize
  ts_pc :: "nat \<Rightarrow> worker_pc"
  ts_queue :: "nat \<Rightarrow> object_reference list"
  ts_map :: trace_map
  ts_lines :: line_mark_table

text \<open>\<open>start_trace\<close> up to the spawning of the threads.\<close>

definition workers_start :: "nat \<Rightarrow> object_reference list \<Rightarrow> 'q immix_space \<Rightarrow> tstate" where
  "workers_start cpus work_stack sp =
     \<lparr>ts_injector = work_stack, ts_active = of_nat cpus, ts_pc = (\<lambda>_. Popping),
      ts_queue = (\<lambda>_. []), ts_map = sp_trace_map sp, ts_lines = sp_line_mark_table sp\<rparr>"

definition goto :: "nat \<Rightarrow> worker_pc \<Rightarrow> tstate \<Rightarrow> tstate" where
  "goto i pc s = s\<lparr>ts_pc := (ts_pc s)(i := pc)\<rparr>"

section \<open>Steps\<close>

text \<open>The work on one object, from taking it to its last edge.\<close>

fun object_step :: "profile \<Rightarrow> 'q immix_space \<Rightarrow> (usize \<Rightarrow> usize) \<Rightarrow> nat \<Rightarrow> worker_pc \<Rightarrow> tstate \<Rightarrow> tstate option" where
  "object_step p sp mem i (Visiting r) s = Some (
     case bind_res (guard_res (AssertFailed ''addr >= space_start && addr < space_end'')
                      (sp_start sp \<le> to_address r \<and> to_address r < sp_end sp))
            (\<lambda>_. mark_as_traced p (ts_map s) (to_ptr (to_address r))) of
       Inl e \<Rightarrow> goto i (Panicked e) s
     | Inr tm \<Rightarrow> goto i (Lining r) (s\<lparr>ts_map := tm\<rparr>))"
| "object_step p sp mem i (Lining r) s = Some (
     case mark_line_live p (ts_lines s) (to_address r) of
       Inl e \<Rightarrow> goto i (Panicked e) s
     | Inr lt \<Rightarrow> goto i (Reading r) (s\<lparr>ts_lines := lt\<rparr>))"
| "object_step p sp mem i (Reading r) s = Some (
     case bind_res (get_ref_byte p (am_cells (sp_alloc_map sp)) (sp_start sp) r)
            (\<lambda>value. ref_offsets (value AND (push_bit REF_BITS_LEN 1 - 1))) of
       Inl e \<Rightarrow> goto i (Panicked e) s
     | Inr offs \<Rightarrow> goto i (Scanning r offs) s)"
| "object_step p sp mem i (Scanning r (off # offs)) s = Some (
     case load_ref p mem (to_address r) off of
       Inl e \<Rightarrow> goto i (Panicked e) s
     | Inr obj_addr \<Rightarrow>
         goto i (if is_untraced_and_valid (ts_map s) (oref_as_usize obj_addr)
                 then Pushing r obj_addr offs else Scanning r offs) s)"
| "object_step p sp mem i (Scanning r []) s = Some (
     case bind_res (get_ref_byte p (am_cells (sp_alloc_map sp)) (sp_start sp) r)
            (\<lambda>value. guard_res (AssertFailed ''short_encode'') (value AND push_bit SHORT_ENCODE_BIT 1 \<noteq> 0)) of
       Inl e \<Rightarrow> goto i (Panicked e) s
     | Inr _ \<Rightarrow> goto i Popping s)"
| "object_step p sp mem i (Pushing r obj_addr offs) s = Some (
     goto i (Scanning r offs) (s\<lparr>ts_injector := ts_injector s @ [obj_addr]\<rparr>))"
| "object_step p sp mem i _ s = None"

text \<open>A step of worker \<open>i\<close>.\<close>

inductive tstep :: "profile \<Rightarrow> 'q immix_space \<Rightarrow> (usize \<Rightarrow> usize) \<Rightarrow> nat \<Rightarrow> tstate \<Rightarrow> tstate \<Rightarrow> bool"
  for p sp mem i where
  pop: "ts_pc s i = Popping \<Longrightarrow> ts_queue s i = v # vs \<Longrightarrow>
    tstep p sp mem i s (goto i (Visiting v) (s\<lparr>ts_queue := (ts_queue s)(i := vs)\<rparr>))"
| pop_none: "ts_pc s i = Popping \<Longrightarrow> ts_queue s i = [] \<Longrightarrow> tstep p sp mem i s (goto i Stealing s)"
| steal: "ts_pc s i = Stealing \<Longrightarrow> ts_injector s = v # batch @ rest \<Longrightarrow>
    tstep p sp mem i s (goto i (Visiting v)
      (s\<lparr>ts_injector := rest, ts_queue := (ts_queue s)(i := ts_queue s i @ batch)\<rparr>))"
| steal_empty: "ts_pc s i = Stealing \<Longrightarrow> ts_injector s = [] \<Longrightarrow> tstep p sp mem i s (goto i Leaving s)"
| steal_retry: "ts_pc s i = Stealing \<Longrightarrow> tstep p sp mem i s s"
| leave: "ts_pc s i = Leaving \<Longrightarrow> tstep p sp mem i s (goto i Spinning (s\<lparr>ts_active := ts_active s - 1\<rparr>))"
| spin_work: "ts_pc s i = Spinning \<Longrightarrow> ts_injector s \<noteq> [] \<Longrightarrow> tstep p sp mem i s (goto i Rejoining s)"
| spin_empty: "ts_pc s i = Spinning \<Longrightarrow> ts_injector s = [] \<Longrightarrow> tstep p sp mem i s (goto i Counting s)"
| count_zero: "ts_pc s i = Counting \<Longrightarrow> ts_active s = 0 \<Longrightarrow> tstep p sp mem i s (goto i Returned s)"
| count_more: "ts_pc s i = Counting \<Longrightarrow> ts_active s \<noteq> 0 \<Longrightarrow> tstep p sp mem i s (goto i Spinning s)"
| rejoin: "ts_pc s i = Rejoining \<Longrightarrow> tstep p sp mem i s (goto i Stealing (s\<lparr>ts_active := ts_active s + 1\<rparr>))"
| object: "object_step p sp mem i (ts_pc s i) s = Some s' \<Longrightarrow> tstep p sp mem i s s'"

inductive_cases tstepE: "tstep p sp mem i s s'"

text \<open>The states the workers reach.\<close>

inductive treach :: "profile \<Rightarrow> 'q immix_space \<Rightarrow> (usize \<Rightarrow> usize) \<Rightarrow> nat \<Rightarrow> object_reference list \<Rightarrow> tstate \<Rightarrow> bool"
  for p sp mem cpus roots where
  init: "treach p sp mem cpus roots (workers_start cpus roots sp)"
| step: "treach p sp mem cpus roots s \<Longrightarrow> i < cpus \<Longrightarrow> tstep p sp mem i s s' \<Longrightarrow>
    treach p sp mem cpus roots s'"

lemma goto_sel [simp]:
  "ts_pc (goto i pc s) = (ts_pc s)(i := pc)" "ts_queue (goto i pc s) = ts_queue s"
  "ts_injector (goto i pc s) = ts_injector s" "ts_active (goto i pc s) = ts_active s"
  "ts_map (goto i pc s) = ts_map s" "ts_lines (goto i pc s) = ts_lines s"
  by (simp_all add: goto_def)

section \<open>Termination detection\<close>

text \<open>The workers that \<open>active_threads\<close> counts, and those that can still have work.\<close>

fun counted :: "worker_pc \<Rightarrow> bool" where
  "counted Spinning = False" | "counted Counting = False" | "counted Rejoining = False"
| "counted Returned = False" | "counted _ = True"

definition busy :: "worker_pc \<Rightarrow> bool" where
  "busy pc \<longleftrightarrow> counted pc \<and> pc \<noteq> Leaving"

text \<open>Places at which a worker holds no object.\<close>

fun resting :: "worker_pc \<Rightarrow> bool" where
  "resting Stealing = True" | "resting Leaving = True" | "resting Spinning = True"
| "resting Counting = True" | "resting Rejoining = True" | "resting Returned = True"
| "resting _ = False"

definition active_set :: "nat \<Rightarrow> tstate \<Rightarrow> nat set" where
  "active_set cpus s = {i. i < cpus \<and> counted (ts_pc s i)}"

definition detect_inv :: "nat \<Rightarrow> tstate \<Rightarrow> bool" where
  "detect_inv cpus s \<longleftrightarrow>
     unat (ts_active s) = card (active_set cpus s) \<and>
     (\<forall>i<cpus. ts_queue s i \<noteq> [] \<longrightarrow> busy (ts_pc s i) \<and> ts_pc s i \<noteq> Stealing) \<and>
     (ts_injector s \<noteq> [] \<longrightarrow> (\<exists>i<cpus. busy (ts_pc s i))) \<and>
     ((\<exists>i<cpus. ts_pc s i = Returned) \<longrightarrow>
        ts_injector s = [] \<and> (\<forall>j<cpus. ts_queue s j = [] \<and> resting (ts_pc s j)))"

lemma finite_active_set [simp]: "finite (active_set cpus s)"
  by (simp add: active_set_def)

lemma card_active_set: "card (active_set cpus s) \<le> cpus"
  using card_mono [of "{..<cpus}" "active_set cpus s"] by (auto simp: active_set_def)

lemma active_set_goto:
  "i < cpus \<Longrightarrow> active_set cpus (goto i pc s) =
     (if counted pc then insert i (active_set cpus s) else active_set cpus s - {i})"
  by (auto simp: active_set_def)

lemma active_set_cong: "ts_pc s' = ts_pc s \<Longrightarrow> active_set cpus s' = active_set cpus s"
  by (simp add: active_set_def)

text \<open>What the work on an object changes, seen from the other workers.\<close>

lemma object_step_frame:
  assumes "object_step p sp mem i pc s = Some s'"
  obtains pc' where "ts_pc s' = (ts_pc s)(i := pc')" "busy pc'" "pc' \<noteq> Stealing" "pc' \<noteq> Returned" "\<not> resting pc"
    "busy pc" "ts_queue s' = ts_queue s" "ts_active s' = ts_active s"
    "ts_injector s' = ts_injector s \<or> (\<exists>v. ts_injector s' = ts_injector s @ [v])"
  using assms
  by (cases "(p, sp, mem, i, pc, s)" rule: object_step.cases)
    (auto simp: busy_def split: sum.splits if_splits)

lemma detect_inv_init: "cpus < 2 ^ 64 \<Longrightarrow> 0 < cpus \<Longrightarrow> detect_inv cpus (workers_start cpus roots sp)"
proof -
  assume "cpus < 2 ^ 64" "0 < cpus"
  moreover have "active_set cpus (workers_start cpus roots sp) = {..<cpus}"
    by (auto simp: active_set_def workers_start_def)
  ultimately show ?thesis
    by (auto simp: detect_inv_def workers_start_def busy_def unat_of_nat)
qed

text \<open>A step that keeps the worker counted or uncounted leaves the counter right.\<close>

lemma count_same:
  assumes "i < cpus" and "unat (ts_active s) = card (active_set cpus s)"
    and "ts_pc s' = (ts_pc s)(i := pc)" and "counted pc \<longleftrightarrow> counted (ts_pc s i)" and "ts_active s' = ts_active s"
  shows "unat (ts_active s') = card (active_set cpus s')"
proof -
  have "active_set cpus s' = active_set cpus (goto i pc s)"
    by (rule active_set_cong) (simp add: assms(3))
  also have "\<dots> = active_set cpus s"
    unfolding active_set_goto [OF assms(1)] using assms(1,4) by (auto simp: active_set_def)
  finally show ?thesis using assms(2,5) by simp
qed

lemma count_leave:
  assumes "i < cpus" and "unat (ts_active s) = card (active_set cpus s)" and "counted (ts_pc s i)"
  shows "unat (ts_active s - 1) = card (active_set cpus (goto i Spinning s))"
proof -
  have i: "i \<in> active_set cpus s" using assms(1,3) by (simp add: active_set_def)
  then have pos: "0 < card (active_set cpus s)" using card_gt_0_iff by fastforce
  then have "1 \<le> ts_active s" using assms(2) by (simp add: word_le_nat_alt)
  then have "unat (ts_active s - 1) = card (active_set cpus s) - 1"
    using assms(2) by (simp add: unat_sub)
  also have "\<dots> = card (active_set cpus s - {i})" using i by simp
  finally show ?thesis using assms(1) by (simp add: active_set_goto)
qed

lemma count_rejoin:
  assumes "i < cpus" and "cpus < 2 ^ 64" and "unat (ts_active s) = card (active_set cpus s)"
    and "\<not> counted (ts_pc s i)"
  shows "unat (ts_active s + 1) = card (active_set cpus (goto i Stealing s))"
proof -
  have i: "i \<notin> active_set cpus s" using assms(4) by (simp add: active_set_def)
  have "insert i (active_set cpus s) \<subseteq> {..<cpus}" using assms(1) by (auto simp: active_set_def)
  then have "Suc (card (active_set cpus s)) \<le> cpus"
    using i card_mono [of "{..<cpus}" "insert i (active_set cpus s)"] by simp
  then have "unat (ts_active s) + unat (1 :: usize) < 2 ^ 64" using assms(2,3) by simp
  then have "unat (ts_active s + 1) = Suc (card (active_set cpus s))"
    using assms(3) by (simp add: unat_add_small)
  also have "\<dots> = card (insert i (active_set cpus s))" using i by simp
  finally show ?thesis using assms(1) by (simp add: active_set_goto)
qed

lemma no_active_resting:
  assumes "detect_inv cpus s" and "ts_active s = 0"
  shows "ts_injector s = [] \<and> (\<forall>j<cpus. ts_queue s j = [] \<and> \<not> counted (ts_pc s j))"
proof -
  have "active_set cpus s = {}" using assms by (simp add: detect_inv_def)
  then have none: "\<forall>j<cpus. \<not> counted (ts_pc s j)" by (auto simp: active_set_def)
  then have "\<forall>j<cpus. \<not> busy (ts_pc s j)" by (simp add: busy_def)
  with none show ?thesis using assms(1) unfolding detect_inv_def by metis
qed

lemma uncounted_resting: "\<not> counted pc \<Longrightarrow> resting pc"
  by (cases pc) simp_all

text \<open>A worker that is not counted moves on to another such place.\<close>

lemma detect_inv_idle:
  assumes inv: "detect_inv cpus s" and i: "i < cpus"
    and idle: "\<not> counted (ts_pc s i)" "\<not> counted pc" "pc \<noteq> Returned"
  shows "detect_inv cpus (goto i pc s)"
proof -
  have "unat (ts_active s) = card (active_set cpus s)" using inv by (simp add: detect_inv_def)
  from count_same [OF i this, of "goto i pc s" pc] idle(1,2)
  have "unat (ts_active s) = card (active_set cpus (goto i pc s))" by simp
  moreover have "\<exists>j<cpus. busy (ts_pc (goto i pc s) j)" if work: "ts_injector s \<noteq> []"
  proof -
    obtain j where j: "j < cpus" "busy (ts_pc s j)" using inv work by (auto simp: detect_inv_def)
    with idle have "j \<noteq> i" by (auto simp: busy_def)
    with j show ?thesis by (intro exI [of _ j]) simp
  qed
  moreover have "\<forall>k<cpus. ts_queue s k \<noteq> [] \<longrightarrow> busy (((ts_pc s)(i := pc)) k) \<and> ((ts_pc s)(i := pc)) k \<noteq> Stealing"
    using inv idle(1) by (auto simp: detect_inv_def busy_def)
  moreover have "ts_injector s = [] \<and> (\<forall>j<cpus. ts_queue s j = [] \<and> resting (((ts_pc s)(i := pc)) j))"
    if "\<exists>k<cpus. ((ts_pc s)(i := pc)) k = Returned"
  proof -
    have "\<exists>k<cpus. ts_pc s k = Returned" using that idle(3) by (auto split: if_splits)
    then have "ts_injector s = [] \<and> (\<forall>j<cpus. ts_queue s j = [] \<and> resting (ts_pc s j))"
      using inv by (simp add: detect_inv_def)
    then show ?thesis using uncounted_resting [OF idle(2)] by simp
  qed
  ultimately show ?thesis unfolding detect_inv_def goto_sel by blast
qed

lemma detect_inv_step:
  assumes inv: "detect_inv cpus s" and i: "i < cpus" and cpus: "cpus < 2 ^ 64"
    and st: "tstep p sp mem i s s'"
  shows "detect_inv cpus s'"
proof -
  have count: "unat (ts_active s) = card (active_set cpus s)"
    and queues: "\<forall>i<cpus. ts_queue s i \<noteq> [] \<longrightarrow> busy (ts_pc s i) \<and> ts_pc s i \<noteq> Stealing"
    and work: "ts_injector s \<noteq> [] \<longrightarrow> (\<exists>i<cpus. busy (ts_pc s i))"
    and ret: "(\<exists>i<cpus. ts_pc s i = Returned) \<longrightarrow>
        ts_injector s = [] \<and> (\<forall>j<cpus. ts_queue s j = [] \<and> resting (ts_pc s j))"
    using inv by (simp_all add: detect_inv_def)
  note same = count_same [OF i count]
  show ?thesis
    using st
  proof cases
    case (pop v vs)
    then show ?thesis
      using queues work ret same [of s' "Visiting v"] i by (auto simp: detect_inv_def busy_def)
  next
    case pop_none
    then show ?thesis
      using queues work ret same [of s' Stealing] i by (auto simp: detect_inv_def busy_def)
  next
    case (steal v batch rest)
    then show ?thesis
      using queues work ret same [of s' "Visiting v"] i by (auto simp: detect_inv_def busy_def)
  next
    case steal_empty
    then show ?thesis
      using queues work ret same [of s' Leaving] i by (auto simp: detect_inv_def busy_def)
  next
    case steal_retry
    then show ?thesis using inv by simp
  next
    case leave
    then show ?thesis
      using queues work ret count_leave [OF i count] i
      by (auto simp: detect_inv_def busy_def active_set_def)
  next
    case spin_work
    then show ?thesis using detect_inv_idle [OF inv i, of Rejoining] by simp
  next
    case spin_empty
    then show ?thesis using detect_inv_idle [OF inv i, of Counting] by simp
  next
    case count_zero
    then show ?thesis
      using no_active_resting [OF inv] uncounted_resting same [of s' Returned] i
      by (auto simp: detect_inv_def busy_def)
  next
    case count_more
    then show ?thesis using detect_inv_idle [OF inv i, of Spinning] by simp
  next
    case rejoin
    then show ?thesis
      using queues work ret count_rejoin [OF i cpus count] i
      by (auto simp: detect_inv_def busy_def active_set_def)
  next
    case object
    then obtain pc' where f: "ts_pc s' = (ts_pc s)(i := pc')" "busy pc'" "pc' \<noteq> Stealing" "pc' \<noteq> Returned"
      "\<not> resting (ts_pc s i)" "busy (ts_pc s i)" "ts_queue s' = ts_queue s" "ts_active s' = ts_active s"
      "ts_injector s' = ts_injector s \<or> (\<exists>v. ts_injector s' = ts_injector s @ [v])"
      by (rule object_step_frame)
    have "\<not> (\<exists>j<cpus. ts_pc s j = Returned)" using ret f(5) i by blast
    moreover have "\<exists>j<cpus. busy (ts_pc s' j)" using f(1,2) i by (intro exI [of _ i]) simp
    ultimately show ?thesis
      using queues f(1-4,6-8) same [OF f(1)] i by (auto simp: detect_inv_def busy_def)
  qed
qed

lemma detect_inv_reach:
  assumes "treach p sp mem cpus roots s" and "0 < cpus" and "cpus < 2 ^ 64"
  shows "detect_inv cpus s"
  using assms
  by (induction rule: treach.induct) (auto intro: detect_inv_init detect_inv_step)

section \<open>Marking\<close>

text \<open>Objects whose cell carries the mark state, references still to be visited, and the
  references an object being scanned has yet to load.\<close>

definition marked :: "'q immix_space \<Rightarrow> tstate \<Rightarrow> object_reference \<Rightarrow> bool" where
  "marked sp s r \<longleftrightarrow> in_trace_range sp r \<and>
     sm_addresses (tm_map (ts_map s)) ! mark_slot sp r = tm_mark_state (ts_map s)"

abbreviation unmarked_at_start :: "'q immix_space \<Rightarrow> object_reference \<Rightarrow> bool" where
  "unmarked_at_start sp r \<equiv> is_untraced_and_valid (sp_trace_map sp) (oref_as_usize r)"

fun holds :: "worker_pc \<Rightarrow> object_reference set" where
  "holds (Visiting v) = {v}" | "holds (Pushing r v offs) = {v}" | "holds _ = {}"

fun scans :: "worker_pc \<Rightarrow> object_reference option" where
  "scans (Lining r) = Some r" | "scans (Reading r) = Some r" | "scans (Scanning r offs) = Some r"
| "scans (Pushing r v offs) = Some r" | "scans _ = None"

definition field :: "(usize \<Rightarrow> usize) \<Rightarrow> object_reference \<Rightarrow> usize \<Rightarrow> object_reference" where
  "field mem r off = ObjectReference (mem (oref_as_usize r + off))"

fun owes :: "'q immix_space \<Rightarrow> (usize \<Rightarrow> usize) \<Rightarrow> worker_pc \<Rightarrow> object_reference \<Rightarrow> object_reference set" where
  "owes sp mem (Lining r) x = (if x = r then followed sp mem r else {})"
| "owes sp mem (Reading r) x = (if x = r then followed sp mem r else {})"
| "owes sp mem (Scanning r offs) x = (if x = r then field mem r ` set offs else {})"
| "owes sp mem (Pushing r v offs) x = (if x = r then field mem r ` set offs else {})"
| "owes sp mem _ x = {}"

text \<open>The references a place mentions are reachable, and the offsets are the object's own.\<close>

fun pc_ok :: "'q immix_space \<Rightarrow> object_reference set \<Rightarrow> worker_pc \<Rightarrow> bool" where
  "pc_ok sp R (Visiting v) = (v \<in> R)"
| "pc_ok sp R (Lining r) = (r \<in> R \<and> sp_start sp \<le> to_address r \<and> to_address r < sp_end sp)"
| "pc_ok sp R (Reading r) = (r \<in> R \<and> sp_start sp \<le> to_address r \<and> to_address r < sp_end sp)"
| "pc_ok sp R (Scanning r offs) = (r \<in> R \<and> sp_start sp \<le> to_address r \<and> to_address r < sp_end sp \<and>
     set offs \<subseteq> set (obj_offsets sp r))"
| "pc_ok sp R (Pushing r v offs) = (r \<in> R \<and> sp_start sp \<le> to_address r \<and> to_address r < sp_end sp \<and>
     set offs \<subseteq> set (obj_offsets sp r) \<and> v \<in> R)"
| "pc_ok sp R _ = True"

definition todo :: "nat \<Rightarrow> tstate \<Rightarrow> object_reference set" where
  "todo cpus s = set (ts_injector s) \<union> (\<Union>i<cpus. set (ts_queue s i) \<union> holds (ts_pc s i))"

definition owed :: "nat \<Rightarrow> 'q immix_space \<Rightarrow> (usize \<Rightarrow> usize) \<Rightarrow> tstate \<Rightarrow> object_reference \<Rightarrow> object_reference set" where
  "owed cpus sp mem s r = (\<Union>i<cpus. owes sp mem (ts_pc s i) r)"

text \<open>The objects whose fields have been, or are being, scanned: the marked ones, except that a root
  whose cell carried the mark state from the start still has to be taken.\<close>

definition handled :: "nat \<Rightarrow> 'q immix_space \<Rightarrow> tstate \<Rightarrow> object_reference \<Rightarrow> bool" where
  "handled cpus sp s r \<longleftrightarrow> marked sp s r \<and> (r \<in> todo cpus s \<longrightarrow> unmarked_at_start sp r)"

definition panicked :: "nat \<Rightarrow> tstate \<Rightarrow> bool" where
  "panicked cpus s \<longleftrightarrow> (\<exists>i<cpus. \<exists>e. ts_pc s i = Panicked e)"

definition lining :: "nat \<Rightarrow> tstate \<Rightarrow> object_reference \<Rightarrow> bool" where
  "lining cpus s r \<longleftrightarrow> (\<exists>i<cpus. ts_pc s i = Lining r)"

text \<open>The reference bits of an object are looked at after its line has been marked; the trace goes
  on only when they are one of the three patterns.\<close>

definition known_bits :: "'q immix_space \<Rightarrow> object_reference \<Rightarrow> bool" where
  "known_bits sp r \<longleftrightarrow> ref_byte sp r AND 63 \<in> {1, 3, 15}"

definition unread :: "nat \<Rightarrow> tstate \<Rightarrow> object_reference \<Rightarrow> bool" where
  "unread cpus s r \<longleftrightarrow> (\<exists>i<cpus. ts_pc s i = Lining r \<or> ts_pc s i = Reading r)"

definition mark_inv :: "nat \<Rightarrow> 'q immix_space \<Rightarrow> (usize \<Rightarrow> usize) \<Rightarrow> object_reference list \<Rightarrow> tstate \<Rightarrow> bool" where
  "mark_inv cpus sp mem roots s \<longleftrightarrow>
     (let R = reach (set roots) (followed sp mem) in
      tracing sp (ts_map s) (ts_lines s) \<and>
      todo cpus s \<subseteq> R \<and> (\<forall>i<cpus. pc_ok sp R (ts_pc s i)) \<and>
      (\<forall>v\<in>set roots. v \<in> todo cpus s \<or> marked sp s v) \<and>
      (\<forall>r\<in>R. handled cpus sp s r \<longrightarrow>
         (\<forall>v\<in>followed sp mem r. v \<in> todo cpus s \<or> marked sp s v \<or> v \<in> owed cpus sp mem s r) \<and>
         (line_kept sp (lt_cells (ts_lines s)) r \<or> lining cpus s r) \<and>
         (known_bits sp r \<or> unread cpus s r)))"

text \<open>What a step has to show: nothing that was pending, marked or owed gets lost.\<close>

lemma mark_inv_step_rule:
  assumes inv: "mark_inv cpus sp mem roots s" and R: "R = reach (set roots) (followed sp mem)"
    and tr: "tracing sp (ts_map s') (ts_lines s')"
    and refs: "todo cpus s' \<subseteq> R" "\<forall>i<cpus. pc_ok sp R (ts_pc s' i)"
    and keep: "\<And>v. v \<in> todo cpus s \<Longrightarrow> v \<in> todo cpus s' \<or> marked sp s' v"
      "\<And>v. v \<in> R \<Longrightarrow> marked sp s v \<Longrightarrow> marked sp s' v"
    and owed: "\<And>r v. r \<in> R \<Longrightarrow> v \<in> followed sp mem r \<Longrightarrow> v \<in> owed cpus sp mem s r \<Longrightarrow>
      v \<in> todo cpus s' \<or> marked sp s' v \<or> v \<in> owed cpus sp mem s' r"
    and new: "\<And>r. r \<in> R \<Longrightarrow> handled cpus sp s' r \<Longrightarrow> handled cpus sp s r \<or> lining cpus s' r"
    and lines: "\<And>r. r \<in> R \<Longrightarrow> line_kept sp (lt_cells (ts_lines s)) r \<or> lining cpus s r \<Longrightarrow>
      line_kept sp (lt_cells (ts_lines s')) r \<or> lining cpus s' r"
    and reads: "\<And>r. unread cpus s r \<Longrightarrow> known_bits sp r \<or> unread cpus s' r"
  shows "mark_inv cpus sp mem roots s'"
proof -
  have old: "todo cpus s \<subseteq> R" "\<forall>v\<in>set roots. v \<in> todo cpus s \<or> marked sp s v"
    "\<forall>r\<in>R. handled cpus sp s r \<longrightarrow>
         (\<forall>v\<in>followed sp mem r. v \<in> todo cpus s \<or> marked sp s v \<or> v \<in> owed cpus sp mem s r) \<and>
         (line_kept sp (lt_cells (ts_lines s)) r \<or> lining cpus s r) \<and> (known_bits sp r \<or> unread cpus s r)"
    using inv by (simp_all add: mark_inv_def Let_def R)
  have "v \<in> todo cpus s' \<or> marked sp s' v" if "v \<in> set roots" for v
    using that old(2) keep R by (blast intro: reach.root)
  moreover have "(\<forall>v\<in>followed sp mem r. v \<in> todo cpus s' \<or> marked sp s' v \<or> v \<in> owed cpus sp mem s' r) \<and>
      (line_kept sp (lt_cells (ts_lines s')) r \<or> lining cpus s' r) \<and>
      (known_bits sp r \<or> unread cpus s' r)" if r: "r \<in> R" "handled cpus sp s' r" for r
    using new [OF r]
  proof
    assume m: "handled cpus sp s r"
    have succ: "followed sp mem r \<subseteq> R" using r(1) R by (auto intro: reach.edge)
    then have "v \<in> todo cpus s' \<or> marked sp s' v \<or> v \<in> owed cpus sp mem s' r" if "v \<in> followed sp mem r" for v
      using that old(3) r(1) m keep owed by blast
    then show ?thesis using old(3) r(1) m lines reads by blast
  next
    assume "lining cpus s' r"
    then obtain i where "i < cpus" "ts_pc s' i = Lining r" by (auto simp: lining_def)
    then have "followed sp mem r \<subseteq> owed cpus sp mem s' r" unfolding owed_def by force
    moreover have "unread cpus s' r" using \<open>lining cpus s' r\<close> by (auto simp: lining_def unread_def)
    ultimately show ?thesis using \<open>lining cpus s' r\<close> by blast
  qed
  ultimately show ?thesis using tr refs by (simp add: mark_inv_def Let_def R)
qed

text \<open>The share of one worker in the pending and owed references.\<close>

definition todo_but :: "nat \<Rightarrow> nat \<Rightarrow> tstate \<Rightarrow> object_reference set" where
  "todo_but cpus i s = (\<Union>j\<in>{..<cpus} - {i}. set (ts_queue s j) \<union> holds (ts_pc s j))"

lemma todo_split:
  "i < cpus \<Longrightarrow> todo cpus s = set (ts_injector s) \<union> set (ts_queue s i) \<union> holds (ts_pc s i) \<union> todo_but cpus i s"
  unfolding todo_def todo_but_def by blast

lemma todo_but_cong:
  "ts_pc s' = (ts_pc s)(i := pc) \<Longrightarrow> ts_queue s' = (ts_queue s)(i := q) \<Longrightarrow>
     todo_but cpus i s' = todo_but cpus i s"
  by (simp add: todo_but_def)

lemma owed_upd:
  assumes "i < cpus" and "ts_pc s' = (ts_pc s)(i := pc)" and "v \<in> owed cpus sp mem s r"
  shows "v \<in> owes sp mem (ts_pc s i) r \<or> v \<in> owed cpus sp mem s' r"
  using assms unfolding owed_def by (auto split: if_splits)

lemma owes_owed: "i < cpus \<Longrightarrow> v \<in> owes sp mem (ts_pc s i) r \<Longrightarrow> v \<in> owed cpus sp mem s r"
  unfolding owed_def by blast

text \<open>A step that leaves the tables alone.\<close>

lemma mark_inv_move:
  assumes inv: "mark_inv cpus sp mem roots s" and R: "R = reach (set roots) (followed sp mem)" and i: "i < cpus"
    and s': "ts_pc s' = (ts_pc s)(i := pc)" "ts_queue s' = (ts_queue s)(i := q)"
      "ts_map s' = ts_map s" "ts_lines s' = ts_lines s"
    and not_lining: "\<And>r. ts_pc s i \<noteq> Lining r"
    and known: "\<And>r. ts_pc s i = Reading r \<Longrightarrow> known_bits sp r"
    and ok: "pc_ok sp R pc"
    and new: "set (ts_injector s') \<union> set q \<union> holds pc \<subseteq> set (ts_injector s) \<union> set (ts_queue s i) \<union> holds (ts_pc s i) \<union> R"
    and kept: "set (ts_injector s) \<union> set (ts_queue s i) \<union> holds (ts_pc s i) \<subseteq> set (ts_injector s') \<union> set q \<union> holds pc"
    and owe: "\<And>r v. v \<in> followed sp mem r \<Longrightarrow> v \<in> owes sp mem (ts_pc s i) r \<Longrightarrow>
      v \<in> set (ts_injector s') \<union> holds pc \<or> marked sp s v \<or> v \<in> owes sp mem pc r"
  shows "mark_inv cpus sp mem roots s'"
proof -
  have old: "tracing sp (ts_map s) (ts_lines s)" "todo cpus s \<subseteq> R"
    "\<forall>i<cpus. pc_ok sp R (ts_pc s i)"
    using inv by (simp_all add: mark_inv_def Let_def R)
  note split = todo_split [OF i, of s] todo_split [OF i, of s'] todo_but_cong [OF s'(1,2), of cpus]
  have m: "marked sp s' = marked sp s" by (simp add: marked_def s'(3) fun_eq_iff)
  have l: "lining cpus s r \<Longrightarrow> lining cpus s' r" for r
    using not_lining by (auto simp: lining_def s'(1)) metis
  have u: "unread cpus s r \<Longrightarrow> known_bits sp r \<or> unread cpus s' r" for r
    using not_lining known by (auto simp: unread_def s'(1)) metis+
  show ?thesis
  proof (rule mark_inv_step_rule [OF inv R])
    show "tracing sp (ts_map s') (ts_lines s')" using old(1) by (simp add: s'(3,4))
    show "todo cpus s' \<subseteq> R" using old(2) new unfolding split s'(1,2) by auto
    show "\<forall>i<cpus. pc_ok sp R (ts_pc s' i)" using old(3) ok by (simp add: s'(1))
    have kept': "todo cpus s \<subseteq> todo cpus s'" using kept unfolding split s'(1,2) by auto
    then show "v \<in> todo cpus s' \<or> marked sp s' v" if "v \<in> todo cpus s" for v using that by blast
    show "handled cpus sp s r \<or> lining cpus s' r" if "handled cpus sp s' r" for r
      using that kept' by (auto simp: handled_def m)
    show "v \<in> todo cpus s' \<or> marked sp s' v \<or> v \<in> owed cpus sp mem s' r"
      if "v \<in> followed sp mem r" "v \<in> owed cpus sp mem s r" for r v
      using owed_upd [OF i s'(1) that(2)]
    proof
      assume "v \<in> owes sp mem (ts_pc s i) r"
      from owe [OF that(1) this] show ?thesis
        using owes_owed [OF i, of v sp mem s' r] split(2) by (auto simp: m s'(1,2))
    qed blast
  qed (use u in \<open>auto simp: m s'(4) intro: l\<close>)
qed

lemma followed_field:
  "v \<in> followed sp mem r \<longleftrightarrow> v \<in> field mem r ` set (obj_offsets sp r) \<and> unmarked_at_start sp v"
  by (auto simp: followed_def obj_fields_def field_def)

lemma load_ref_field: "load_ref p mem (to_address r) off = Inr v \<Longrightarrow> v = field mem r off"
  by (cases p) (auto simp: load_ref_def addr_plus_def usize_add_def overflowed_def field_def split: if_splits)

lemma read_offsets_known:
  assumes "sp_start sp \<le> to_address r"
    and "bind_res (get_ref_byte p (am_cells (sp_alloc_map sp)) (sp_start sp) r)
      (\<lambda>value. ref_offsets (value AND (push_bit REF_BITS_LEN 1 - 1))) = Inr offs"
  shows "known_bits sp r"
  using assms by (auto simp: get_ref_byte_eq known_bits_def ref_offsets_eq ref_masks split: if_splits)

lemma read_offsets:
  assumes "sp_start sp \<le> to_address r"
    and "bind_res (get_ref_byte p (am_cells (sp_alloc_map sp)) (sp_start sp) r)
      (\<lambda>value. ref_offsets (value AND (push_bit REF_BITS_LEN 1 - 1))) = Inr offs"
  shows "obj_offsets sp r = offs"
  using assms by (auto simp: get_ref_byte_eq obj_offsets_def ref_masks split: if_splits)

text \<open>What the two marking steps write.\<close>

lemma visit_table:
  assumes tb: "tables_ok (with_marks sp tm lt)" and r: "sp_start sp \<le> to_address r" "to_address r < sp_end sp"
    and run: "mark_as_traced p tm (to_ptr (to_address r)) = Inr tm'"
  shows "tm' = mark_slot_in (mark_slot sp r) tm" and "mark_slot sp r < length (sm_addresses (tm_map tm))"
proof -
  have range: "in_trace_range sp r" using r by (rule space_in_trace_range)
  then have "sm_slot (tm_map tm) (to_ptr (to_address r)) = Some (mark_slot sp r)"
    using trace_slot [OF tb, of r] by (simp add: to_ptr_def)
  then show "tm' = mark_slot_in (mark_slot sp r) tm"
    using run by (simp add: mark_as_traced_ok mark_slot_in_def)
  show "mark_slot sp r < length (sm_addresses (tm_map tm))"
    using range tb by (simp add: in_trace_range_def tables_ok_def)
qed

lemma line_table:
  assumes tb: "tables_ok (with_marks sp tm lt)" and r: "sp_start sp \<le> to_address r"
    and run: "mark_line_live p lt (to_address r) = Inr lt'"
  shows "lt' = mark_line_in (line_of (sp_start sp) (to_address r)) lt"
    and "line_of (sp_start sp) (to_address r) < length (lt_cells lt)"
proof -
  show line: "line_of (sp_start sp) (to_address r) < length (lt_cells lt)"
    using mark_line_live_inv [of lt "to_address r" p lt'] run r tb by (simp add: tables_ok_def)
  then show "lt' = mark_line_in (line_of (sp_start sp) (to_address r)) lt"
    using mark_line_live_ok [of lt "to_address r" p] run r tb
    by (simp add: tables_ok_def table_ok_def mark_line_in_def)
qed

lemma mark_inv_visit:
  assumes inv: "mark_inv cpus sp mem roots s" and i: "i < cpus" and pc: "ts_pc s i = Visiting r"
    and aligned: "\<forall>x\<in>reach (set roots) (followed sp mem). 8 dvd addr_nat (to_address x)"
    and r: "sp_start sp \<le> to_address r" "to_address r < sp_end sp"
    and tm: "mark_as_traced p (ts_map s) (to_ptr (to_address r)) = Inr tm"
  shows "mark_inv cpus sp mem roots (goto i (Lining r) (s\<lparr>ts_map := tm\<rparr>))" (is "mark_inv _ _ _ _ ?s")
proof -
  define R where "R = reach (set roots) (followed sp mem)"
  have old: "tracing sp (ts_map s) (ts_lines s)" "todo cpus s \<subseteq> R" "\<forall>i<cpus. pc_ok sp R (ts_pc s i)"
    using inv by (simp_all add: mark_inv_def Let_def R_def)
  note tb = tracing_tables(1) [OF old(1)]
  have rR: "r \<in> R" using old(3) i pc by fastforce
  have range: "in_trace_range sp r" using r by (rule space_in_trace_range)
  note tm' = visit_table(1) [OF tb r tm] and len = visit_table(2) [OF tb r tm]
  have marked: "marked sp ?s x \<longleftrightarrow> x = r \<or> marked sp s x" if x: "x \<in> R" for x
  proof (cases "x = r")
    case False
    have "mark_slot sp x \<noteq> mark_slot sp r" if "in_trace_range sp x"
      using aligned_slot_inject [OF tb in_trace_range_ge [OF that] _ r(1)] aligned x rR False
      unfolding R_def by blast
    with False show ?thesis by (auto simp: marked_def tm')
  qed (use range len in \<open>simp add: marked_def tm'\<close>)
  note split = todo_split [OF i, of s] todo_split [OF i, of ?s] todo_but_cong [of ?s s i "Lining r" "ts_queue s i" cpus]
  have lin: "lining cpus ?s x" if "lining cpus s x \<or> x = r" for x
    using that pc i by (auto simp: lining_def) (metis worker_pc.distinct)
  have unread: "unread cpus ?s x" if "unread cpus s x" for x
    using that pc by (fastforce simp: unread_def)
  show ?thesis
  proof (rule mark_inv_step_rule [OF inv R_def])
    show "tracing sp (ts_map ?s) (ts_lines ?s)"
      using old(1) len by (auto simp: tm' tracing_def tables_ok_def nth_list_update)
    show "todo cpus ?s \<subseteq> R" using old(2) unfolding split by (auto simp: split(3))
    show "\<forall>i<cpus. pc_ok sp R (ts_pc ?s i)" using old(3) rR r by simp
    show "v \<in> todo cpus ?s \<or> marked sp ?s v" if "v \<in> todo cpus s" for v
      using that old(2) marked [of v] pc unfolding split by (auto simp: split(3))
    show "marked sp ?s v" if "v \<in> R" "marked sp s v" for v using that marked by blast
    show "v \<in> todo cpus ?s \<or> marked sp ?s v \<or> v \<in> owed cpus sp mem ?s x" if "v \<in> owed cpus sp mem s x" for x v
      using owed_upd [OF i _ that, of ?s "Lining r"] pc by simp
    have "todo cpus s \<subseteq> insert r (todo cpus ?s)" using pc unfolding split by (auto simp: split(3))
    then show "handled cpus sp s x \<or> lining cpus ?s x" if "x \<in> R" "handled cpus sp ?s x" for x
      using that marked lin by (auto simp: handled_def)
    show "line_kept sp (lt_cells (ts_lines ?s)) x \<or> lining cpus ?s x"
      if "line_kept sp (lt_cells (ts_lines s)) x \<or> lining cpus s x" for x
      using that lin by auto
  qed (use unread in blast)
qed

lemma mark_inv_line:
  assumes inv: "mark_inv cpus sp mem roots s" and i: "i < cpus" and pc: "ts_pc s i = Lining r"
    and lt: "mark_line_live p (ts_lines s) (to_address r) = Inr lt"
  shows "mark_inv cpus sp mem roots (goto i (Reading r) (s\<lparr>ts_lines := lt\<rparr>))" (is "mark_inv _ _ _ _ ?s")
proof -
  define R where "R = reach (set roots) (followed sp mem)"
  have old: "tracing sp (ts_map s) (ts_lines s)" "todo cpus s \<subseteq> R" "\<forall>i<cpus. pc_ok sp R (ts_pc s i)"
    using inv by (simp_all add: mark_inv_def Let_def R_def)
  note tb = tracing_tables(1) [OF old(1)]
  have r: "r \<in> R" "sp_start sp \<le> to_address r" "to_address r < sp_end sp" using old(3) i pc by fastforce+
  note lt' = line_table(1) [OF tb r(2) lt] and line = line_table(2) [OF tb r(2) lt]
  have m: "marked sp ?s = marked sp s" by (simp add: marked_def fun_eq_iff)
  have unread: "unread cpus ?s x" if "unread cpus s x" for x
  proof -
    obtain j where j: "j < cpus" "ts_pc s j = Lining x \<or> ts_pc s j = Reading x"
      using \<open>unread cpus s x\<close> by (auto simp: unread_def)
    with pc have "ts_pc ?s j = Lining x \<or> ts_pc ?s j = Reading x" by auto
    with j(1) show ?thesis unfolding unread_def by blast
  qed
  note split = todo_split [OF i, of s] todo_split [OF i, of ?s] todo_but_cong [of ?s s i "Reading r" "ts_queue s i" cpus]
  show ?thesis
  proof (rule mark_inv_step_rule [OF inv R_def])
    show "tracing sp (ts_map ?s) (ts_lines ?s)"
      using old(1) by (simp add: lt' tracing_def tables_ok_def table_ok_def)
    show "todo cpus ?s \<subseteq> R" using old(2) unfolding split by (auto simp: split(3))
    show "\<forall>i<cpus. pc_ok sp R (ts_pc ?s i)" using old(3) r by simp
    have todo: "todo cpus ?s = todo cpus s" using pc unfolding split by (auto simp: split(3))
    then show "v \<in> todo cpus ?s \<or> marked sp ?s v" if "v \<in> todo cpus s" for v using that by blast
    show "handled cpus sp s x \<or> lining cpus ?s x" if "handled cpus sp ?s x" for x
      using that by (simp add: handled_def m todo)
    show "v \<in> todo cpus ?s \<or> marked sp ?s v \<or> v \<in> owed cpus sp mem ?s x" if "v \<in> owed cpus sp mem s x" for x v
      using owed_upd [OF i _ that, of ?s "Reading r"] pc owes_owed [OF i, of v sp mem ?s x] by auto
    show "line_kept sp (lt_cells (ts_lines ?s)) x \<or> lining cpus ?s x"
      if "line_kept sp (lt_cells (ts_lines s)) x \<or> lining cpus s x" for x
    proof (cases "x = r \<or> line_kept sp (lt_cells (ts_lines s)) x")
      case True
      then show ?thesis using line_kept_mark [where sp = sp and r = x, OF line] by (auto simp: lt')
    next
      case False
      with that obtain j where j: "j < cpus" "ts_pc s j = Lining x" by (auto simp: lining_def)
      with False pc have "j \<noteq> i" by auto
      with j show ?thesis by (auto simp: lining_def)
    qed
  qed (use unread in \<open>auto simp: m\<close>)
qed

lemma panicked_goto: "i < cpus \<Longrightarrow> panicked cpus (goto i (Panicked e) s)"
  by (auto simp: panicked_def)

lemma mark_inv_object:
  assumes inv: "mark_inv cpus sp mem roots s" and i: "i < cpus"
    and aligned: "\<forall>x\<in>reach (set roots) (followed sp mem). 8 dvd addr_nat (to_address x)"
    and st: "object_step p sp mem i (ts_pc s i) s = Some s'"
  shows "panicked cpus s' \<or> mark_inv cpus sp mem roots s'"
proof -
  define R where "R = reach (set roots) (followed sp mem)"
  note move = mark_inv_move [OF inv R_def i]
  have tr: "tracing sp (ts_map s) (ts_lines s)" and ok: "pc_ok sp R (ts_pc s i)"
    using inv i by (simp_all add: mark_inv_def Let_def R_def)
  show ?thesis
  proof (cases "ts_pc s i")
    case (Visiting r)
    then show ?thesis
      using st mark_inv_visit [OF inv i Visiting aligned, of p] panicked_goto [OF i]
      by (auto simp: guard_res_def bind_res_def split: sum.splits if_splits)
  next
    case (Lining r)
    then show ?thesis
      using st mark_inv_line [OF inv i Lining, of p] panicked_goto [OF i] by (auto split: sum.splits)
  next
    case (Reading r)
    show ?thesis
    proof (cases "bind_res (get_ref_byte p (am_cells (sp_alloc_map sp)) (sp_start sp) r)
        (\<lambda>value. ref_offsets (value AND (push_bit REF_BITS_LEN 1 - 1)))")
      case (Inl e)
      with st Reading show ?thesis using panicked_goto [OF i] by auto
    next
      case (Inr offs)
      have offs: "obj_offsets sp r = offs" using read_offsets [OF _ Inr] ok Reading by simp
      have "mark_inv cpus sp mem roots (goto i (Scanning r offs) s)"
        using ok Reading offs read_offsets_known [OF _ Inr]
        by (intro move [where q = "ts_queue s i"]) (auto simp: followed_field split: if_splits)
      with st Reading Inr show ?thesis by auto
    qed
  next
    case (Pushing r v offs)
    then have "mark_inv cpus sp mem roots (goto i (Scanning r offs) (s\<lparr>ts_injector := ts_injector s @ [v]\<rparr>))"
      using ok by (intro move [where q = "ts_queue s i"]) (auto split: if_splits)
    with st Pushing show ?thesis by auto
  next
    case (Scanning r l)
    show ?thesis
    proof (cases l)
      case Nil
      then have "mark_inv cpus sp mem roots (goto i Popping s)"
        using Scanning by (intro move [where q = "ts_queue s i"]) (auto split: if_splits)
      with st Scanning Nil show ?thesis using panicked_goto [OF i] by (auto split: sum.splits)
    next
      case (Cons off offs)
      show ?thesis
      proof (cases "load_ref p mem (to_address r) off")
        case (Inl e)
        with st Scanning Cons show ?thesis using panicked_goto [OF i] by auto
      next
        case (Inr v)
        note v = load_ref_field [OF Inr] trace_get [OF tracing_tables(1) [OF tr], of v]
        have rR: "r \<in> R" "off \<in> set (obj_offsets sp r)" "set offs \<subseteq> set (obj_offsets sp r)"
          "sp_start sp \<le> to_address r" "to_address r < sp_end sp"
          using ok Scanning Cons by auto
        show ?thesis
        proof (cases "is_untraced_and_valid (ts_map s) (oref_as_usize v)")
          case True
          then have "v \<in> followed sp mem r" using v rR(2) tracing_untraced [OF tr] by (simp add: followed_field)
          then have "v \<in> R" using rR(1) unfolding R_def by (rule reach.edge [rotated])
          then have "mark_inv cpus sp mem roots (goto i (Pushing r v offs) s)"
            using rR v(1) Scanning Cons by (intro move [where q = "ts_queue s i"]) (auto split: if_splits)
          with st Scanning Cons Inr True show ?thesis by auto
        next
          case False
          then have "v \<in> followed sp mem x \<Longrightarrow> marked sp s v" for x
            using v(2) trace_get_start [OF tracing_tables(2) [OF tr]] by (simp add: followed_field marked_def)
          then have "mark_inv cpus sp mem roots (goto i (Scanning r offs) s)"
            using rR v(1) Scanning Cons by (intro move [where q = "ts_queue s i"]) (auto split: if_splits)
          with st Scanning Cons Inr False show ?thesis by auto
        qed
      qed
    qed
  qed (use st in simp_all)
qed

lemma mark_inv_tstep:
  assumes inv: "mark_inv cpus sp mem roots s" and i: "i < cpus"
    and aligned: "\<forall>x\<in>reach (set roots) (followed sp mem). 8 dvd addr_nat (to_address x)"
    and st: "tstep p sp mem i s s'"
  shows "panicked cpus s' \<or> mark_inv cpus sp mem roots s'"
proof -
  define R where "R = reach (set roots) (followed sp mem)"
  note move = mark_inv_move [OF inv R_def i]
  have R: "todo cpus s \<subseteq> R" using inv by (simp add: mark_inv_def Let_def R_def)
  show ?thesis
    using st
  proof cases
    case (pop v vs)
    then have "v \<in> R" using R todo_split [OF i, of s] by auto
    with pop show ?thesis by (intro disjI2 move [where q = vs and pc = "Visiting v"]) auto
  next
    case (steal v batch rest)
    then have "v \<in> R" using R todo_split [OF i, of s] by auto
    with steal show ?thesis
      by (intro disjI2 move [where q = "ts_queue s i @ batch" and pc = "Visiting v"]) auto
  next
    case steal_retry
    then show ?thesis using inv by simp
  next
    case object
    then show ?thesis by (rule mark_inv_object [OF inv i aligned])
  next
    case pop_none
    then show ?thesis by (intro disjI2 move [where q = "ts_queue s i" and pc = Stealing]) auto
  next
    case steal_empty
    then show ?thesis by (intro disjI2 move [where q = "ts_queue s i" and pc = Leaving]) auto
  next
    case leave
    then show ?thesis by (intro disjI2 move [where q = "ts_queue s i" and pc = Spinning]) auto
  next
    case spin_work
    then show ?thesis by (intro disjI2 move [where q = "ts_queue s i" and pc = Rejoining]) auto
  next
    case spin_empty
    then show ?thesis by (intro disjI2 move [where q = "ts_queue s i" and pc = Counting]) auto
  next
    case count_zero
    then show ?thesis by (intro disjI2 move [where q = "ts_queue s i" and pc = Returned]) auto
  next
    case count_more
    then show ?thesis by (intro disjI2 move [where q = "ts_queue s i" and pc = Spinning]) auto
  next
    case rejoin
    then show ?thesis by (intro disjI2 move [where q = "ts_queue s i" and pc = Stealing]) auto
  qed
qed

lemma panicked_stable: "panicked cpus s \<Longrightarrow> tstep p sp mem i s s' \<Longrightarrow> panicked cpus s'"
proof -
  assume "panicked cpus s" and st: "tstep p sp mem i s s'"
  then obtain j e where j: "j < cpus" "ts_pc s j = Panicked e" by (auto simp: panicked_def)
  have "ts_pc s' j = Panicked e"
    using st j(2)
  proof cases
    case object
    then show ?thesis
    proof (rule object_step_frame)
      fix pc' assume "ts_pc s' = (ts_pc s)(i := pc')" and "\<not> resting (ts_pc s i)"
      moreover have "i \<noteq> j" using object j(2) by auto
      ultimately show ?thesis using j(2) by simp
    qed
  qed auto
  with j(1) show ?thesis by (auto simp: panicked_def)
qed

lemma mark_inv_init:
  assumes "tables_ok sp"
  shows "mark_inv cpus sp mem roots (workers_start cpus roots sp)" (is "mark_inv _ _ _ _ ?s")
proof -
  have todo: "todo cpus ?s = set roots" by (auto simp: todo_def workers_start_def)
  have fresh: "\<not> marked sp ?s r" if "unmarked_at_start sp r" for r
    using that trace_get_start [OF assms, of r] by (simp add: marked_def workers_start_def)
  have "\<not> handled cpus sp ?s r" if "r \<in> reach (set roots) (followed sp mem)" for r
    using that
  proof cases
    case root
    then show ?thesis using fresh [of r] unfolding handled_def todo by blast
  next
    case (edge x)
    then show ?thesis using fresh [of r] by (simp add: handled_def followed_def)
  qed
  moreover have "tracing sp (ts_map ?s) (ts_lines ?s)" using tracing_start [OF assms] by (simp add: workers_start_def)
  moreover have "pc_ok sp R (ts_pc ?s i)" for R i by (simp add: workers_start_def)
  moreover have "set roots \<subseteq> reach (set roots) (followed sp mem)" by (auto intro: reach.root)
  ultimately show ?thesis unfolding mark_inv_def Let_def todo by blast
qed

lemma mark_inv_reach:
  assumes "treach p sp mem cpus roots s" and "tables_ok sp"
    and "\<forall>r\<in>reach (set roots) (followed sp mem). 8 dvd addr_nat (to_address r)"
  shows "panicked cpus s \<or> mark_inv cpus sp mem roots s"
  using assms
proof (induction rule: treach.induct)
  case init
  then show ?case using mark_inv_init by blast
next
  case (step s i s')
  then show ?case using panicked_stable mark_inv_tstep by blast
qed

section \<open>When the workers have returned\<close>

lemma returned_detect:
  assumes "treach p sp mem cpus roots s" and "0 < cpus" "cpus < 2 ^ 64"
    and "i < cpus" and "ts_pc s i = Returned"
  shows "ts_injector s = [] \<and> (\<forall>j<cpus. ts_queue s j = [] \<and> resting (ts_pc s j))"
  using detect_inv_reach [OF assms(1-3)] assms(4,5) unfolding detect_inv_def by blast

lemma resting_empty:
  "resting pc \<Longrightarrow> holds pc = {} \<and> owes sp mem pc r = {} \<and> pc \<noteq> Lining x \<and> pc \<noteq> Reading x \<and> pc \<noteq> Panicked e"
  by (cases pc) simp_all

lemma returned_marks:
  assumes run: "treach p sp mem cpus roots s" and cpus: "0 < cpus" "cpus < 2 ^ 64"
    and tb: "tables_ok sp"
    and aligned: "\<forall>r\<in>reach (set roots) (followed sp mem). 8 dvd addr_nat (to_address r)"
    and i: "i < cpus" "ts_pc s i = Returned" and r: "r \<in> reach (set roots) (followed sp mem)"
  shows "marked sp s r \<and> is_traced p (ts_map s) (oref_as_usize r) = Inr True \<and>
    line_kept sp (lt_cells (ts_lines s)) r \<and> known_bits sp r"
proof -
  let ?R = "reach (set roots) (followed sp mem)"
  from returned_detect [OF run cpus i] have
    quiet: "ts_injector s = []" "\<forall>j<cpus. ts_queue s j = []" "\<forall>j<cpus. resting (ts_pc s j)" by auto
  then have none: "todo cpus s = {}" "owed cpus sp mem s x = {}" "\<not> lining cpus s x" "\<not> unread cpus s x" for x
    using resting_empty by (fastforce simp: todo_def owed_def lining_def unread_def)+
  have "\<not> panicked cpus s" using quiet(3) resting_empty by (auto simp: panicked_def)
  then have inv: "mark_inv cpus sp mem roots s" using mark_inv_reach [OF run tb aligned] by blast
  then have tr: "tracing sp (ts_map s) (ts_lines s)"
    and roots: "\<forall>v\<in>set roots. marked sp s v"
    and succ: "\<forall>x\<in>?R. marked sp s x \<longrightarrow> (\<forall>v\<in>followed sp mem x. marked sp s v) \<and>
      line_kept sp (lt_cells (ts_lines s)) x \<and> known_bits sp x"
    using none by (auto simp: mark_inv_def Let_def handled_def)
  from r have m: "marked sp s r"
  proof induction
    case (root x)
    then show ?case using roots by blast
  next
    case (edge x y)
    then show ?case using succ by blast
  qed
  then have "is_traced p (ts_map s) (oref_as_usize r) = Inr True"
    using is_traced_ok(1) [of "ts_map s" "oref_as_usize r" "mark_slot sp r" p] trace_slot [OF tracing_tables(1) [OF tr], of r]
    by (simp add: marked_def)
  then show ?thesis using succ m r by blast
qed

lemma panic_blocks_return:
  assumes "treach p sp mem cpus roots s" and "0 < cpus" "cpus < 2 ^ 64" and "panicked cpus s" and "i < cpus"
  shows "ts_pc s i \<noteq> Returned"
proof
  assume "ts_pc s i = Returned"
  from returned_detect [OF assms(1-3,5) this] assms(4) resting_empty show False
    by (auto simp: panicked_def)
qed

end
