(* ===== verification/Trace_Spec.thy ===== *)
theory Trace_Spec
  imports Trace_Workers
begin

text \<open>
  What a trace promises, whoever carries it out: the cells of exactly the objects that can be
  reached from the roots along followed references get the mark state, and exactly their lines,
  with the line after each, become retained. Both the
  one-at-a-time trace and the worker threads implement this specification, so they agree.
\<close>

section \<open>The specification\<close>

definition trace_spec ::
  "object_reference set \<Rightarrow> 'q immix_space \<Rightarrow> trace_map \<Rightarrow> line_mark_table \<Rightarrow> bool" where
  "trace_spec R sp tm lt \<longleftrightarrow>
     tm = (sp_trace_map sp)\<lparr>tm_map := (tm_map (sp_trace_map sp))
       \<lparr>sm_addresses := map (\<lambda>j. if j \<in> mark_slot sp ` R then tm_mark_state (sp_trace_map sp)
          else sm_addresses (tm_map (sp_trace_map sp)) ! j)
        [0..<length (sm_addresses (tm_map (sp_trace_map sp)))]\<rparr>\<rparr> \<and>
     length (lt_cells lt) = length (sp_cells sp) \<and>
     (\<forall>j<length (sp_cells sp). retained (lt_cells lt ! j) \<longleftrightarrow> retained (sp_cells sp ! j) \<or>
        (\<exists>r\<in>R. j = line_of (sp_start sp) (to_address r) \<or> j = Suc (line_of (sp_start sp) (to_address r))))"

text \<open>The part of it that holds at every moment of a trace.\<close>

definition only_cells :: "object_reference set \<Rightarrow> 'q immix_space \<Rightarrow> trace_map \<Rightarrow> bool" where
  "only_cells R sp tm \<longleftrightarrow>
     tm_mark_state tm = tm_mark_state (sp_trace_map sp) \<and>
     sm_offset (tm_map tm) = sm_offset (tm_map (sp_trace_map sp)) \<and>
     length (sm_addresses (tm_map tm)) = length (sm_addresses (tm_map (sp_trace_map sp))) \<and>
     (\<forall>j<length (sm_addresses (tm_map (sp_trace_map sp))). j \<notin> mark_slot sp ` R \<longrightarrow>
        sm_addresses (tm_map tm) ! j = sm_addresses (tm_map (sp_trace_map sp)) ! j)"

definition only_lines :: "object_reference set \<Rightarrow> 'q immix_space \<Rightarrow> line_mark_table \<Rightarrow> bool" where
  "only_lines R sp lt \<longleftrightarrow>
     length (lt_cells lt) = length (sp_cells sp) \<and>
     (\<forall>j<length (sp_cells sp). (retained (sp_cells sp ! j) \<longrightarrow> retained (lt_cells lt ! j)) \<and>
        (retained (lt_cells lt ! j) \<longrightarrow> retained (sp_cells sp ! j) \<or>
          (\<exists>r\<in>R. j = line_of (sp_start sp) (to_address r) \<or> j = Suc (line_of (sp_start sp) (to_address r)))))"

lemma only_init: "only_cells R sp (sp_trace_map sp)" "only_lines R sp (sp_line_mark_table sp)"
  by (auto simp: only_cells_def only_lines_def)

lemma only_cells_mark:
  assumes "only_cells R sp tm" and "r \<in> R"
  shows "only_cells R sp (mark_slot_in (mark_slot sp r) tm)"
proof -
  have "mark_slot sp r \<noteq> j" if "j \<notin> mark_slot sp ` R" for j using that assms(2) by blast
  then show ?thesis using assms(1) by (simp add: only_cells_def)
qed

lemma only_lines_mark:
  assumes "only_lines R sp lt" and "r \<in> R" and "line_of (sp_start sp) (to_address r) < length (lt_cells lt)"
  shows "only_lines R sp (mark_line_in (line_of (sp_start sp) (to_address r)) lt)"
proof -
  let ?l = "line_of (sp_start sp) (to_address r)"
  have len: "length (lt_cells lt) = length (sp_cells sp)" using assms(1) by (simp add: only_lines_def)
  have "(retained (sp_cells sp ! j) \<longrightarrow> retained (mark_cells ?l (lt_cells lt) ! j)) \<and>
      (retained (mark_cells ?l (lt_cells lt) ! j) \<longrightarrow> retained (sp_cells sp ! j) \<or>
        (\<exists>r\<in>R. j = line_of (sp_start sp) (to_address r) \<or> j = Suc (line_of (sp_start sp) (to_address r))))"
    if "j < length (sp_cells sp)" for j
    using that assms len nth_mark_cells [of j "lt_cells lt" ?l] by (auto simp: only_lines_def)
  then show ?thesis using len by (simp add: only_lines_def)
qed

text \<open>Once every reachable object is marked, the specification holds.\<close>

lemma only_complete:
  fixes sp :: "'q immix_space"
  assumes cells: "only_cells R sp tm" and lines: "only_lines R sp lt"
    and "\<forall>r\<in>R. sm_addresses (tm_map tm) ! mark_slot sp r = tm_mark_state tm"
    and "\<forall>r\<in>R. line_kept sp (lt_cells lt) r"
  shows "trace_spec R sp tm lt"
proof -
  let ?n = "length (sm_addresses (tm_map (sp_trace_map sp)))"
  have cs: "sm_addresses (tm_map tm) = map (\<lambda>j. if j \<in> mark_slot sp ` R then tm_mark_state (sp_trace_map sp)
      else sm_addresses (tm_map (sp_trace_map sp)) ! j) [0..<?n]"
    using assms(3) cells unfolding only_cells_def by (intro nth_equalityI) auto
  have "tm = (sp_trace_map sp)\<lparr>tm_map := (tm_map (sp_trace_map sp))\<lparr>sm_addresses := sm_addresses (tm_map tm)\<rparr>\<rparr>"
    using cells unfolding only_cells_def by (intro trace_map.equality safe_address_map.equality) simp_all
  moreover have "retained (lt_cells lt ! j) \<longleftrightarrow> retained (sp_cells sp ! j) \<or>
      (\<exists>r\<in>R. j = line_of (sp_start sp) (to_address r) \<or> j = Suc (line_of (sp_start sp) (to_address r)))"
    if "j < length (sp_cells sp)" for j
    using that lines assms(4) by (fastforce simp: only_lines_def line_kept_def Let_def)
  ultimately show ?thesis
    using lines unfolding trace_spec_def cs only_lines_def by blast
qed

text \<open>The specification fixes the trace map and which lines are retained.\<close>

lemma trace_spec_unique:
  assumes "trace_spec R sp tm lt" and "trace_spec R sp tm' lt'"
  shows "tm = tm' \<and> map retained (lt_cells lt) = map retained (lt_cells lt')"
  using assms by (auto simp: trace_spec_def intro!: nth_equalityI)

section \<open>The trace one object at a time\<close>

lemma trace_loop_only_marks:
  fixes sp :: "'q immix_space"
  assumes "tracing sp tm lt"
    and "set work \<subseteq> reach (set roots) (followed sp mem)"
    and "only_cells (reach (set roots) (followed sp mem)) sp tm"
    and "only_lines (reach (set roots) (followed sp mem)) sp lt"
    and "trace_loop p sp mem sched k work tm lt = Some (Inr (tm1, lt1))"
  shows "only_cells (reach (set roots) (followed sp mem)) sp tm1 \<and>
    only_lines (reach (set roots) (followed sp mem)) sp lt1"
  using assms
proof (induction k work tm lt rule: trace_loop_induct [where p = p and mem = mem and sched = sched])
  case (finish k tm lt)
  then show ?case by (simp add: trace_loop.simps)
next
  case (fail k work tm lt e)
  then show ?case by (simp add: trace_loop.simps)
next
  case (step k work tm lt tm' lt' pushed r)
  have r: "r \<in> reach (set roots) (followed sp mem)" using pick_less [OF step(2)] step(3,11) by auto
  have line: "line_of (sp_start sp) (to_address r) < length (lt_cells lt)"
    using tracing_tables(1) [OF step(1)] step(4) by (simp add: wf_object_def tables_ok_def table_ok_def)
  have "set pushed \<subseteq> followed sp mem r" unfolding step(7) by (rule pushed_followed [OF step(9)])
  then have sub: "set (without (pick sched k work) work @ pushed) \<subseteq> reach (set roots) (followed sp mem)"
    using step(11) r set_without [OF pick_less [OF step(2), of sched k]] by (auto intro: reach.edge)
  have "trace_loop p sp mem sched (Suc k) (without (pick sched k work) work @ pushed) tm' lt' =
      Some (Inr (tm1, lt1))"
    using step(2,3,8,14) by (subst (asm) trace_loop.simps) simp
  from step(10) [OF sub _ _ this] only_cells_mark [OF step(12) r] only_lines_mark [OF step(13) r line]
  show ?case by (simp add: step(5,6))
qed

lemma start_trace_spec:
  fixes sp :: "'q immix_space"
  assumes tb: "tables_ok sp" and run: "start_trace p sched mem roots sp = Some (Inr sp')"
    and aligned: "\<forall>r\<in>reach (set roots) (followed sp mem). 8 dvd addr_nat (to_address r)"
  shows "trace_spec (reach (set roots) (followed sp mem)) sp (sp_trace_map sp') (sp_line_mark_table sp')"
proof -
  let ?R = "reach (set roots) (followed sp mem)"
  obtain tm lt where tl: "trace_loop p sp mem sched 0 roots (sp_trace_map sp) (sp_line_mark_table sp) =
      Some (Inr (tm, lt))" and sp': "sp' = with_marks sp tm lt"
    by (rule start_trace_Inr [OF run])
  have "set roots \<subseteq> ?R" by (auto intro: reach.root)
  from trace_loop_only_marks [OF tracing_start [OF tb] this only_init tl]
  have "only_cells ?R sp tm" "only_lines ?R sp lt" by simp_all
  moreover have inv: "trace_inv sp mem roots ?R [] tm lt"
    by (rule trace_loop_marks [OF tracing_start [OF tb] trace_inv_init aligned tl])
  then have "\<forall>r\<in>?R. sm_addresses (tm_map tm) ! mark_slot sp r = tm_mark_state tm"
    using space_in_trace_range [of sp] by (auto simp: trace_inv_def wf_object_def)
  ultimately have "trace_spec ?R sp tm lt"
    using inv by (intro only_complete) (simp_all add: trace_inv_def)
  then show ?thesis by (simp add: sp')
qed

section \<open>The worker threads\<close>

text \<open>Only two places of a worker write to the tables.\<close>

lemma tstep_tables:
  assumes "tstep p sp mem i s s'"
  shows "ts_map s' = ts_map s \<and> ts_lines s' = ts_lines s \<or>
    (\<exists>r. ts_pc s i = Visiting r \<and> sp_start sp \<le> to_address r \<and> to_address r < sp_end sp \<and>
      mark_as_traced p (ts_map s) (to_ptr (to_address r)) = Inr (ts_map s') \<and> ts_lines s' = ts_lines s) \<or>
    (\<exists>r. ts_pc s i = Lining r \<and> mark_line_live p (ts_lines s) (to_address r) = Inr (ts_lines s') \<and>
      ts_map s' = ts_map s)"
  using assms
proof cases
  case object
  then show ?thesis
    by (cases "(p, sp, mem, i, ts_pc s i, s)" rule: object_step.cases)
      (auto simp: guard_res_def bind_res_def split: sum.splits if_splits)
qed simp_all

lemma workers_only_step:
  assumes inv: "mark_inv cpus sp mem roots s" and i: "i < cpus" and st: "tstep p sp mem i s s'"
    and R: "R = reach (set roots) (followed sp mem)"
    and only: "only_cells R sp (ts_map s)" "only_lines R sp (ts_lines s)"
  shows "only_cells R sp (ts_map s') \<and> only_lines R sp (ts_lines s')"
proof -
  have tr: "tracing sp (ts_map s) (ts_lines s)" and ok: "pc_ok sp R (ts_pc s i)"
    using inv i by (simp_all add: mark_inv_def Let_def R)
  note tb = tracing_tables(1) [OF tr]
  from tstep_tables [OF st] show ?thesis
  proof (elim disjE exE conjE)
    fix r assume pc: "ts_pc s i = Visiting r" and r: "sp_start sp \<le> to_address r" "to_address r < sp_end sp"
      and run: "mark_as_traced p (ts_map s) (to_ptr (to_address r)) = Inr (ts_map s')"
      and same: "ts_lines s' = ts_lines s"
    show ?thesis
      using only_cells_mark [OF only(1), of r] only(2) ok pc same visit_table(1) [OF tb r run] by simp
  next
    fix r assume pc: "ts_pc s i = Lining r" and run: "mark_line_live p (ts_lines s) (to_address r) = Inr (ts_lines s')"
      and same: "ts_map s' = ts_map s"
    have r: "r \<in> R" "sp_start sp \<le> to_address r" using ok pc by simp_all
    show ?thesis
      using only_lines_mark [OF only(2) r(1) line_table(2) [OF tb r(2) run]] only(1) same
        line_table(1) [OF tb r(2) run] by simp
  qed (use only in simp_all)
qed

lemma workers_only_reach:
  assumes "treach p sp mem cpus roots s" and "tables_ok sp"
    and "\<forall>r\<in>reach (set roots) (followed sp mem). 8 dvd addr_nat (to_address r)"
  shows "panicked cpus s \<or> only_cells (reach (set roots) (followed sp mem)) sp (ts_map s) \<and>
    only_lines (reach (set roots) (followed sp mem)) sp (ts_lines s)"
  using assms
proof (induction rule: treach.induct)
  case init
  then show ?case using only_init [of _ sp] by (simp add: workers_start_def)
next
  case (step s i s')
  have "panicked cpus s \<or> mark_inv cpus sp mem roots s"
    using mark_inv_reach step by blast
  then show ?case
    using step panicked_stable workers_only_step [OF _ step(2,3) refl] by blast
qed

lemma workers_spec:
  assumes run: "treach p sp mem cpus roots s" and cpus: "0 < cpus" "cpus < 2 ^ 64"
    and tb: "tables_ok sp"
    and aligned: "\<forall>r\<in>reach (set roots) (followed sp mem). 8 dvd addr_nat (to_address r)"
    and i: "i < cpus" "ts_pc s i = Returned"
  shows "trace_spec (reach (set roots) (followed sp mem)) sp (ts_map s) (ts_lines s)"
proof -
  have "\<not> panicked cpus s" using panic_blocks_return [OF run cpus _ i(1)] i(2) by blast
  then have only: "only_cells (reach (set roots) (followed sp mem)) sp (ts_map s)"
      "only_lines (reach (set roots) (followed sp mem)) sp (ts_lines s)"
    using workers_only_reach [OF run tb aligned] by auto
  note marks = returned_marks [OF run cpus tb aligned i]
  show ?thesis using only marks by (intro only_complete) (simp_all add: marked_def)
qed

end
