(* ===== verification/Gc.thy ===== *)
theory Gc
  imports Immix_Mutator Trace_Spec
begin

unbundle bit_operations_syntax

text \<open>
  \<open>src/src/heap/gc/mod.rs\<close>: root scanning, a collection, and the barrier as one thread runs
  it. What the thread reads through inline assembly (the stack pointer and the registers) is
  an argument, the record \<open>scan_env\<close>; the number of trace workers and the order in which they
  take their work are the argument \<open>sched\<close>. Where the thread waits for others that are not
  running, or for a trace that cannot end, the function does not return (\<open>None\<close>); the threads
  together are the subject of \<open>Stop_World\<close>.
\<close>

section \<open>Roots\<close>

record scan_env =
  se_stack_ptr :: usize
  se_low_water_mark :: usize
  se_regs :: "usize list"

definition set_low_water_mark :: "scan_env \<Rightarrow> scan_env" where
  "set_low_water_mark env = env\<lparr>se_low_water_mark := se_stack_ptr env\<rparr>"

definition get_low_water_mark :: "scan_env \<Rightarrow> address" where
  "get_low_water_mark env = from_ptr (se_low_water_mark env)"

definition is_valid_object :: "profile \<Rightarrow> address \<Rightarrow> address \<Rightarrow> address \<Rightarrow> u8 address_map \<Rightarrow> bool res" where
  "is_valid_object p addr start end live_map =
     (if addr \<ge> end \<or> addr < start then Inr False
      else bind_res (am_get p live_map addr) (\<lambda>v. Inr (v AND push_bit OBJ_START_BIT 1 \<noteq> 0)))"

definition push_if_valid :: "profile \<Rightarrow> 'q immix_space \<Rightarrow> address \<Rightarrow> object_reference list \<Rightarrow> object_reference list res" where
  "push_if_valid p sp value ret =
     bind_res (is_valid_object p value (sp_start sp) (sp_end sp) (sp_alloc_map sp)) (\<lambda>b.
       Inr (if b then ret @ [to_object_reference value] else ret))"

partial_function (option) stack_loop ::
  "profile \<Rightarrow> 'q immix_space \<Rightarrow> (usize \<Rightarrow> usize) \<Rightarrow> address \<Rightarrow> address \<Rightarrow> object_reference list
     \<Rightarrow> object_reference list res option" where
  "stack_loop p sp mem low_water_mark cursor ret =
     (if cursor < low_water_mark then
        (case (if 8 dvd addr_nat cursor then push_if_valid p sp (Address (mem (as_usize cursor))) ret
               else Inl (UB ''misaligned read of the stack'')) of
           Inl e \<Rightarrow> Some (Inl e)
         | Inr ret' \<Rightarrow>
             (case addr_plus p cursor POINTER_SIZE of
                Inl e \<Rightarrow> Some (Inl e)
              | Inr cursor' \<Rightarrow> stack_loop p sp mem low_water_mark cursor' ret'))
      else Some (Inr ret))"

fun scan_registers :: "profile \<Rightarrow> 'q immix_space \<Rightarrow> usize list \<Rightarrow> object_reference list \<Rightarrow> object_reference list res" where
  "scan_registers p sp [] ret = Inr ret"
| "scan_registers p sp (reg # regs) ret =
     bind_res (push_if_valid p sp (from_ptr reg) ret) (scan_registers p sp regs)"

definition stack_scan :: "profile \<Rightarrow> scan_env \<Rightarrow> (usize \<Rightarrow> usize) \<Rightarrow> 'q immix_space \<Rightarrow> object_reference list res option" where
  "stack_scan p env mem sp =
     bind_ro (stack_loop p sp mem (get_low_water_mark env) (from_ptr (se_stack_ptr env)) [])
       (\<lambda>ret. Some (scan_registers p sp (se_regs env) ret))"

section \<open>A collection\<close>

definition NO_CONTROLLER :: int where "NO_CONTROLLER = -1"

definition gc_count :: "'q world \<Rightarrow> usize" where
  "gc_count w = wd_gc_count w"

definition gc :: "profile \<Rightarrow> 'q block_queue \<Rightarrow> trace_env \<Rightarrow> 'q world \<Rightarrow> 'q world res option" where
  "gc p I sched w =
     (let w1 = w\<lparr>wd_gc_count := wd_gc_count w + 1, wd_roots := []\<rparr> in
      bind_ro (start_trace p sched (wd_mem w) (wd_roots w) (wd_space w)) (\<lambda>sp1.
      bind_ro (sweep p I sp1) (\<lambda>(sp2, printed).
        Some (Inr (w1\<lparr>wd_space := sp2\<lparr>sp_trace_map := flip_mark_state (sp_trace_map sp2)\<rparr>,
          wd_printed := wd_printed w @ printed\<rparr>)))))"

section \<open>The barrier\<close>

text \<open>The part before the thread knows whether it is the controller.\<close>

definition enter_barrier :: "profile \<Rightarrow> 'q block_queue \<Rightarrow> scan_env \<Rightarrow> 'q step" where
  "enter_barrier p I env mutator w =
     (let (m1, w1) = prepare_for_gc I mutator w in
      bind_ro (stack_scan p env (wd_mem w1) (wd_space w1)) (\<lambda>thread_roots.
        Some (Inr (m1, w1\<lparr>wd_roots := wd_roots w1 @ thread_roots\<rparr>))))"

text \<open>\<open>mutators will resume\<close>: the controller releases everybody.\<close>

definition resume_mutators :: "'q world \<Rightarrow> 'q world" where
  "resume_mutators w = w\<lparr>wd_controller := NO_CONTROLLER,
     wd_registry := update_registered (\<lambda>g. set_still_blocked (set_take_yield g False) False) (wd_registry w)\<rparr>"

definition sync_barrier ::
  "profile \<Rightarrow> 'q block_queue \<Rightarrow> trace_env \<Rightarrow> scan_env \<Rightarrow> 'q step" where
  "sync_barrier p I sched env mutator w =
     (let direct_index = int (fst (ml_id mutator)) in
      if wd_controller w \<noteq> NO_CONTROLLER then
        bind_ro (enter_barrier p I env mutator w) (\<lambda>(m1, w1).
          if wd_controller w = direct_index then Some (Inl (AssertFailed ''controller != direct_index''))
          else None)
      else
        bind_ro (enter_barrier p I env mutator (w\<lparr>wd_controller := direct_index\<rparr>)) (\<lambda>(m1, w1).
        bind_ro (Some (usize_sub p (rg_n_mutators (wd_registry w1)) 1)) (\<lambda>expected.
          if wd_stw_count w1 < expected then None
          else bind_ro (gc p I sched w1) (\<lambda>w2.
                 Some (Inr (reset m1, (resume_mutators w2)\<lparr>wd_stw_count := 0\<rparr>))))))"

section \<open>Roots are objects\<close>

text \<open>The conservative scan takes a word for a reference when its byte has the start bit.\<close>

definition starts_object :: "'q immix_space \<Rightarrow> object_reference \<Rightarrow> bool" where
  "starts_object sp r \<longleftrightarrow> sp_start sp \<le> to_address r \<and> to_address r < sp_end sp \<and>
     ref_byte sp r AND 64 \<noteq> 0"

lemma start_mask: "push_bit OBJ_START_BIT 1 = (64 :: u8)" "2 ^ OBJ_START_BIT = (64 :: u8)"
  by (simp_all add: OBJ_START_BIT_def push_bit_eq_mult)

lemma push_if_valid_ok:
  assumes tb: "tables_ok sp" and whole: "8 dvd space_size sp"
  shows "push_if_valid p sp v ret =
    Inr (ret @ filter (starts_object sp) [to_object_reference v])"
proof (cases "sp_start sp \<le> v \<and> v < sp_end sp")
  case False
  then have "v \<ge> sp_end sp \<or> v < sp_start sp" by (simp add: not_le not_less disj_commute)
  moreover have "\<not> starts_object sp (to_object_reference v)" using False by (auto simp: starts_object_def)
  ultimately show ?thesis by (simp add: push_if_valid_def is_valid_object_def)
next
  case True
  then have v: "addr_nat v - addr_nat (sp_start sp) < space_size sp"
    by (auto simp: address_le_iff address_less_iff)
  from whole obtain k where "space_size sp = 8 * k" by (elim dvdE)
  with v have "(addr_nat v - addr_nat (sp_start sp)) div 8 < space_size sp div 8"
    by (simp add: less_mult_imp_div_less mult.commute)
  then have "am_get p (sp_alloc_map sp) v = Inr (ref_byte sp (to_object_reference v))"
    using True tb
    by (simp add: am_get_def tables_ok_def diff_ok unat_drop_pointer debug_assert_def guard_res_def
        ref_byte_def Let_def)
  then show ?thesis
    using True
    by (auto simp: push_if_valid_def is_valid_object_def starts_object_def not_le not_less start_mask)
qed

lemma scan_registers_ok:
  assumes "tables_ok sp" and "8 dvd space_size sp"
  shows "scan_registers p sp regs ret =
    Inr (ret @ filter (starts_object sp) (map ObjectReference regs))"
  by (induction regs arbitrary: ret)
    (simp_all add: push_if_valid_ok [OF assms] from_ptr_def to_object_reference_def)

text \<open>The words of the stack between the stack pointer and the low water mark.\<close>

definition stack_words :: "(usize \<Rightarrow> usize) \<Rightarrow> address \<Rightarrow> address \<Rightarrow> usize list" where
  "stack_words mem cursor low_water_mark =
     map (\<lambda>i. mem (as_usize cursor + of_nat (8 * i)))
       [0..<(addr_nat low_water_mark - addr_nat cursor + 7) div 8]"

lemma stack_words_step:
  assumes "cursor < lwm" and "addr_plus p cursor POINTER_SIZE = Inr cursor'"
    and "addr_nat cursor' = addr_nat cursor + 8"
  shows "stack_words mem cursor lwm = mem (as_usize cursor) # stack_words mem cursor' lwm"
proof -
  define n where "n = (addr_nat lwm - addr_nat cursor' + 7) div 8"
  define d where "d = addr_nat lwm - addr_nat cursor"
  have "(d + 7) div 8 = Suc ((d - 8 + 7) div 8)" if "0 < d"
  proof -
    have "d + 7 = d - 1 + 8" using that by simp
    then have "(d + 7) div 8 = Suc ((d - 1) div 8)" by simp
    also have "(d - 1) div 8 = (d - 8 + 7) div 8" by (cases "8 \<le> d") simp_all
    finally show ?thesis .
  qed
  then have "(addr_nat lwm - addr_nat cursor + 7) div 8 = Suc n"
    using assms(1,3) by (simp add: n_def d_def address_less_iff)
  then have here: "stack_words mem cursor lwm = map (\<lambda>i. mem (as_usize cursor + of_nat (8 * i))) [0..<Suc n]"
    by (simp only: stack_words_def)
  have rest: "stack_words mem cursor' lwm = map (\<lambda>i. mem (as_usize cursor' + of_nat (8 * i))) [0..<n]"
    by (simp only: stack_words_def n_def)
  have "as_usize cursor' = as_usize cursor + 8"
    using assms(2) by (cases p) (auto simp: addr_plus_def usize_add_def overflowed_def POINTER_SIZE_def split: if_splits)
  moreover have "[0..<Suc n] = 0 # map Suc [0..<n]" by (simp add: upt_conv_Cons map_Suc_upt)
  ultimately show ?thesis unfolding here rest by (simp add: comp_def algebra_simps del: upt_Suc)
qed

lemma stack_loop_ok:
  assumes tb: "tables_ok sp" and whole: "8 dvd space_size sp"
    and "8 dvd addr_nat cursor" and top: "addr_nat lwm + 8 < 2 ^ 64"
  shows "stack_loop p sp mem lwm cursor ret = Some (Inr (ret @
    filter (starts_object sp) (map ObjectReference (stack_words mem cursor lwm))))"
  using assms(3)
proof (induction "addr_nat lwm - addr_nat cursor" arbitrary: cursor ret rule: less_induct)
  case less
  show ?case
  proof (cases "cursor < lwm")
    case False
    then have "stack_words mem cursor lwm = []" by (simp add: stack_words_def address_less_iff)
    with False show ?thesis by (simp add: stack_loop.simps)
  next
    case True
    then have lt: "addr_nat cursor < addr_nat lwm" by (simp add: address_less_iff)
    have "addr_nat cursor + unat POINTER_SIZE < 2 ^ 64" using lt top by (simp add: POINTER_SIZE_def)
    from addr_plus_ok [OF this, of p] obtain cursor' where
      c': "addr_plus p cursor POINTER_SIZE = Inr cursor'" "addr_nat cursor' = addr_nat cursor + 8"
      by (auto simp: POINTER_SIZE_def)
    have "8 dvd addr_nat cursor'" using less.prems c'(2) by simp
    moreover have "addr_nat lwm - addr_nat cursor' < addr_nat lwm - addr_nat cursor"
      using lt c'(2) by simp
    ultimately show ?thesis
      using less.hyps [of cursor'] less.prems True c'(1) stack_words_step [OF True c']
      by (subst stack_loop.simps)
        (simp add: push_if_valid_ok [OF tb whole] to_object_reference_def)
  qed
qed

lemma stack_scan_ok:
  assumes "tables_ok sp" and "8 dvd space_size sp"
    and "8 dvd unat (se_stack_ptr env)" and "unat (se_low_water_mark env) + 8 < 2 ^ 64"
  shows "stack_scan p env mem sp = Some (Inr (filter (starts_object sp) (map ObjectReference
    (stack_words mem (from_ptr (se_stack_ptr env)) (get_low_water_mark env) @ se_regs env))))"
  using assms stack_loop_ok [OF assms(1,2), of "from_ptr (se_stack_ptr env)" "get_low_water_mark env" p mem "[]"]
  by (simp add: stack_scan_def scan_registers_ok get_low_water_mark_def from_ptr_def)

section \<open>What a collection does\<close>

lemma space_ok_trace:
  assumes ok: "space_ok c held sp" and run: "start_trace p sched mem roots sp = Some (Inr sp')"
  shows "space_ok c held sp'"
proof -
  have "tables_ok sp" using ok by (simp add: space_ok_def)
  from start_trace_frame [OF this run] have
    tb: "tables_ok sp'" and eq: "sp' = with_marks sp (sp_trace_map sp') (sp_line_mark_table sp')"
    by auto
  have "sp_start sp' = sp_start sp" "sp_total_blocks sp' = sp_total_blocks sp"
    "all_blocks c held sp' = all_blocks c held sp"
    by (subst eq, simp add: all_blocks_def)+
  with ok tb show ?thesis by (auto simp: space_ok_def block_wf_cong [of sp' sp])
qed

lemma space_ok_flip:
  "space_ok c held (sp\<lparr>sp_trace_map := flip_mark_state (sp_trace_map sp)\<rparr>) \<longleftrightarrow> space_ok c held sp"
  by (simp add: space_ok_def tables_ok_def all_blocks_def block_wf_def flip_mark_state_def)

text \<open>The stages of a collection that returns.\<close>

lemma gc_stages:
  assumes "gc p I sched w = Some (Inr w')"
  obtains sp1 sp2 printed where
    "start_trace p sched (wd_mem w) (wd_roots w) (wd_space w) = Some (Inr sp1)"
    "sweep p I sp1 = Some (Inr (sp2, printed))"
    "w' = w\<lparr>wd_gc_count := wd_gc_count w + 1, wd_roots := [],
       wd_space := sp2\<lparr>sp_trace_map := flip_mark_state (sp_trace_map sp2)\<rparr>,
       wd_printed := wd_printed w @ printed\<rparr>"
proof -
  from assms obtain sp1 where
    1: "start_trace p sched (wd_mem w) (wd_roots w) (wd_space w) = Some (Inr sp1)"
    by (auto simp: gc_def Let_def bind_ro_def split: option.splits sum.splits)
  with assms obtain sp2 printed where 2: "sweep p I sp1 = Some (Inr (sp2, printed))"
    by (auto simp: gc_def Let_def bind_ro_def split: option.splits sum.splits)
  from 1 2 assms that show ?thesis by (simp add: gc_def Let_def)
qed

lemma gc_frame:
  assumes laws: "injector_laws I c r" and ok: "space_ok c held (wd_space w)"
    and run: "gc p I sched w = Some (Inr w')"
  shows "space_ok c held (wd_space w')" and "heap_frame w w'"
proof -
  from gc_stages [OF run] obtain sp1 sp2 printed where st:
    "start_trace p sched (wd_mem w) (wd_roots w) (wd_space w) = Some (Inr sp1)"
    "sweep p I sp1 = Some (Inr (sp2, printed))"
    "w' = w\<lparr>wd_gc_count := wd_gc_count w + 1, wd_roots := [],
       wd_space := sp2\<lparr>sp_trace_map := flip_mark_state (sp_trace_map sp2)\<rparr>,
       wd_printed := wd_printed w @ printed\<rparr>" .
  have tb: "tables_ok (wd_space w)" using ok by (simp add: space_ok_def)
  note ok1 = space_ok_trace [OF ok st(1)] and f1 = start_trace_frame [OF tb st(1)]
  note s2 = sweep_result [OF laws ok1 st(2)]
  show "space_ok c held (wd_space w')"
    using space_ok_sweep [OF laws ok1 st(2)] by (simp add: st(3) space_ok_flip)
  have e1: "sp_start sp1 = sp_start (wd_space w)" "sp_end sp1 = sp_end (wd_space w)"
    "sp_total_blocks sp1 = sp_total_blocks (wd_space w)"
    using f1 by (auto elim: ssubst)
  have e2: "sp_start sp2 = sp_start sp1" "sp_end sp2 = sp_end sp1"
    "sp_total_blocks sp2 = sp_total_blocks sp1"
    by (subst s2(4), simp)+
  show "heap_frame w w'"
    using f1 s2(3) by (simp add: heap_frame_def st(3) e1 e2)
qed

section \<open>The barrier keeps the allocator's contract\<close>

lemma enter_barrier_ok:
  assumes laws: "injector_laws I c r" and pool: "pool_ok c m w"
    and run: "enter_barrier p I env m w = Some (Inr (m', w'))"
  shows "pool_ok c m' w' \<and> heap_frame w w' \<and> reset m' = reset m \<and> ml_block m' = None \<and>
    wd_registry w' = wd_registry w \<and> wd_stw_count w' = wd_stw_count w \<and> wd_gc_count w' = wd_gc_count w"
proof -
  obtain m1 w1 where rb: "return_block I m w = (m1, w1)" by (cases "return_block I m w")
  from run obtain roots where
    "stack_scan p env (wd_mem w1) (wd_space w1) = Some (Inr roots)"
    "m' = m1" "w' = w1\<lparr>wd_roots := wd_roots w1 @ roots\<rparr>"
    by (auto simp: enter_barrier_def prepare_for_gc_def rb bind_ro_def split: option.splits sum.splits)
  moreover have "reset m1 = reset m" "wd_stw_count w1 = wd_stw_count w" "wd_gc_count w1 = wd_gc_count w"
    using rb by (auto simp: return_block_def reset_def split: option.splits)
  ultimately show ?thesis
    using return_block_ok [OF laws pool rb] by (simp add: pool_ok_def heap_frame_def)
qed

lemma pool_ok_reset: "pool_ok c m w \<Longrightarrow> ml_block m = None \<Longrightarrow> pool_ok c (reset m) w"
  by (simp add: pool_ok_def held_by_def)

lemma sync_barrier_stages:
  assumes run: "sync_barrier p I sched env m w = Some (Inr (m', w'))"
  obtains m1 w1 w2 where "wd_controller w = NO_CONTROLLER"
    "enter_barrier p I env m (w\<lparr>wd_controller := int (fst (ml_id m))\<rparr>) = Some (Inr (m1, w1))"
    "gc p I sched w1 = Some (Inr w2)" "m' = reset m1" "w' = (resume_mutators w2)\<lparr>wd_stw_count := 0\<rparr>"
proof -
  have free: "wd_controller w = NO_CONTROLLER"
    using run by (auto simp: sync_barrier_def Let_def bind_ro_def split: option.splits sum.splits if_splits)
  from run free obtain m1 w1 where
    e: "enter_barrier p I env m (w\<lparr>wd_controller := int (fst (ml_id m))\<rparr>) = Some (Inr (m1, w1))"
    by (auto simp: sync_barrier_def Let_def bind_ro_def split: option.splits sum.splits)
  with run free obtain w2 where "gc p I sched w1 = Some (Inr w2)"
    "m' = reset m1" "w' = (resume_mutators w2)\<lparr>wd_stw_count := 0\<rparr>"
    by (auto simp: sync_barrier_def Let_def bind_ro_def split: option.splits sum.splits if_splits)
  with free e that show ?thesis by blast
qed

lemma sync_barrier_contract:
  assumes laws: "injector_laws I c r" and pool: "pool_ok c m w"
    and run: "sync_barrier p I sched env m w = Some (Inr (m', w'))"
  shows "m' = reset m \<and> pool_ok c m' w' \<and> heap_frame w w'"
proof -
  let ?w0 = "w\<lparr>wd_controller := int (fst (ml_id m))\<rparr>"
  from sync_barrier_stages [OF run] obtain m1 w1 w2 where
    e: "enter_barrier p I env m ?w0 = Some (Inr (m1, w1))" and g: "gc p I sched w1 = Some (Inr w2)"
    and res: "m' = reset m1" "w' = (resume_mutators w2)\<lparr>wd_stw_count := 0\<rparr>" by blast
  have "pool_ok c m ?w0" using pool by (simp add: pool_ok_def)
  note e_ok = enter_barrier_ok [OF laws this e]
  then obtain others where "space_ok c (held_by m1 @ others) (wd_space w1)"
    by (auto simp: pool_ok_def)
  note g_ok = gc_frame [OF laws this g]
  have "pool_ok c m1 w2" using g_ok(1) by (auto simp: pool_ok_def)
  then have "pool_ok c (reset m1) w2" using pool_ok_reset e_ok by blast
  then have "pool_ok c m' w'" by (simp add: res resume_mutators_def pool_ok_def)
  moreover have "heap_frame w w'"
    using e_ok g_ok(2) by (auto simp: res heap_frame_def resume_mutators_def)
  ultimately show ?thesis using e_ok by (simp add: res)
qed

sublocale block_queue_spec \<subseteq> barrier: gc_barrier I c r "sync_barrier p I sched env" for p sched env
  by unfold_locales (rule sync_barrier_contract [OF laws])

section \<open>A mutator on its own gets its memory\<close>

definition scan_ok :: "scan_env \<Rightarrow> bool" where
  "scan_ok env \<longleftrightarrow> 8 dvd unat (se_stack_ptr env) \<and> unat (se_low_water_mark env) + 8 < 2 ^ 64"

definition usable_free :: "('q \<Rightarrow> immix_block list) \<Rightarrow> 'q immix_space \<Rightarrow> bool" where
  "usable_free c s \<longleftrightarrow> (\<forall>b\<in>set (c (sp_usable_blocks s)).
     \<exists>k<256. slice_line (ib_lines b) (sp_cells s) k = Free)"

text \<open>
  One registered mutator, no collection under way, every block in a queue or held by the
  mutator, and it is asked to yield only when no usable block is left.
\<close>

definition solo :: "('q \<Rightarrow> immix_block list) \<Rightarrow> mutator_local \<Rightarrow> 'q world \<Rightarrow> bool" where
  "solo c m w \<longleftrightarrow> space_ok c (held_by m) (wd_space w) \<and> usable_free c (wd_space w) \<and>
     8 dvd space_size (wd_space w) \<and>
     rg_arena (wd_registry w) = [ml_id m] \<and> rg_n_mutators (wd_registry w) = 1 \<and>
     wd_controller w = NO_CONTROLLER \<and>
     (take_yield (rg_globals (wd_registry w) (ml_id m)) \<longrightarrow> c (sp_usable_blocks (wd_space w)) = [])"

lemma sweep_supplies:
  assumes laws: "injector_laws I c r" and ok: "space_ok c [] s"
    and empty: "c (sp_usable_blocks s) = []" and run: "sweep p I s = Some (Inr (s', printed))"
  shows "c (sp_usable_blocks s') \<noteq> [] \<and> usable_free c s'"
proof -
  note s' = sweep_result [OF laws ok run]
  have "size (mset (map ib_id (all_blocks c [] s))) = size (mset [0..<sp_total_blocks s])"
    using ok by (simp add: space_ok_def)
  then have "length (c (sp_used_blocks s)) = sp_total_blocks s"
    by (simp add: all_blocks_def empty)
  moreover have "length (full_blocks c s) + length (freed_blocks c s) = length (c (sp_used_blocks s))"
    by (simp add: full_blocks_def freed_blocks_def sum_length_filter_compl add.commute)
  ultimately have "freed_blocks c s \<noteq> []" using s'(5) by auto
  then have "c (sp_usable_blocks s') \<noteq> []" using s'(1) by simp
  moreover have "\<exists>k<256. slice_line (ib_lines b) (sp_cells s') k = Free" if b: "b \<in> set (freed_blocks c s)" for b
  proof -
    have in_used: "b \<in> set (c (sp_used_blocks s))" "has_free (sp_cells s) b"
      using b by (auto simp: freed_blocks_def)
    then have wf: "block_wf s b" using ok by (simp add: space_ok_def all_blocks_def)
    then have lines: "sl_ptr (ib_lines b) = 256 * ib_id b" "sl_len (ib_lines b) = 256"
      by (simp_all add: block_wf_def)
    from in_used(2) obtain j where j: "j \<in> block_lines b" "\<not> retained (sp_cells s ! j)"
      by (auto simp: has_free_def)
    have "slice_ok (ib_lines b) (sp_cells s)"
      using block_wf_slice_ok [OF _ wf] ok by (simp add: space_ok_def)
    from block_lines_bound [OF this j(1)] have "sp_cells s' ! j = Free"
      using j in_used(1) by (auto simp: s'(3) nth_sweep_cells)
    moreover have "j = sl_ptr (ib_lines b) + (j - sl_ptr (ib_lines b))" "j - sl_ptr (ib_lines b) < 256"
      using j(1) lines by (auto simp: block_lines_def)
    ultimately show ?thesis by metis
  qed
  ultimately show ?thesis using s'(1) by (auto simp: usable_free_def empty)
qed

text \<open>A heap on which no trace can fail, whatever the scan takes for a root.\<close>

definition traceable :: "'q world \<Rightarrow> bool" where
  "traceable w \<longleftrightarrow> (\<forall>x\<in>reach (set (wd_roots w) \<union> Collect (starts_object (wd_space w)))
     (followed (wd_space w) (wd_mem w)). wf_object (wd_space w) x)"

lemma gc_supplies:
  assumes laws: "injector_laws I c r" and ok: "space_ok c [] (wd_space w)"
    and empty: "c (sp_usable_blocks (wd_space w)) = []" and run: "gc p I sched w = Some (Inr w')"
  shows "c (sp_usable_blocks (wd_space w')) \<noteq> [] \<and> usable_free c (wd_space w')"
proof -
  from gc_stages [OF run] obtain sp1 sp2 printed where st:
    "start_trace p sched (wd_mem w) (wd_roots w) (wd_space w) = Some (Inr sp1)"
    "sweep p I sp1 = Some (Inr (sp2, printed))"
    "w' = w\<lparr>wd_gc_count := wd_gc_count w + 1, wd_roots := [],
       wd_space := sp2\<lparr>sp_trace_map := flip_mark_state (sp_trace_map sp2)\<rparr>,
       wd_printed := wd_printed w @ printed\<rparr>" .
  have tb: "tables_ok (wd_space w)" using ok by (simp add: space_ok_def)
  have eq: "sp1 = with_marks (wd_space w) (sp_trace_map sp1) (sp_line_mark_table sp1)"
    using start_trace_frame [OF tb st(1)] by blast
  have "c (sp_usable_blocks sp1) = []" by (subst eq) (simp add: empty)
  from sweep_supplies [OF laws space_ok_trace [OF ok st(1)] this st(2)] show ?thesis
    by (simp add: st(3) usable_free_def)
qed

lemma gc_returns:
  assumes laws: "injector_laws I c r" and ok: "space_ok c [] (wd_space w)"
    and empty: "c (sp_usable_blocks (wd_space w)) = []"
    and ends: "te_cpus sched = 1 \<or> (\<forall>x\<in>reach (set (wd_roots w)) (followed (wd_space w) (wd_mem w)). wf_object (wd_space w) x)"
  shows "(\<exists>e. gc p I sched w = Some (Inl e)) \<or> (\<exists>w'. gc p I sched w = Some (Inr w') \<and>
    c (sp_usable_blocks (wd_space w')) \<noteq> [] \<and> usable_free c (wd_space w'))"
proof -
  have tb: "tables_ok (wd_space w)" using ok by (simp add: space_ok_def)
  obtain res where tr: "start_trace p sched (wd_mem w) (wd_roots w) (wd_space w) = Some res"
    using start_trace_returns [OF tb ends] by blast
  have "\<exists>x. gc p I sched w = Some x"
  proof (cases res)
    case (Inr sp1)
    with tr have tr1: "start_trace p sched (wd_mem w) (wd_roots w) (wd_space w) = Some (Inr sp1)" by simp
    have "\<forall>b\<in>set (c (sp_used_blocks sp1)). slice_ok (ib_lines b) (sp_cells sp1)"
      using space_ok_slices [OF space_ok_trace [OF ok tr1]] by (simp add: all_blocks_def)
    from sweep_ok [OF laws this, of p] obtain res2 where sw: "sweep p I sp1 = Some res2" by blast
    then show ?thesis using tr1 by (cases res2) (auto simp: gc_def Let_def)
  qed (use tr in \<open>simp add: gc_def Let_def\<close>)
  then obtain x where x: "gc p I sched w = Some x" by blast
  show ?thesis using gc_supplies [OF laws ok empty] x by (cases x) auto
qed

lemma solo_barrier_supplies:
  assumes laws: "injector_laws I c r" and env: "scan_ok env" and solo: "solo c m w"
    and none: "ml_block m = None" and yield: "take_yield (rg_globals (wd_registry w) (ml_id m))"
    and ends: "te_cpus sched = 1 \<or> traceable w"
  shows "(\<exists>e. sync_barrier p I sched env m w = Some (Inl e)) \<or>
    (\<exists>m' w'. sync_barrier p I sched env m w = Some (Inr (m', w')) \<and> block_ready c w')"
proof -
  let ?w0 = "w\<lparr>wd_controller := int (fst (ml_id m))\<rparr>"
  have sok: "space_ok c [] (wd_space w)" "c (sp_usable_blocks (wd_space w)) = []"
    using solo yield none by (auto simp: solo_def held_by_def)
  have tb: "tables_ok (wd_space w)" using sok(1) by (simp add: space_ok_def)
  obtain roots where scan: "stack_scan p env (wd_mem w) (wd_space w) = Some (Inr roots)"
    and roots: "\<forall>r\<in>set roots. starts_object (wd_space w) r"
    using stack_scan_ok [OF tb, of env p "wd_mem w"] solo env by (auto simp: solo_def scan_ok_def)
  then have e: "enter_barrier p I env m ?w0 = Some (Inr (m, ?w0\<lparr>wd_roots := wd_roots w @ roots\<rparr>))"
    using none by (simp add: enter_barrier_def prepare_for_gc_def return_block_def)
  let ?w1 = "?w0\<lparr>wd_roots := wd_roots w @ roots\<rparr>"
  have run: "sync_barrier p I sched env m w = bind_ro (gc p I sched ?w1) (\<lambda>w2.
      Some (Inr (reset m, (resume_mutators w2)\<lparr>wd_stw_count := 0\<rparr>)))"
    using solo e by (simp add: sync_barrier_def solo_def Let_def usize_sub_def)
  have "space_ok c [] (wd_space ?w1)" "c (sp_usable_blocks (wd_space ?w1)) = []"
    using sok by simp_all
  moreover have "te_cpus sched = 1 \<or>
      (\<forall>x\<in>reach (set (wd_roots ?w1)) (followed (wd_space ?w1) (wd_mem ?w1)). wf_object (wd_space ?w1) x)"
    using ends
  proof
    assume tr: "traceable w"
    have "reach (set (wd_roots w @ roots)) (followed (wd_space w) (wd_mem w)) \<subseteq>
        reach (set (wd_roots w) \<union> Collect (starts_object (wd_space w))) (followed (wd_space w) (wd_mem w))"
      by (rule reach_mono_roots) (use roots in auto)
    with tr show ?thesis by (auto simp: traceable_def)
  qed simp
  ultimately have "(\<exists>e. gc p I sched ?w1 = Some (Inl e)) \<or> (\<exists>w'. gc p I sched ?w1 = Some (Inr w') \<and>
      c (sp_usable_blocks (wd_space w')) \<noteq> [] \<and> usable_free c (wd_space w'))"
    by (rule gc_returns [OF laws])
  then show ?thesis
  proof (elim disjE exE conjE)
    fix err assume "gc p I sched ?w1 = Some (Inl err)"
    then show ?thesis by (simp add: run)
  next
    fix w2 assume "gc p I sched ?w1 = Some (Inr w2)"
      and "c (sp_usable_blocks (wd_space w2)) \<noteq> []" "usable_free c (wd_space w2)"
    then show ?thesis
      by (simp add: run block_ready_def usable_free_def resume_mutators_def)
  qed
qed

lemma solo_return_block:
  assumes laws: "injector_laws I c r" and solo: "solo c m w" and rb: "return_block I m w = (m1, w1)"
  shows "solo c m1 w1"
proof (cases "ml_block m")
  case None
  then show ?thesis using solo rb by (simp add: return_block_def)
next
  case (Some b)
  then have "space_ok c [b] (wd_space w)" using solo by (simp add: solo_def held_by_def)
  from space_ok_return_used_block [OF laws this] show ?thesis
    using solo rb Some
    by (auto simp: return_block_def solo_def held_by_def return_used_block_def usable_free_def)
qed

lemma solo_empty_queue:
  assumes laws: "injector_laws I c r" and solo: "solo c m w"
    and run: "fetch_block I w = Some (None, w1)"
  shows "solo c m w1 \<and> take_yield (rg_globals (wd_registry w1) (ml_id m))"
proof -
  obtain q where q: "c q = tl (c (sp_usable_blocks (wd_space w)))"
    "get_next_usable_block I (wd_space w) (wd_registry w) =
      Some (if c (sp_usable_blocks (wd_space w)) = []
            then (None, (wd_space w)\<lparr>sp_usable_blocks := q\<rparr>, trigger_gc (wd_registry w))
            else (Some (hd (c (sp_usable_blocks (wd_space w)))),
                  (wd_space w)\<lparr>sp_usable_blocks := q\<rparr>, wd_registry w))"
    using get_next_usable_block_ok [OF laws] by blast
  have empty: "c (sp_usable_blocks (wd_space w)) = []"
    and w1: "w1 = w\<lparr>wd_space := (wd_space w)\<lparr>sp_usable_blocks := q\<rparr>, wd_registry := trigger_gc (wd_registry w)\<rparr>"
    using run q(2) by (auto simp: fetch_block_def split: if_splits)
  have "space_ok c (held_by m) ((wd_space w)\<lparr>sp_usable_blocks := q\<rparr>)"
    using solo q(1) empty by (simp add: solo_def space_ok_def all_blocks_def block_wf_def)
  then show ?thesis using solo q(1) empty by (simp add: w1 solo_def usable_free_def)
qed

lemma traceable_cong:
  assumes "wd_roots w' = wd_roots w" "wd_mem w' = wd_mem w"
    and "wd_space w' = (wd_space w)\<lparr>sp_usable_blocks := q, sp_used_blocks := u\<rparr>"
  shows "traceable w' \<longleftrightarrow> traceable w"
proof -
  have "starts_object (wd_space w') = starts_object (wd_space w)" "wf_object (wd_space w') = wf_object (wd_space w)"
    "followed (wd_space w') (wd_mem w') = followed (wd_space w) (wd_mem w)"
    by (simp_all add: fun_eq_iff assms starts_object_def wf_object_def followed_def obj_fields_def obj_offsets_def ref_byte_def)
  then show ?thesis by (simp add: traceable_def assms(1))
qed

text \<open>The collector's barrier supplies a mutator that is on its own, when the trace cannot wait for
  a worker that has panicked.\<close>

definition trace_ends :: "trace_env \<Rightarrow> 'q world \<Rightarrow> bool" where
  "trace_ends sched w \<longleftrightarrow> te_cpus sched = 1 \<or> traceable w"

lemma trace_ends_return_block:
  "return_block I m w = (m1, w1) \<Longrightarrow> trace_ends sched w1 \<longleftrightarrow> trace_ends sched w"
  using traceable_cong [where w' = w1 and w = w and q = "sp_usable_blocks (wd_space w)" and u = "sp_used_blocks (wd_space w1)"]
  by (auto simp: trace_ends_def return_block_def return_used_block_def split: option.splits)

lemma trace_ends_fetch_block:
  assumes laws: "injector_laws I c r" and run: "fetch_block I w = Some (b, w1)"
  shows "trace_ends sched w1 \<longleftrightarrow> trace_ends sched w"
proof -
  obtain q g where "wd_roots w1 = wd_roots w" "wd_mem w1 = wd_mem w"
    "wd_space w1 = (wd_space w)\<lparr>sp_usable_blocks := q\<rparr>"
    using get_next_usable_block_ok [OF laws, of "wd_space w" "wd_registry w"] run
    by (auto simp: fetch_block_def split: if_splits)
  then show ?thesis
    using traceable_cong [where w' = w1 and w = w and q = q and u = "sp_used_blocks (wd_space w)"] by (simp add: trace_ends_def)
qed

sublocale block_queue_spec \<subseteq> supplier: gc_supply I c r "sync_barrier p I sched env"
    "\<lambda>m w. scan_ok env \<and> trace_ends sched w \<and> solo c m w" for p sched env
proof
  fix m w m1 w1
  show "(\<exists>e. sync_barrier p I sched env m w = Some (Inl e)) \<or>
      (\<exists>m' w'. sync_barrier p I sched env m w = Some (Inr (m', w')) \<and> block_ready c w')"
    if "scan_ok env \<and> trace_ends sched w \<and> solo c m w" "loop_pre c m w" "take_yield (rg_globals (wd_registry w) (ml_id m))"
    using that solo_barrier_supplies [OF laws] by (simp add: loop_pre_def trace_ends_def)
  show "scan_ok env \<and> trace_ends sched w1 \<and> solo c m1 w1"
    if "scan_ok env \<and> trace_ends sched w \<and> solo c m w" "alloc_pre c m w" "return_block I m w = (m1, w1)"
    using that solo_return_block [OF laws] trace_ends_return_block by blast
  show "(scan_ok env \<and> trace_ends sched w1 \<and> solo c m w1) \<and> take_yield (rg_globals (wd_registry w1) (ml_id m))"
    if "scan_ok env \<and> trace_ends sched w \<and> solo c m w" "loop_pre c m w" "fetch_block I w = Some (None, w1)"
    using that solo_empty_queue [OF laws] trace_ends_fetch_block [OF laws] by blast
  show "block_ready c w"
    if "scan_ok env \<and> trace_ends sched w \<and> solo c m w" "loop_pre c m w" "c (sp_usable_blocks (wd_space w)) \<noteq> []"
    using that by (simp add: solo_def block_ready_def usable_free_def)
qed

section \<open>What survives a collection\<close>

lemma gc_keeps:
  assumes laws: "injector_laws I c r" and ok: "space_ok c held (wd_space w)"
    and run: "gc p I sched w = Some (Inr w')"
    and aligned: "\<forall>x\<in>reach (set (wd_roots w)) (followed (wd_space w) (wd_mem w)).
      8 dvd addr_nat (to_address x)"
    and x: "x \<in> reach (set (wd_roots w)) (followed (wd_space w) (wd_mem w))"
  shows "line_kept (wd_space w) (wd_cells w') x"
    and "is_untraced_and_valid (sp_trace_map (wd_space w')) (oref_as_usize x)"
proof -
  from gc_stages [OF run] obtain sp1 sp2 printed where st:
    "start_trace p sched (wd_mem w) (wd_roots w) (wd_space w) = Some (Inr sp1)"
    "sweep p I sp1 = Some (Inr (sp2, printed))"
    "w' = w\<lparr>wd_gc_count := wd_gc_count w + 1, wd_roots := [],
       wd_space := sp2\<lparr>sp_trace_map := flip_mark_state (sp_trace_map sp2)\<rparr>,
       wd_printed := wd_printed w @ printed\<rparr>" .
  have tb: "tables_ok (wd_space w)" using ok by (simp add: space_ok_def)
  note ok1 = space_ok_trace [OF ok st(1)]
  note s2 = sweep_result [OF laws ok1 st(2)]
  from start_trace_marks [OF tb st(1) aligned x] have m:
    "is_traced p (sp_trace_map sp1) (oref_as_usize x) = Inr True" "wf_object (wd_space w) x"
    "line_kept (wd_space w) (sp_cells sp1) x" by auto
  show "line_kept (wd_space w) (wd_cells w') x"
    using m(3) by (auto simp: line_kept_def Let_def st(3) s2(3))
  have eq1: "sp1 = with_marks (wd_space w) (sp_trace_map sp1) (sp_line_mark_table sp1)"
    and tb1: "tables_ok sp1"
    using start_trace_frame [OF tb st(1)] by blast+
  have tb1': "tables_ok (with_marks (wd_space w) (sp_trace_map sp1) (sp_line_mark_table sp1))"
    using tb1 eq1 by simp
  have range: "in_trace_range (wd_space w) x"
    using m(2) by (simp add: wf_object_def space_in_trace_range)
  with m(1) have mark: "sm_addresses (tm_map (sp_trace_map sp1)) ! mark_slot (wd_space w) x =
      tm_mark_state (sp_trace_map sp1)"
    using is_traced_ok(1) [of "sp_trace_map sp1" "oref_as_usize x" "mark_slot (wd_space w) x" p]
      trace_slot [OF tb1', of x] by simp
  have tm2: "sp_trace_map sp2 = sp_trace_map sp1" by (subst s2(4)) simp
  have "tables_ok (with_marks (wd_space w) (flip_mark_state (sp_trace_map sp1)) (sp_line_mark_table sp1))"
    using tb1' by (simp add: tables_ok_def flip_mark_state_def)
  from trace_get [OF this, of x] show "is_untraced_and_valid (sp_trace_map (wd_space w')) (oref_as_usize x)"
    using range mark xor_1_neq [symmetric] by (simp add: st(3) tm2 flip_mark_state_def)
qed

text \<open>A small object lies in the line of its first byte and the next one.\<close>

lemma line_kept_bytes:
  assumes "line_kept sp cs x" and "sp_start sp \<le> to_address x" and "sz \<le> 256"
    and "addr_nat (to_address x) \<le> y" and "y < addr_nat (to_address x) + sz"
    and "(y - addr_nat (sp_start sp)) div 256 < length cs"
  shows "retained (cs ! ((y - addr_nat (sp_start sp)) div 256))"
proof -
  define j where "j = y - addr_nat (to_address x)"
  have "y = addr_nat (to_address x) + j" "j < sz" using assms(4,5) by (simp_all add: j_def)
  with object_lines [OF assms(2) this(2) assms(3)] assms(1,6) show ?thesis
    by (auto simp: line_kept_def Let_def)
qed

lemma gc_only_keeps:
  assumes laws: "injector_laws I c r" and ok: "space_ok c held (wd_space w)"
    and run: "gc p I sched w = Some (Inr w')"
    and j: "j < length (wd_cells w)" "retained (wd_cells w' ! j)"
  shows "retained (wd_cells w ! j) \<or>
    (\<exists>x\<in>reach (set (wd_roots w)) (followed (wd_space w) (wd_mem w)).
      j \<in> {line_of (sp_start (wd_space w)) (to_address x), Suc (line_of (sp_start (wd_space w)) (to_address x))})"
proof -
  from gc_stages [OF run] obtain sp1 sp2 printed where st:
    "start_trace p sched (wd_mem w) (wd_roots w) (wd_space w) = Some (Inr sp1)"
    "sweep p I sp1 = Some (Inr (sp2, printed))"
    "w' = w\<lparr>wd_gc_count := wd_gc_count w + 1, wd_roots := [],
       wd_space := sp2\<lparr>sp_trace_map := flip_mark_state (sp_trace_map sp2)\<rparr>,
       wd_printed := wd_printed w @ printed\<rparr>" .
  have tb: "tables_ok (wd_space w)" using ok by (simp add: space_ok_def)
  have len: "length (sp_cells sp1) = length (wd_cells w)" using start_trace_frame [OF tb st(1)] by blast
  have "retained (sp_cells sp1 ! j)"
    using j sweep_result(3) [OF laws space_ok_trace [OF ok st(1)] st(2)] by (simp add: st(3) len)
  from start_trace_only [OF tb st(1) j(1) this] show ?thesis .
qed

text \<open>
  What looks untraced after a collection. The cells of a space are 0 or 1 from its creation on,
  and so is the mark state, which every collection flips. A reference whose cell the trace has
  not written therefore looks untraced after the collection exactly when it did not before.
\<close>

definition two_states :: "'q immix_space \<Rightarrow> bool" where
  "two_states sp \<longleftrightarrow> tm_mark_state (sp_trace_map sp) \<in> {0, 1} \<and>
     set (sm_addresses (tm_map (sp_trace_map sp))) \<subseteq> {0, 1}"

definition cell_reached :: "'q world \<Rightarrow> object_reference \<Rightarrow> bool" where
  "cell_reached w x \<longleftrightarrow>
     mark_slot (wd_space w) x \<in> mark_slot (wd_space w) ` reach (set (wd_roots w)) (followed (wd_space w) (wd_mem w))"

lemma gc_flips:
  assumes laws: "injector_laws I c r" and ok: "space_ok c held (wd_space w)" and two: "two_states (wd_space w)"
    and run: "gc p I sched w = Some (Inr w')"
    and aligned: "\<forall>x\<in>reach (set (wd_roots w)) (followed (wd_space w) (wd_mem w)). 8 dvd addr_nat (to_address x)"
  shows "two_states (wd_space w')"
    and "in_trace_range (wd_space w) x \<Longrightarrow>
      is_untraced_and_valid (sp_trace_map (wd_space w')) (oref_as_usize x) \<longleftrightarrow>
        cell_reached w x \<or> \<not> is_untraced_and_valid (sp_trace_map (wd_space w)) (oref_as_usize x)"
proof -
  let ?tm = "sp_trace_map (wd_space w)"
  from gc_stages [OF run] obtain sp1 sp2 printed where st:
    "start_trace p sched (wd_mem w) (wd_roots w) (wd_space w) = Some (Inr sp1)"
    "sweep p I sp1 = Some (Inr (sp2, printed))"
    "w' = w\<lparr>wd_gc_count := wd_gc_count w + 1, wd_roots := [],
       wd_space := sp2\<lparr>sp_trace_map := flip_mark_state (sp_trace_map sp2)\<rparr>,
       wd_printed := wd_printed w @ printed\<rparr>" .
  have tb: "tables_ok (wd_space w)" using ok by (simp add: space_ok_def)
  note s2 = sweep_result [OF laws space_ok_trace [OF ok st(1)] st(2)]
  have tm2: "sp_trace_map sp2 = sp_trace_map sp1" by (subst s2(4)) simp
  define cells where "cells = map (\<lambda>j. if j \<in> mark_slot (wd_space w) `
      reach (set (wd_roots w)) (followed (wd_space w) (wd_mem w)) then tm_mark_state ?tm
      else sm_addresses (tm_map ?tm) ! j) [0..<length (sm_addresses (tm_map ?tm))]"
  have tm1: "sp_trace_map sp1 = ?tm\<lparr>tm_map := (tm_map ?tm)\<lparr>sm_addresses := cells\<rparr>\<rparr>"
    using start_trace_spec [OF tb st(1) aligned] unfolding trace_spec_def cells_def by blast
  have flip: "v \<noteq> tm_mark_state ?tm XOR 1 \<longleftrightarrow> v = tm_mark_state ?tm" if "v \<in> {0, 1}" for v
    using that two by (auto simp: two_states_def)
  have old: "sm_addresses (tm_map ?tm) ! j \<in> {0, 1}" if "j < length (sm_addresses (tm_map ?tm))" for j
    using two nth_mem [OF that] unfolding two_states_def by blast
  have cells: "set cells \<subseteq> {0, 1}"
  proof
    fix v assume "v \<in> set cells"
    then obtain j where "j < length (sm_addresses (tm_map ?tm))"
      "v = tm_mark_state ?tm \<or> v = sm_addresses (tm_map ?tm) ! j"
      unfolding cells_def set_map by (elim imageE) (auto split: if_splits)
    with old [of j] two show "v \<in> {0, 1}" unfolding two_states_def by metis
  qed
  then show "two_states (wd_space w')"
    using two by (auto simp: two_states_def st(3) tm2 tm1 flip_mark_state_def)
  assume range: "in_trace_range (wd_space w) x"
  then have slot: "mark_slot (wd_space w) x < length (sm_addresses (tm_map ?tm))"
    using tb by (simp add: in_trace_range_def tables_ok_def)
  have "tables_ok (with_marks (wd_space w) (flip_mark_state (sp_trace_map sp1)) (sp_line_mark_table (wd_space w)))"
    using tb by (simp add: tables_ok_def flip_mark_state_def tm1 cells_def)
  moreover have "length cells = length (sm_addresses (tm_map ?tm))" by (simp add: cells_def)
  then have "cells ! mark_slot (wd_space w) x \<in> set cells" using slot by (simp only: nth_mem)
  then have "cells ! mark_slot (wd_space w) x \<in> {0, 1}" using cells by blast
  ultimately have after: "is_untraced_and_valid (sp_trace_map (wd_space w')) (oref_as_usize x) \<longleftrightarrow>
      cells ! mark_slot (wd_space w) x = tm_mark_state ?tm"
    using trace_get [where sp = "wd_space w" and lt = "sp_line_mark_table (wd_space w)" and r = x] range
      flip [of "cells ! mark_slot (wd_space w) x"]
    by (simp add: st(3) tm2 tm1 flip_mark_state_def)
  show "is_untraced_and_valid (sp_trace_map (wd_space w')) (oref_as_usize x) \<longleftrightarrow>
      cell_reached w x \<or> \<not> is_untraced_and_valid ?tm (oref_as_usize x)"
    using after slot range by (simp add: trace_get_start [OF tb] cell_reached_def cells_def)
qed

text \<open>An allocation never hands out a byte of a line that was retained before it.\<close>

lemma alloc_avoids_retained:
  assumes "alloc_good c ly w (a, m', w')"
    and y: "addr_nat a \<le> y" "y < addr_nat a + unat (ly_size ly)"
  shows "(y - addr_nat (sp_start (wd_space w))) div 256 < length (wd_cells w) \<longrightarrow>
    \<not> retained (wd_cells w ! ((y - addr_nat (sp_start (wd_space w))) div 256))"
proof -
  have f: "heap_frame w w'" and "placed w' ly a m'" using assms(1) by (simp_all add: alloc_good_def)
  then have "wd_cells w' ! ((y - addr_nat (sp_start (wd_space w))) div 256) = FreshAlloc"
    using y by (auto simp: placed_def heap_frame_def)
  with f show ?thesis by (auto simp: heap_frame_def)
qed

lemma gc_succeeds:
  assumes laws: "injector_laws I c r" and ok: "space_ok c held (wd_space w)"
    and all: "p = Release \<or> length (c (sp_used_blocks (wd_space w))) = sp_total_blocks (wd_space w)"
    and wf: "\<forall>x\<in>reach (set (wd_roots w)) (followed (wd_space w) (wd_mem w)). wf_object (wd_space w) x"
    and b: "b \<in> set (c (sp_used_blocks (wd_space w)))" and j: "j \<in> block_lines b"
    and dead: "\<not> retained (wd_cells w ! j)"
      "\<forall>x\<in>reach (set (wd_roots w)) (followed (wd_space w) (wd_mem w)).
        j \<notin> {line_of (sp_start (wd_space w)) (to_address x), Suc (line_of (sp_start (wd_space w)) (to_address x))}"
  shows "\<exists>w'. gc p I sched w = Some (Inr w') \<and> wd_cells w' ! j = Free \<and>
    set_state b Usable \<in> set (c (sp_usable_blocks (wd_space w')))"
proof -
  have tb: "tables_ok (wd_space w)" using ok by (simp add: space_ok_def)
  obtain sp1 where tr: "start_trace p sched (wd_mem w) (wd_roots w) (wd_space w) = Some (Inr sp1)"
    using start_trace_succeeds [OF tb wf] by blast
  note ok1 = space_ok_trace [OF ok tr]
  have eq: "sp1 = with_marks (wd_space w) (sp_trace_map sp1) (sp_line_mark_table sp1)"
    using start_trace_frame [OF tb tr] by blast
  have same: "sp_used_blocks sp1 = sp_used_blocks (wd_space w)" "sp_total_blocks sp1 = sp_total_blocks (wd_space w)"
    by (subst eq, simp)+
  have "slice_ok (ib_lines b) (wd_cells w)"
    using space_ok_slices [OF ok] b by (simp add: all_blocks_def)
  from start_trace_only [OF tb tr block_lines_bound [OF this j]] dead
  have "\<not> retained (sp_cells sp1 ! j)" by blast
  from sweep_succeeds [OF laws ok1 _ _ j this, of p] all b same obtain sp2 printed where
    "sweep p I sp1 = Some (Inr (sp2, printed))" "sp_cells sp2 ! j = Free" "set_state b Usable \<in> set (c (sp_usable_blocks sp2))"
    by auto
  with tr show ?thesis by (simp add: gc_def Let_def)
qed

section \<open>Allocation with the collector's barrier\<close>

context block_queue_spec
begin

lemmas collecting_alloc_placed = barrier.alloc_placed
lemmas collecting_alloc_returns = supplier.alloc_returns

end

lemmas alloc_good_collecting = block_queue_spec.collecting_alloc_placed [OF block_queue_specI]
lemmas alloc_returns_collecting = block_queue_spec.collecting_alloc_returns [OF block_queue_specI]

section \<open>Registered objects\<close>

text \<open>\<open>init_object\<close> with an encoding that has the object-start bit makes the address a valid
  object for the root scan, \<open>get_ref_byte\<close> reads the encoding back, and the bytes of all other
  words are unchanged.\<close>

lemma init_object_roundtrip:
  assumes tb: "tables_ok (wd_space w)" and m: "ml_space_start m = sp_start (wd_space w)"
    and a: "sp_start (wd_space w) \<le> a" "a < sp_end (wd_space w)"
    and slot: "(addr_nat a - addr_nat (sp_start (wd_space w))) div 8 < space_size (wd_space w) div 8"
    and enc: "encode AND 64 \<noteq> 0"
  shows "\<exists>w'. init_object p m w a encode = Inr w' \<and> tables_ok (wd_space w') \<and>
    is_valid_object p a (sp_start (wd_space w')) (sp_end (wd_space w')) (sp_alloc_map (wd_space w')) = Inr True \<and>
    get_ref_byte p (am_cells (sp_alloc_map (wd_space w'))) (sp_start (wd_space w')) (to_object_reference a) = Inr encode \<and>
    (\<forall>j. j \<noteq> (addr_nat a - addr_nat (sp_start (wd_space w))) div 8 \<longrightarrow>
       am_cells (sp_alloc_map (wd_space w')) ! j = am_cells (sp_alloc_map (wd_space w)) ! j)"
proof -
  let ?i = "(addr_nat a - addr_nat (sp_start (wd_space w))) div 8"
  let ?w = "w\<lparr>wd_space := (wd_space w)\<lparr>sp_alloc_map := (sp_alloc_map (wd_space w))
    \<lparr>am_cells := (am_cells (sp_alloc_map (wd_space w)))[?i := encode]\<rparr>\<rparr>\<rparr>"
  have len: "?i < length (am_cells (sp_alloc_map (wd_space w)))" using tb slot by (simp add: tables_ok_def)
  have "init_object p m w a encode = Inr ?w"
    using a(1) len by (simp add: init_object_def m diff_ok unat_div_pointer Let_def)
  moreover have tb': "tables_ok (wd_space ?w)" using tb by (simp add: tables_ok_def)
  have "ref_byte (wd_space ?w) (to_object_reference a) = encode" using len by (simp add: ref_byte_def)
  moreover from this have "get_ref_byte p (am_cells (sp_alloc_map (wd_space ?w))) (sp_start (wd_space ?w))
      (to_object_reference a) = Inr encode"
    using get_ref_byte_eq [of "wd_space ?w" "to_object_reference a" p] a(1) len by simp
  moreover have "is_valid_object p a (sp_start (wd_space ?w)) (sp_end (wd_space ?w)) (sp_alloc_map (wd_space ?w)) = Inr True"
    using a tb len enc
    by (simp add: is_valid_object_def am_get_def tables_ok_def diff_ok unat_drop_pointer debug_assert_def
        guard_res_def Let_def start_mask not_le not_less)
  ultimately show ?thesis using tb' by (intro exI [of _ ?w]) simp
qed

end
