(* ===== verification/Example_Heap.thy ===== *)
theory Example_Heap
  imports Gc
begin

unbundle bit_operations_syntax

text \<open>
  A concrete one-block space, a mutator and a heap of two linked objects, on which the
  properties are instantiated. The space is the one \<open>space_new\<close> makes for \<open>mmap\<close> returning
  the aligned address 524288, before or after some objects have been placed in it.
\<close>

section \<open>The space\<close>

definition ex_start :: address where "ex_start = Address 524288"
definition ex_block :: immix_block where "ex_block = nth_block ex_start 0"

definition ex_space :: "u8 list \<Rightarrow> u8 \<Rightarrow> line_mark list \<Rightarrow> immix_block list \<Rightarrow> immix_block list
    \<Rightarrow> (immix_block list \<times> nat) immix_space" where
  "ex_space bytes state lines usable used =
     \<lparr>sp_start = ex_start, sp_end = Address 589824,
      sp_alloc_map = \<lparr>am_start = ex_start, am_end = Address 589824, am_cells = bytes, am_layout = 8192\<rparr>,
      sp_trace_map = \<lparr>tm_map = \<lparr>sm_offset = 524288, sm_addresses = replicate 8192 0\<rparr>, tm_mark_state = state\<rparr>,
      sp_line_mark_table = \<lparr>lt_space_start = ex_start, lt_cells = lines, lt_len = 256\<rparr>,
      sp_total_blocks = 1, sp_mmap = (524288, 589824),
      sp_usable_blocks = (usable, 0), sp_used_blocks = (used, 0)\<rparr>"

lemma ex_space_sel [simp]:
  "sp_start (ex_space bs st ls us ud) = ex_start"
  "sp_end (ex_space bs st ls us ud) = Address 589824"
  "sp_cells (ex_space bs st ls us ud) = ls"
  "am_cells (sp_alloc_map (ex_space bs st ls us ud)) = bs"
  "sp_total_blocks (ex_space bs st ls us ud) = 1"
  "sp_usable_blocks (ex_space bs st ls us ud) = (us, 0)"
  "sp_used_blocks (ex_space bs st ls us ud) = (ud, 0)"
  "sp_trace_map (ex_space bs st ls us ud) =
     \<lparr>tm_map = \<lparr>sm_offset = 524288, sm_addresses = replicate 8192 0\<rparr>, tm_mark_state = st\<rparr>"
  by (simp_all add: ex_space_def)

lemma ex_start_sel [simp]: "as_usize ex_start = 524288"
  by (simp add: ex_start_def)

lemma ex_tables_ok [simp]:
  "length bs = 8192 \<Longrightarrow> length ls = 256 \<Longrightarrow> tables_ok (ex_space bs st ls us ud)"
  by (simp add: tables_ok_def ex_space_def table_ok_def address_le_iff)

lemma ex_block_wf [simp]: "block_wf (ex_space bs st ls us ud) ex_block"
  by (simp add: block_wf_def ex_block_def)

lemma ex_space_ok [simp]:
  "length bs = 8192 \<Longrightarrow> length ls = 256 \<Longrightarrow> us @ ud @ held = [ex_block] \<Longrightarrow>
     space_ok fst held (ex_space bs st ls us ud)"
  by (simp add: space_ok_def all_blocks_def) (simp add: ex_block_def)

lemma ex_block_lines: "block_lines ex_block = {0..<256}"
  by (simp add: block_lines_def ex_block_def)

section \<open>The world\<close>

definition ex_world :: "'q immix_space \<Rightarrow> (usize \<Rightarrow> usize) \<Rightarrow> object_reference list \<Rightarrow> 'q world" where
  "ex_world sp mem roots = \<lparr>wd_space = sp,
     wd_registry = \<lparr>rg_globals = (\<lambda>_. mg_new), rg_arena = [(0, 0)], rg_n_mutators = 1\<rparr>,
     wd_mem = mem, wd_controller = NO_CONTROLLER, wd_stw_count = 0, wd_roots = roots, wd_gc_count = 0, wd_printed = []\<rparr>"

lemma ex_world_sel [simp]:
  "wd_space (ex_world sp mem roots) = sp" "wd_mem (ex_world sp mem roots) = mem"
  "wd_roots (ex_world sp mem roots) = roots"
  "wd_registry (ex_world sp mem roots) = \<lparr>rg_globals = (\<lambda>_. mg_new), rg_arena = [(0, 0)], rg_n_mutators = 1\<rparr>"
  "wd_controller (ex_world sp mem roots) = NO_CONTROLLER" "wd_gc_count (ex_world sp mem roots) = 0"
  by (simp_all add: ex_world_def)

definition ex_mutator :: mutator_local where
  "ex_mutator = \<lparr>ml_id = (0, 0), ml_space_start = ex_start, ml_cursor = null_address,
     ml_limit = null_address, ml_line = 256, ml_block = None\<rparr>"

definition ex_env :: scan_env where
  "ex_env = \<lparr>se_stack_ptr = 4096, se_low_water_mark = 4112, se_regs = [0, 524288]\<rparr>"

text \<open>A trace by one worker that takes the oldest reference, and one by two workers in turn.\<close>

definition ex_sched :: trace_env where
  "ex_sched = \<lparr>te_cpus = 1, te_next = (\<lambda>_ _. 0), te_worker = (\<lambda>_. 0), te_first_panics = None\<rparr>"

definition ex_pair_sched :: trace_env where
  "ex_pair_sched = \<lparr>te_cpus = 2, te_next = (\<lambda>k _. k), te_worker = (\<lambda>k. k), te_first_panics = None\<rparr>"

lemma ex_sched_cpus [simp]: "te_cpus ex_sched = 1" "te_cpus ex_pair_sched = 2"
  by (simp_all add: ex_sched_def ex_pair_sched_def)

definition ex_layout :: layout where
  "ex_layout = \<lparr>ly_size = 32, ly_align = 8\<rparr>"

lemma ex_layout_ok [simp]: "layout_ok ex_layout" "unat (ly_size ex_layout) = 32" "unat (ly_align ex_layout) = 8"
  by (simp_all add: ex_layout_def layout_ok_def) (rule exI [of _ 3], simp)

lemma ex_scan_ok [simp]: "scan_ok ex_env"
  by (simp add: scan_ok_def ex_env_def)

abbreviation ex_fresh_space :: "(immix_block list \<times> nat) immix_space" where
  "ex_fresh_space \<equiv> ex_space (replicate 8192 0) 0 (replicate 256 Free) [ex_block] []"

abbreviation ex_fresh :: "(immix_block list \<times> nat) world" where
  "ex_fresh \<equiv> ex_world ex_fresh_space (\<lambda>_. 0) []"

lemma ex_alloc_pre [simp]: "alloc_pre fst ex_mutator ex_fresh"
  by (simp add: alloc_pre_def pool_ok_def held_by_def ex_mutator_def mut_ok_def user_space_def)
    (rule exI [of _ "[]"], simp)

lemma ex_block_ready [simp]: "block_ready fst ex_fresh"
  by (simp add: block_ready_def) (rule exI [of _ 0], simp add: ex_block_def)

lemma ex_quiet [simp]: "\<not> take_yield (rg_globals (wd_registry ex_fresh) (ml_id ex_mutator))"
  by (simp add: take_yield_def mg_new_def)

section \<open>Two objects\<close>

text \<open>The object at 524288 refers to the one at 525312, which holds the null reference.\<close>

definition ex_bytes :: "u8 list" where
  "ex_bytes = (replicate 8192 0)[0 := 193, 128 := 193]"

definition ex_lines :: "line_mark list" where
  "ex_lines = (replicate 256 Free)[0 := FreshAlloc, 4 := FreshAlloc]"

definition ex_mem :: "usize \<Rightarrow> usize" where
  "ex_mem a = (if a = 524288 then 525312 else 0)"

abbreviation ex_heap_space :: "(immix_block list \<times> nat) immix_space" where
  "ex_heap_space \<equiv> ex_space ex_bytes 1 ex_lines [] [ex_block]"

abbreviation ex_heap :: "(immix_block list \<times> nat) world" where
  "ex_heap \<equiv> ex_world ex_heap_space ex_mem [ObjectReference 524288]"

lemma ex_lengths [simp]: "length ex_bytes = 8192" "length ex_lines = 256"
  by (simp_all add: ex_bytes_def ex_lines_def)

lemma ex_ref_byte:
  "ref_byte (ex_space ex_bytes st ls us ud) (ObjectReference 524288) = 193"
  "ref_byte (ex_space ex_bytes st ls us ud) (ObjectReference 525312) = 193"
  by (simp_all add: ref_byte_def ex_bytes_def to_address_def)

lemma ex_wf_object:
  "wf_object (ex_space ex_bytes st ls us ud) (ObjectReference 524288)"
  "wf_object (ex_space ex_bytes st ls us ud) (ObjectReference 525312)"
  by (simp_all add: wf_object_def ex_ref_byte address_le_iff address_less_iff to_address_def)

lemma ex_succ:
  "heap_succ (ex_space ex_bytes st ls us ud) ex_mem (ObjectReference 524288) = {ObjectReference 525312}"
  "heap_succ (ex_space ex_bytes st ls us ud) ex_mem (ObjectReference 525312) = {}"
  by (auto simp: heap_succ_def obj_fields_def obj_offsets_def ex_ref_byte ref_offsets_def ex_mem_def
      in_trace_range_def address_le_iff to_address_def)

lemma ex_reach:
  "reach {ObjectReference 524288} (heap_succ (ex_space ex_bytes st ls us ud) ex_mem) =
     {ObjectReference 524288, ObjectReference 525312}" (is "?R = ?S")
proof
  have "x \<in> ?S" if "x \<in> ?R" for x
    using that by induction (auto simp: ex_succ)
  then show "?R \<subseteq> ?S" by blast
  have "ObjectReference 524288 \<in> ?R" by (rule reach.root) simp
  moreover from this have "ObjectReference 525312 \<in> ?R" by (rule reach.edge) (simp add: ex_succ)
  ultimately show "?S \<subseteq> ?R" by blast
qed

text \<open>No cell carries the mark state, so the trace follows every reference.\<close>

lemma ex_followed:
  "length ls = 256 \<Longrightarrow> reach R (followed (ex_space ex_bytes 1 ls us ud) ex_mem) =
     reach R (heap_succ (ex_space ex_bytes 1 ls us ud) ex_mem)"
proof -
  assume len: "length ls = 256"
  let ?sp = "ex_space ex_bytes 1 ls us ud"
  have tb: "tables_ok ?sp" using len by simp
  have "v \<in> followed ?sp ex_mem r \<longleftrightarrow> v \<in> heap_succ ?sp ex_mem r" for r v
    using trace_get_start [OF tb, of v] len
    by (auto simp: followed_def heap_succ_def in_trace_range_def)
  then have "followed ?sp ex_mem = heap_succ ?sp ex_mem" by blast
  then show ?thesis by simp
qed

lemma ex_untraced:
  "is_untraced_and_valid (sp_trace_map ex_heap_space) 524288"
  "is_untraced_and_valid (sp_trace_map ex_heap_space) 525312"
  by (simp_all add: is_untraced_and_valid_def sm_get_def POINTER_SIZE_def Let_def)

lemma ex_trace:
  "\<exists>sp'. start_trace p sched ex_mem [ObjectReference 524288] (ex_space ex_bytes st ex_lines us ud) = Some (Inr sp')"
proof (rule start_trace_succeeds)
  let ?sp = "ex_space ex_bytes st ex_lines us ud"
  show tb: "tables_ok ?sp" by simp
  show "\<forall>r\<in>reach (set [ObjectReference 524288]) (followed ?sp ex_mem). wf_object ?sp r"
    using reach_followed [OF tb, of "{ObjectReference 524288}" ex_mem] by (auto simp: ex_reach ex_wf_object)
qed

text \<open>The hypotheses of the collector's theorems, for this heap.\<close>

abbreviation ex_reachable :: "object_reference set" where
  "ex_reachable \<equiv> reach (set (wd_roots ex_heap)) (followed (wd_space ex_heap) (wd_mem ex_heap))"

lemma ex_reachable_eq: "ex_reachable = {ObjectReference 524288, ObjectReference 525312}"
  by (simp add: ex_followed ex_reach)

lemma ex_heap_ok: "space_ok fst [] (wd_space ex_heap)"
  by simp

lemma ex_heap_aligned: "\<forall>x\<in>ex_reachable. 8 dvd addr_nat (to_address x)"
  unfolding ex_reachable_eq by (simp add: to_address_def)

lemma ex_heap_wf: "\<forall>x\<in>ex_reachable. wf_object (wd_space ex_heap) x"
  unfolding ex_reachable_eq by (simp add: ex_wf_object)

lemma ex_heap_second: "ObjectReference 525312 \<in> ex_reachable"
  unfolding ex_reachable_eq by simp

lemmas ex_trace_facts = ex_heap_aligned [unfolded ex_world_sel]
  ex_heap_second [unfolded ex_world_sel]

lemma ex_gc: "\<exists>w'. gc p (fifo_ops 0) sched ex_heap = Some (Inr w') \<and> wd_cells w' ! 9 = Free"
  using gc_succeeds [OF fifo_ops_laws, of "[]" ex_heap p ex_block 9 0 sched]
  by (auto simp: ex_followed ex_reach ex_wf_object ex_block_lines ex_lines_def to_address_def)

text \<open>The sweep of this heap alone, before any trace: no line is retained.\<close>

lemma ex_heap_freed:
  "full_blocks fst ex_heap_space = []" "freed_blocks fst ex_heap_space = [ex_block]"
  "unmarked_lines ex_lines ex_block = 256"
proof -
  have unmarked: "\<not> retained (ex_lines ! j)" if "j < 256" for j using that by (simp add: ex_lines_def nth_list_update retained_def)
  then have "{j \<in> block_lines ex_block. \<not> retained (ex_lines ! j)} = {0..<256}" by (auto simp: ex_block_lines)
  then show "unmarked_lines ex_lines ex_block = 256" by (simp add: unmarked_lines_def)
  have "has_free ex_lines ex_block" using unmarked [of 0] by (auto simp: has_free_def ex_block_lines)
  then show "full_blocks fst ex_heap_space = []" "freed_blocks fst ex_heap_space = [ex_block]"
    by (simp_all add: full_blocks_def freed_blocks_def)
qed

text \<open>A place that nothing refers to.\<close>

lemma ex_unreached:
  "in_trace_range ex_heap_space (ObjectReference 532480)" "is_untraced_and_valid (sp_trace_map ex_heap_space) 532480"
  "mark_slot ex_heap_space (ObjectReference 532480) = 1024" "mark_slot ex_heap_space (ObjectReference 524288) = 0"
  "mark_slot ex_heap_space (ObjectReference 525312) = 128"
  by (simp_all add: in_trace_range_def to_address_def address_le_iff is_untraced_and_valid_def sm_get_def POINTER_SIZE_def Let_def)

text \<open>After the collection the mutator can allocate.\<close>

lemma ex_ready_after_gc:
  assumes run: "gc p (fifo_ops 0) sched w = Some (Inr w')" and sp: "wd_space w = ex_heap_space"
    and free: "wd_cells w' ! 9 = Free" "set_state ex_block Usable \<in> set (fst (sp_usable_blocks (wd_space w')))"
  shows "alloc_pre fst ex_mutator w' \<and> block_ready fst w' \<and> wd_registry w' = wd_registry w"
proof -
  have "space_ok fst [] (wd_space w)" using sp by simp
  note g = gc_frame [OF fifo_ops_laws this run]
  have sp': "sp_start (wd_space w') = ex_start" "sp_end (wd_space w') = Address 589824"
    "sp_total_blocks (wd_space w') = 1"
    using g(2) sp by (simp_all add: heap_frame_def)
  have "size (mset (map ib_id (all_blocks fst [] (wd_space w')))) = 1"
    using g(1) sp'(3) by (simp add: space_ok_def)
  then have "length (fst (sp_usable_blocks (wd_space w'))) \<le> 1" by (simp add: all_blocks_def)
  then have us: "fst (sp_usable_blocks (wd_space w')) = [set_state ex_block Usable]"
    using free(2) by (cases "fst (sp_usable_blocks (wd_space w'))") auto
  have "block_ready fst w'"
    using free(1) by (simp add: block_ready_def us) (rule exI [of _ 9], simp add: ex_block_def)
  moreover have "pool_ok fst ex_mutator w'"
    unfolding pool_ok_def using g(1) by (intro exI [of _ "[]"]) (simp add: held_by_def ex_mutator_def)
  then have "alloc_pre fst ex_mutator w'"
    using sp' by (simp add: alloc_pre_def mut_ok_def ex_mutator_def user_space_def)
  moreover have "wd_registry w' = wd_registry w" by (rule gc_stages [OF run]) simp
  ultimately show ?thesis by blast
qed

lemma ex_after_gc:
  "\<exists>w'. gc p (fifo_ops 0) sched ex_heap = Some (Inr w') \<and> alloc_pre fst ex_mutator w' \<and>
     block_ready fst w' \<and> \<not> take_yield (rg_globals (wd_registry w') (ml_id ex_mutator))"
proof -
  from gc_succeeds [OF fifo_ops_laws, of "[]" ex_heap p ex_block 9 0 sched]
  obtain w' where w': "gc p (fifo_ops 0) sched ex_heap = Some (Inr w')" "wd_cells w' ! 9 = Free"
    "set_state ex_block Usable \<in> set (fst (sp_usable_blocks (wd_space w')))"
    by (auto simp: ex_followed ex_reach ex_wf_object ex_block_lines ex_lines_def to_address_def)
  from ex_ready_after_gc [OF w'(1) _ w'(2,3)] w'(1) show ?thesis by (auto simp: take_yield_def mg_new_def)
qed

lemma ex_alloc:
  assumes "alloc_pre fst ex_mutator w" and "block_ready fst w"
    and "\<not> take_yield (rg_globals (wd_registry w) (ml_id ex_mutator))"
  shows "\<exists>a m' w'. alloc 3 p (fifo_ops 0) no_barrier ex_layout ex_mutator w = Some (Inr (a, m', w'))"
  using fifo_blocks.alloc_quiet_returns [of ex_layout ex_mutator w p 0] assms by auto

section \<open>A mutator in the middle of a hole\<close>

definition ex_bumping :: mutator_local where
  "ex_bumping = \<lparr>ml_id = (0, 0), ml_space_start = ex_start, ml_cursor = ex_start,
     ml_limit = Address 524800, ml_line = 2, ml_block = Some ex_block\<rparr>"

abbreviation ex_claimed :: "(immix_block list \<times> nat) world" where
  "ex_claimed \<equiv> ex_world (ex_space (replicate 8192 0) 0
     ((replicate 256 Free)[0 := FreshAlloc, 1 := FreshAlloc]) [] []) (\<lambda>_. 0) []"

lemma ex_bumping_pre: "alloc_pre fst ex_bumping ex_claimed"
proof -
  have "pool_ok fst ex_bumping ex_claimed"
    unfolding pool_ok_def by (rule exI [of _ "[]"]) (simp add: held_by_def ex_bumping_def)
  moreover have "ib_start ex_block = ex_start" "sl_ptr (ib_lines ex_block) = 0"
    by (simp_all add: ex_block_def nth_block_def ex_start_def)
  then have "mut_ok (wd_space ex_claimed) ex_bumping"
    by (auto simp: mut_ok_def ex_bumping_def address_le_iff less_2_cases_iff)
  ultimately show ?thesis by (simp add: alloc_pre_def user_space_def)
qed

lemma ex_bump:
  "alloc fuel Debug I slow ex_layout (ex_bumping\<lparr>ml_cursor := Address (524288 + n)\<rparr>) w =
     Some (Inr (Address (524288 + n), ex_bumping\<lparr>ml_cursor := Address (524320 + n)\<rparr>, w))"
  if "n = 0 \<or> n = 32 \<or> n = 64"
  using that
  by (auto simp: alloc.simps bump_def align_up_def addr_plus_def usize_add_def usize_sub_def ex_layout_def
      ex_bumping_def ex_mutator_def address_order)

lemma ex_two_allocs:
  "alloc 0 Debug I slow ex_layout ex_bumping w =
     Some (Inr (Address 524288, ex_bumping\<lparr>ml_cursor := Address 524320\<rparr>, w))"
  "alloc 0 Debug I slow ex_layout (ex_bumping\<lparr>ml_cursor := Address 524320\<rparr>) w =
     Some (Inr (Address 524320, ex_bumping\<lparr>ml_cursor := Address 524352\<rparr>, w))"
  using ex_bump [of 0 0 I slow w] ex_bump [of 32 0 I slow w]
  by (simp_all add: ex_bumping_def ex_start_def)

section \<open>A heap without roots whose line 7 is still marked\<close>

abbreviation ex_garbage :: "(immix_block list \<times> nat) world" where
  "ex_garbage \<equiv> ex_world (ex_space ex_bytes 1 (ex_lines[7 := Live]) [] [ex_block]) ex_mem []"

lemma ex_garbage_ok: "space_ok fst [] (wd_space ex_garbage)"
  by simp

lemma reach_empty [simp]: "reach {} succ = {}"
proof -
  have False if "x \<in> reach {} succ" for x using that by induction auto
  then show ?thesis by blast
qed

lemma ex_garbage_gc: "\<exists>w'. gc p (fifo_ops 0) sched ex_garbage = Some (Inr w')"
  using gc_succeeds [OF fifo_ops_laws ex_garbage_ok, of p ex_block 9 0 sched]
  by (auto simp: ex_block_lines ex_lines_def)

section \<open>A run of the barrier\<close>

lemma ex_scan_roots:
  "length ls = 256 \<Longrightarrow> stack_scan p ex_env ex_mem (ex_space ex_bytes st ls us ud) = Some (Inr [ObjectReference 524288])"
  by (subst stack_scan_ok)
    (simp_all add: ex_env_def stack_words_def from_ptr_def get_low_water_mark_def ex_mem_def starts_object_def
      ex_ref_byte address_le_iff address_less_iff to_address_def upt_rec)

text \<open>The scan finds the first object again in a register, so the roots hold it twice.\<close>

lemma ex_barrier_any:
  fixes g :: "index \<Rightarrow> mutator_global"
  defines "w \<equiv> ex_heap\<lparr>wd_registry := \<lparr>rg_globals = g, rg_arena = [(0, 0)], rg_n_mutators = 1\<rparr>\<rparr>"
  shows "\<exists>m' w'. sync_barrier p (fifo_ops 0) sched ex_env ex_mutator w = Some (Inr (m', w'))"
proof -
  have roots: "stack_scan p ex_env ex_mem ex_heap_space = Some (Inr [ObjectReference 524288])"
    by (rule ex_scan_roots) simp
  let ?w1 = "w\<lparr>wd_controller := 0, wd_roots := [ObjectReference 524288, ObjectReference 524288]\<rparr>"
  have "\<exists>w'. gc p (fifo_ops 0) sched ?w1 = Some (Inr w')"
    using gc_succeeds [OF fifo_ops_laws, of "[]" ?w1 p ex_block 9 0 sched]
    by (auto simp: w_def ex_followed ex_reach ex_wf_object ex_block_lines ex_lines_def to_address_def)
  then show ?thesis
    using roots
    by (auto simp: w_def sync_barrier_def enter_barrier_def prepare_for_gc_def return_block_def ex_mutator_def
        usize_sub_def NO_CONTROLLER_def)
qed

lemma ex_barrier:
  "\<exists>m' w'. sync_barrier p (fifo_ops 0) sched ex_env ex_mutator ex_heap = Some (Inr (m', w'))"
  using ex_barrier_any [of p sched "\<lambda>_. mg_new"] by (simp add: ex_world_def)

end
