(* ===== verification/Example_Run.thy ===== *)
theory Example_Run
  imports Example_Heap Trace_Spec
begin

unbundle bit_operations_syntax

text \<open>
  A run of two trace workers on the example heap, with the second object as the only root:
  one worker takes and processes it, the other finds nothing, and both see that the trace is
  over.
\<close>

abbreviation ex_root :: object_reference where
  "ex_root \<equiv> ObjectReference 525312"

abbreviation ex_run :: "tstate \<Rightarrow> bool" where
  "ex_run \<equiv> treach Debug ex_heap_space ex_mem 2 [ex_root]"

lemma ex_step:
  "ex_run s \<Longrightarrow> i < 2 \<Longrightarrow> tstep Debug ex_heap_space ex_mem i s s' \<Longrightarrow> ex_run s'"
  by (rule treach.step)

text \<open>Where the run stands: the two workers, the injector and the counter.\<close>

definition stage :: "worker_pc \<Rightarrow> worker_pc \<Rightarrow> object_reference list \<Rightarrow> usize \<Rightarrow> tstate \<Rightarrow> bool" where
  "stage pc0 pc1 work act s \<longleftrightarrow> ex_run s \<and> ts_pc s 0 = pc0 \<and> ts_pc s 1 = pc1 \<and>
     ts_injector s = work \<and> ts_active s = act \<and> ts_queue s 0 = [] \<and> ts_queue s 1 = [] \<and>
     tables_ok (with_marks ex_heap_space (ts_map s) (ts_lines s))"

lemma stage_next:
  assumes "stage pc0 pc1 work act s" and "tstep Debug ex_heap_space ex_mem i s s'" and "i < 2"
    and "ts_pc s' 0 = pc0'" "ts_pc s' 1 = pc1'" "ts_injector s' = work'" "ts_active s' = act'"
    and "ts_queue s' 0 = []" "ts_queue s' 1 = []" "ts_map s' = ts_map s" "ts_lines s' = ts_lines s"
  shows "stage pc0' pc1' work' act' s'"
  using assms treach.step [OF _ assms(3,2)] by (simp add: stage_def)

lemma stage_visit:
  assumes "stage (Visiting ex_root) pc1 work act s"
  shows "\<exists>s'. stage (Lining ex_root) pc1 work act s'"
proof -
  have tb: "tables_ok (with_marks ex_heap_space (ts_map s) (ts_lines s))" and run: "ex_run s"
    and pc: "ts_pc s 0 = Visiting ex_root" "ts_pc s 1 = pc1"
    using assms by (simp_all add: stage_def)
  have r: "sp_start ex_heap_space \<le> to_address ex_root" "to_address ex_root < sp_end ex_heap_space"
    using ex_wf_object(2) [of 1 ex_lines "[]" "[ex_block]"] by (simp_all add: wf_object_def)
  then have "sm_slot (tm_map (ts_map s)) (to_ptr (to_address ex_root)) = Some (mark_slot ex_heap_space ex_root)"
    using trace_slot [OF tb, of ex_root] space_in_trace_range [OF r] by (simp add: to_ptr_def)
  then have mark: "mark_as_traced Debug (ts_map s) (to_ptr (to_address ex_root)) =
      Inr (mark_slot_in (mark_slot ex_heap_space ex_root) (ts_map s))"
    by (simp add: mark_as_traced_ok mark_slot_in_def)
  let ?s = "goto 0 (Lining ex_root) (s\<lparr>ts_map := mark_slot_in (mark_slot ex_heap_space ex_root) (ts_map s)\<rparr>)"
  have "tstep Debug ex_heap_space ex_mem 0 s ?s"
    using pc mark r by (intro tstep.object) simp
  then have "ex_run ?s" by (rule treach.step [OF run, rotated]) simp
  then have "stage (Lining ex_root) pc1 work act ?s"
    using assms tables_ok_marked [OF tb, of "mark_slot ex_heap_space ex_root"] tb
    by (simp add: stage_def tables_ok_def)
  then show ?thesis by blast
qed

lemma stage_line:
  assumes "stage (Lining ex_root) pc1 work act s"
  shows "\<exists>s'. stage (Reading ex_root) pc1 work act s'"
proof -
  have tb: "tables_ok (with_marks ex_heap_space (ts_map s) (ts_lines s))" and run: "ex_run s"
    and pc: "ts_pc s 0 = Lining ex_root"
    using assms by (simp_all add: stage_def)
  let ?l = "line_of (sp_start ex_heap_space) (to_address ex_root)"
  have "mark_line_live Debug (ts_lines s) (to_address ex_root) = Inr (mark_line_in ?l (ts_lines s))"
    using tb ex_wf_object(2) [of 1 ex_lines "[]" "[ex_block]"] mark_line_live_ok [of "ts_lines s" "to_address ex_root" Debug]
    by (simp add: tables_ok_def mark_line_in_def wf_object_def)
  then have "tstep Debug ex_heap_space ex_mem 0 s (goto 0 (Reading ex_root) (s\<lparr>ts_lines := mark_line_in ?l (ts_lines s)\<rparr>))"
    (is "tstep _ _ _ _ _ ?s") using pc by (intro tstep.object) simp
  then have "ex_run ?s" by (rule treach.step [OF run, rotated]) simp
  then have "stage (Reading ex_root) pc1 work act ?s"
    using assms tb by (simp add: stage_def tables_ok_def table_ok_def)
  then show ?thesis by blast
qed

lemma ex_root_byte:
  "get_ref_byte Debug (am_cells (sp_alloc_map ex_heap_space)) (sp_start ex_heap_space) ex_root = Inr 193"
  using get_ref_byte_eq [of ex_heap_space ex_root Debug] ex_ref_byte(2) [of 1 ex_lines "[]" "[ex_block]"]
  by (simp add: address_le_iff to_address_def)

text \<open>The steps that leave both tables alone.\<close>

lemma with_marks_id: "with_marks sp (sp_trace_map sp) (sp_line_mark_table sp) = sp"
  by simp

lemma stage_start: "stage Popping Popping [ex_root] 2 (workers_start 2 [ex_root] ex_heap_space)"
proof -
  have "tables_ok (with_marks ex_heap_space (sp_trace_map ex_heap_space) (sp_line_mark_table ex_heap_space))"
    unfolding with_marks_id by (rule ex_tables_ok) simp_all
  moreover have "ex_run (workers_start 2 [ex_root] ex_heap_space)" by (rule treach.init)
  ultimately show ?thesis by (simp add: stage_def workers_start_def)
qed

lemma stage_sel:
  assumes "stage pc0 pc1 work act s"
  shows "ts_pc s 0 = pc0" "ts_pc s 1 = pc1" "ts_injector s = work" "ts_active s = act"
    "ts_queue s 0 = []" "ts_queue s 1 = []" "ts_pc s (Suc 0) = pc1" "ts_queue s (Suc 0) = []"
  using assms by (simp_all add: stage_def)

lemma stage_first:
  assumes "stage pc0 pc1 work act s"
  shows "pc0 = Popping \<Longrightarrow> \<exists>s'. stage Stealing pc1 work act s'"
    and "pc0 = Stealing \<Longrightarrow> work = v # rest \<Longrightarrow> \<exists>s'. stage (Visiting v) pc1 rest act s'"
    and "pc0 = Stealing \<Longrightarrow> work = [] \<Longrightarrow> \<exists>s'. stage Leaving pc1 work act s'"
    and "pc0 = Leaving \<Longrightarrow> \<exists>s'. stage Spinning pc1 work (act - 1) s'"
    and "pc0 = Spinning \<Longrightarrow> work = [] \<Longrightarrow> \<exists>s'. stage Counting pc1 work act s'"
    and "pc0 = Counting \<Longrightarrow> act = 0 \<Longrightarrow> \<exists>s'. stage Returned pc1 work act s'"
  using stage_next [OF assms tstep.pop_none [of s 0]] 
    stage_next [OF assms tstep.steal [of s 0 v "[]" rest]] 
    stage_next [OF assms tstep.steal_empty [of s 0]] 
    stage_next [OF assms tstep.leave [of s 0]] 
    stage_next [OF assms tstep.spin_empty [of s 0]] 
    stage_next [OF assms tstep.count_zero [of s 0]] 
  by (fastforce simp: stage_sel [OF assms])+

lemma stage_second:
  assumes "stage pc0 pc1 work act s"
  shows "pc1 = Popping \<Longrightarrow> \<exists>s'. stage pc0 Stealing work act s'"
    and "pc1 = Stealing \<Longrightarrow> work = [] \<Longrightarrow> \<exists>s'. stage pc0 Leaving work act s'"
    and "pc1 = Leaving \<Longrightarrow> \<exists>s'. stage pc0 Spinning work (act - 1) s'"
  using stage_next [OF assms tstep.pop_none [of s 1]] 
    stage_next [OF assms tstep.steal_empty [of s 1]] 
    stage_next [OF assms tstep.leave [of s 1]] 
  by (fastforce simp: stage_sel [OF assms])+

lemma stage_read:
  assumes "stage (Reading ex_root) pc1 work act s"
  shows "\<exists>s'. stage (Scanning ex_root [0]) pc1 work act s'"
proof -
  have "ref_offsets ((193 :: 8 word) AND (push_bit REF_BITS_LEN 1 - 1)) = Inr [0]" by code_simp
  then have "tstep Debug ex_heap_space ex_mem 0 s (goto 0 (Scanning ex_root [0]) s)"
    using ex_root_byte stage_sel(1) [OF assms] by (intro tstep.object) simp
  from stage_next [OF assms this] show ?thesis
    by (fastforce simp: stage_sel [OF assms])
qed

lemma stage_scan:
  assumes "stage (Scanning ex_root [0]) pc1 work act s"
  shows "\<exists>s'. stage (Scanning ex_root []) pc1 work act s'"
proof -
  have "load_ref Debug ex_mem (to_address ex_root) 0 = Inr (ObjectReference 0)"
    by (subst load_ref_ok) (simp_all add: to_address_def ex_mem_def)
  moreover have "\<not> is_untraced_and_valid (ts_map s) 0"
    using assms by (simp add: stage_def tables_ok_def is_untraced_and_valid_def sm_get_def
        POINTER_SIZE_def Let_def)
  ultimately have "tstep Debug ex_heap_space ex_mem 0 s (goto 0 (Scanning ex_root []) s)"
    using stage_sel(1) [OF assms] by (intro tstep.object) simp
  from stage_next [OF assms this] show ?thesis
    by (fastforce simp: stage_sel [OF assms])
qed

lemma stage_done:
  assumes "stage (Scanning ex_root []) pc1 work act s"
  shows "\<exists>s'. stage Popping pc1 work act s'"
proof -
  have "(193 :: 8 word) AND push_bit SHORT_ENCODE_BIT 1 \<noteq> 0" by code_simp
  then have "tstep Debug ex_heap_space ex_mem 0 s (goto 0 Popping s)"
    using ex_root_byte stage_sel(1) [OF assms] by (intro tstep.object) simp
  from stage_next [OF assms this] show ?thesis
    by (fastforce simp: stage_sel [OF assms])
qed

lemma ex_run_returns: "\<exists>s. stage Returned Spinning [] 0 s"
proof -
  obtain a where "stage Stealing Popping [ex_root] 2 a" using stage_first(1) [OF stage_start] by blast
  then obtain b where "stage (Visiting ex_root) Popping [] 2 b" using stage_first(2) by blast
  then obtain c where "stage (Lining ex_root) Popping [] 2 c" using stage_visit by blast
  then obtain d where "stage (Reading ex_root) Popping [] 2 d" using stage_line by blast
  then obtain e where "stage (Scanning ex_root [0]) Popping [] 2 e" using stage_read by blast
  then obtain f where "stage (Scanning ex_root []) Popping [] 2 f" using stage_scan by blast
  then obtain g where "stage Popping Popping [] 2 g" using stage_done by blast
  then obtain h where "stage Stealing Popping [] 2 h" using stage_first(1) by blast
  then obtain i where "stage Leaving Popping [] 2 i" using stage_first(3) by blast
  then obtain j where "stage Spinning Popping [] 1 j" using stage_first(4) by fastforce
  then obtain k where "stage Spinning Stealing [] 1 k" using stage_second(1) by blast
  then obtain l where "stage Spinning Leaving [] 1 l" using stage_second(2) by blast
  then obtain m where "stage Spinning Spinning [] 0 m" using stage_second(3) by fastforce
  then obtain n where "stage Counting Spinning [] 0 n" using stage_first(5) by blast
  then show ?thesis using stage_first(6) by blast
qed

text \<open>The heap as this run sees it.\<close>

lemma ex_root_reach: "reach (set [ex_root]) (followed ex_heap_space ex_mem) = {ex_root}" (is "?R = _")
proof
  have "x = ex_root" if "x \<in> ?R" for x using that unfolding ex_followed [OF ex_lengths(2)] by induction (auto simp: ex_succ)
  then show "?R \<subseteq> {ex_root}" by blast
  show "{ex_root} \<subseteq> ?R" by (simp add: reach.root)
qed

lemma ex_root_facts:
  "\<forall>r\<in>reach (set [ex_root]) (followed ex_heap_space ex_mem). 8 dvd addr_nat (to_address r)"
  "\<forall>r\<in>reach (set [ex_root]) (followed ex_heap_space ex_mem). wf_object ex_heap_space r"
  unfolding ex_root_reach using ex_wf_object(2) by simp_all

text \<open>A run whose root lies outside the space: the worker that takes it panics.\<close>

abbreviation ex_bad_run :: "tstate \<Rightarrow> bool" where
  "ex_bad_run \<equiv> treach Debug ex_heap_space ex_mem 2 [ObjectReference 0]"

lemma ex_bad_step:
  "ex_bad_run s \<Longrightarrow> tstep Debug ex_heap_space ex_mem 0 s s' \<Longrightarrow> ex_bad_run s'"
  using treach.step [where i = 0 and cpus = 2] by fastforce

lemma ex_run_panics: "\<exists>s. ex_bad_run s \<and> panicked 2 s"
proof -
  let ?a = "workers_start 2 [ObjectReference 0] ex_heap_space"
  let ?b = "goto 0 Stealing ?a"
  let ?c = "goto 0 (Visiting (ObjectReference 0)) (?b\<lparr>ts_injector := [], ts_queue := (ts_queue ?b)(0 := ts_queue ?b 0 @ [])\<rparr>)"
  let ?e = "AssertFailed ''addr >= space_start && addr < space_end''"
  have "ex_bad_run ?a" by (rule treach.init)
  moreover have "tstep Debug ex_heap_space ex_mem 0 ?a ?b"
    by (rule tstep.pop_none) (simp_all add: workers_start_def)
  ultimately have "ex_bad_run ?b" by (rule ex_bad_step)
  moreover have "tstep Debug ex_heap_space ex_mem 0 ?b ?c"
    by (rule tstep.steal) (simp_all add: workers_start_def)
  ultimately have "ex_bad_run ?c" by (rule ex_bad_step)
  moreover have "tstep Debug ex_heap_space ex_mem 0 ?c (goto 0 (Panicked ?e) ?c)"
    by (rule tstep.object) (simp add: to_address_def address_le_iff)
  ultimately have "ex_bad_run (goto 0 (Panicked ?e) ?c)" by (rule ex_bad_step)
  then show ?thesis by (intro exI conjI) (auto simp: panicked_def)
qed

end
