(* ===== verification/Stop_World.thy ===== *)
theory Stop_World
  imports Gc
begin

text \<open>
  The stop-the-world protocol of \<open>src/src/heap/gc/mod.rs\<close> with all its threads:
  \<open>sync_barrier\<close> and \<open>block_current_thread\<close> as the steps of any number of registered mutators,
  which share \<open>CONTROLLER\<close>, the counter and the condition variable of \<open>STW_COND\<close>, \<open>ROOTS\<close>
  and the flags of the registry. What a step does to the heap is the function that models it
  elsewhere (\<open>prepare_for_gc\<close>, \<open>stack_scan\<close>, \<open>gc\<close>, \<open>reset\<close>, the parts of \<open>alloc\<close>).

  The condition variable is the one of the \<open>parking_lot\<close> crate, whose documentation rules out
  spurious wake-ups: a waiting thread moves only when it is notified. A thread that panics
  stays where it is and takes no step any more; neither does a controller whose trace waits
  for a panicked worker forever (\<open>gc\<close> has the value \<open>None\<close>).

  Three groups of accesses are one step each: the test of the yield flag with the
  compare-exchange of \<open>CONTROLLER\<close>, the whole of \<open>gc\<close>, and the loop that resumes the mutators.
  What another thread does in between is a step before or after the group: up to its
  compare-exchange a thread is not parked, so that no collection starts, and while \<open>gc\<close> and the
  loop run every other thread is parked (\<open>stop_the_world\<close>). A mutator that came into being at
  that time could move in between; the runs of \<open>breach\<close> leave that out.
\<close>

declare split_paired_All [simp del] split_paired_Ex [simp del]

section \<open>States\<close>

text \<open>Where a mutator stands. The argument of \<open>Preparing\<close> and \<open>Rooting\<close> is what its
  compare-exchange saw: \<open>None\<close> when it has become the controller, otherwise the value of
  \<open>CONTROLLER\<close>.\<close>

datatype barrier_pc =
    Running
  | Preparing "int option" \<comment> \<open>before \<open>prepare_for_gc\<close>\<close>
  | Rooting "int option" \<comment> \<open>before \<open>stack_scan\<close> and the append to \<open>ROOTS\<close>\<close>
  | Locking \<comment> \<open>\<open>block_current_thread\<close>, before \<open>lock.lock()\<close>\<close>
  | Raising \<comment> \<open>before \<open>*count += 1\<close>\<close>
  | Flagging \<comment> \<open>before \<open>set_still_blocked(true)\<close>\<close>
  | Checking \<comment> \<open>before \<open>is_still_blocked()\<close>\<close>
  | Parked \<comment> \<open>in \<open>cvar.wait\<close>\<close>
  | Waking \<comment> \<open>notified, before the lock is taken again\<close>
  | Unblocked \<comment> \<open>back from \<open>block_current_thread\<close>, before \<open>reset\<close>\<close>
  | Gathering usize \<comment> \<open>the controller's loop, with its local \<open>count\<close>\<close>
  | Collecting \<comment> \<open>before \<open>gc\<close>\<close>
  | Releasing \<comment> \<open>before \<open>CONTROLLER.store\<close>\<close>
  | Resuming \<comment> \<open>before the loop over \<open>MUTATORS\<close> and \<open>reset\<close>\<close>
  | Reopening \<comment> \<open>before \<open>*count = 0\<close> and \<open>notify_all\<close>\<close>
  | Crashed rust_error

text \<open>\<open>st_scanned\<close> records what each thread has last added to \<open>ROOTS\<close>; no step reads it.\<close>

record 'q stw =
  st_world :: "'q world"
  st_lock :: "index option"
  st_pc :: "index \<Rightarrow> barrier_pc"
  st_local :: "index \<Rightarrow> mutator_local"
  st_scanned :: "index \<Rightarrow> object_reference list"

abbreviation arena :: "'q stw \<Rightarrow> index set" where
  "arena s \<equiv> set (rg_arena (wd_registry (st_world s)))"

abbreviation blocked_flag :: "'q stw \<Rightarrow> index \<Rightarrow> bool" where
  "blocked_flag s i \<equiv> mg_still_blocked (rg_globals (wd_registry (st_world s)) i)"

definition at_pc :: "index \<Rightarrow> barrier_pc \<Rightarrow> 'q stw \<Rightarrow> 'q stw" where
  "at_pc i pc s = s\<lparr>st_pc := (st_pc s)(i := pc)\<rparr>"

section \<open>Steps\<close>

text \<open>What a mutator does between yield points: the parts of \<open>alloc\<close>, \<open>init_object\<close>,
  \<open>trigger_gc\<close>, and stores of the user's own. A layout satisfies the invariant of the type
  \<open>Layout\<close>, and \<open>alloc_from_global\<close> fetches a block only after it has returned its own.\<close>

inductive mutator_op :: "profile \<Rightarrow> 'q block_queue \<Rightarrow> mutator_local \<Rightarrow> 'q world \<Rightarrow> mutator_local \<Rightarrow> 'q world \<Rightarrow> bool"
  for p I m w where
  bump: "layout_ok ly \<Longrightarrow> bump p m ly = Inr r \<Longrightarrow> snd r \<le> ml_limit m \<Longrightarrow> mutator_op p I m w (m\<lparr>ml_cursor := snd r\<rparr>) w"
| hole: "next_hole p m (wd_cells w) = Inr (Some hole) \<Longrightarrow>
    mutator_op p I m w (fst hole) (with_cells w (snd hole))"
| give_back: "return_block I m w = (m', w') \<Longrightarrow> mutator_op p I m w m' w'"
| fetch: "ml_block m = None \<Longrightarrow> fetch_block I w = Some (Some b, w') \<Longrightarrow> mutator_op p I m w (take_block m b) w'"
| fetch_none: "fetch_block I w = Some (None, w') \<Longrightarrow> mutator_op p I m w m w'"
| init: "init_object p m w addr encode = Inr w' \<Longrightarrow> mutator_op p I m w m w'"
| request: "mutator_op p I m w m (w\<lparr>wd_registry := trigger_gc (wd_registry w)\<rparr>)"
| store: "mutator_op p I m w m (w\<lparr>wd_mem := mem\<rparr>)"

text \<open>The steps of the registered mutator \<open>i\<close>.\<close>

inductive bstep :: "profile \<Rightarrow> 'q block_queue \<Rightarrow> index \<Rightarrow> 'q stw \<Rightarrow> 'q stw \<Rightarrow> bool"
  for p I i where
  work: "st_pc s i = Running \<Longrightarrow> mutator_op p I (st_local s i) (st_world s) m' w' \<Longrightarrow>
    bstep p I i s (s\<lparr>st_world := w', st_local := (st_local s)(i := m')\<rparr>)"
| leave: "st_pc s i = Running \<Longrightarrow> destroy I (st_local s i) (st_world s) = (m', w') \<Longrightarrow>
    bstep p I i s (s\<lparr>st_world := w', st_local := (st_local s)(i := m')\<rparr>)"
| win: "st_pc s i = Running \<Longrightarrow> take_yield (rg_globals (wd_registry (st_world s)) i) \<Longrightarrow>
    wd_controller (st_world s) = NO_CONTROLLER \<Longrightarrow>
    bstep p I i s (at_pc i (Preparing None) (s\<lparr>st_world := (st_world s)\<lparr>wd_controller := int (fst i)\<rparr>\<rparr>))"
| lose: "st_pc s i = Running \<Longrightarrow> take_yield (rg_globals (wd_registry (st_world s)) i) \<Longrightarrow>
    wd_controller (st_world s) \<noteq> NO_CONTROLLER \<Longrightarrow>
    bstep p I i s (at_pc i (Preparing (Some (wd_controller (st_world s)))) s)"
| prepare: "st_pc s i = Preparing seen \<Longrightarrow> prepare_for_gc I (st_local s i) (st_world s) = (m', w') \<Longrightarrow>
    bstep p I i s (at_pc i (Rooting seen) (s\<lparr>st_world := w', st_local := (st_local s)(i := m')\<rparr>))"
| scan: "st_pc s i = Rooting seen \<Longrightarrow>
    stack_scan p env (wd_mem (st_world s)) (wd_space (st_world s)) = Some (Inr thread_roots) \<Longrightarrow>
    bstep p I i s (at_pc i
      (case seen of None \<Rightarrow> Gathering 0
       | Some controller \<Rightarrow> if controller = int (fst i) then Crashed (AssertFailed ''controller != direct_index'')
                           else Locking)
      (s\<lparr>st_world := (st_world s)\<lparr>wd_roots := wd_roots (st_world s) @ thread_roots\<rparr>,
         st_scanned := (st_scanned s)(i := thread_roots)\<rparr>))"
| scan_crash: "st_pc s i = Rooting seen \<Longrightarrow>
    stack_scan p env (wd_mem (st_world s)) (wd_space (st_world s)) = Some (Inl e) \<Longrightarrow>
    bstep p I i s (at_pc i (Crashed e) s)"
| lock: "st_pc s i = Locking \<Longrightarrow> st_lock s = None \<Longrightarrow> bstep p I i s (at_pc i Raising (s\<lparr>st_lock := Some i\<rparr>))"
| raise: "st_pc s i = Raising \<Longrightarrow> usize_add p (wd_stw_count (st_world s)) 1 = Inr cnt \<Longrightarrow>
    bstep p I i s (at_pc i Flagging (s\<lparr>st_world := (st_world s)\<lparr>wd_stw_count := cnt\<rparr>\<rparr>))"
| raise_crash: "st_pc s i = Raising \<Longrightarrow> usize_add p (wd_stw_count (st_world s)) 1 = Inl e \<Longrightarrow>
    bstep p I i s (at_pc i (Crashed e) (s\<lparr>st_lock := None\<rparr>))"
| flag: "st_pc s i = Flagging \<Longrightarrow>
    bstep p I i s (at_pc i Checking (s\<lparr>st_world := (st_world s)\<lparr>wd_registry := (wd_registry (st_world s))
      \<lparr>rg_globals := (rg_globals (wd_registry (st_world s)))
        (i := set_still_blocked (rg_globals (wd_registry (st_world s)) i) True)\<rparr>\<rparr>\<rparr>))"
| park: "st_pc s i = Checking \<Longrightarrow> is_still_blocked (rg_globals (wd_registry (st_world s)) i) \<Longrightarrow>
    bstep p I i s (at_pc i Parked (s\<lparr>st_lock := None\<rparr>))"
| unpark: "st_pc s i = Checking \<Longrightarrow> \<not> is_still_blocked (rg_globals (wd_registry (st_world s)) i) \<Longrightarrow>
    bstep p I i s (at_pc i Unblocked (s\<lparr>st_lock := None\<rparr>))"
| wake: "st_pc s i = Waking \<Longrightarrow> st_lock s = None \<Longrightarrow> bstep p I i s (at_pc i Checking (s\<lparr>st_lock := Some i\<rparr>))"
| rejoin: "st_pc s i = Unblocked \<Longrightarrow>
    bstep p I i s (at_pc i Running (s\<lparr>st_local := (st_local s)(i := reset (st_local s i))\<rparr>))"
| gather: "st_pc s i = Gathering cnt \<Longrightarrow>
    usize_sub p (rg_n_mutators (wd_registry (st_world s))) 1 = Inr expected \<Longrightarrow> cnt < expected \<Longrightarrow>
    st_lock s = None \<Longrightarrow> bstep p I i s (at_pc i (Gathering (wd_stw_count (st_world s))) s)"
| gathered: "st_pc s i = Gathering cnt \<Longrightarrow>
    usize_sub p (rg_n_mutators (wd_registry (st_world s))) 1 = Inr expected \<Longrightarrow> \<not> cnt < expected \<Longrightarrow>
    bstep p I i s (at_pc i Collecting s)"
| gather_crash: "st_pc s i = Gathering cnt \<Longrightarrow>
    usize_sub p (rg_n_mutators (wd_registry (st_world s))) 1 = Inl e \<Longrightarrow> bstep p I i s (at_pc i (Crashed e) s)"
| collect: "st_pc s i = Collecting \<Longrightarrow> gc p I sched (st_world s) = Some (Inr w') \<Longrightarrow>
    bstep p I i s (at_pc i Releasing (s\<lparr>st_world := w'\<rparr>))"
| collect_crash: "st_pc s i = Collecting \<Longrightarrow> gc p I sched (st_world s) = Some (Inl e) \<Longrightarrow>
    bstep p I i s (at_pc i (Crashed e) s)"
| release: "st_pc s i = Releasing \<Longrightarrow>
    bstep p I i s (at_pc i Resuming (s\<lparr>st_world := (st_world s)\<lparr>wd_controller := NO_CONTROLLER\<rparr>\<rparr>))"
| resume: "st_pc s i = Resuming \<Longrightarrow>
    bstep p I i s (at_pc i Reopening (s\<lparr>st_world := (st_world s)\<lparr>wd_registry :=
        update_registered (\<lambda>g. set_still_blocked (set_take_yield g False) False) (wd_registry (st_world s))\<rparr>,
      st_local := (st_local s)(i := reset (st_local s i))\<rparr>))"
| reopen: "st_pc s i = Reopening \<Longrightarrow> st_lock s = None \<Longrightarrow>
    bstep p I i s (s\<lparr>st_world := (st_world s)\<lparr>wd_stw_count := 0\<rparr>,
      st_pc := (\<lambda>j. if st_pc s j = Parked then Waking else st_pc s j)(i := Running)\<rparr>)"

text \<open>The phases in which a controller relies on being alone: the world is stopped.\<close>

fun alone :: "barrier_pc \<Rightarrow> bool" where
  "alone Collecting = True" | "alone Releasing = True" | "alone Resuming = True" | "alone Reopening = True"
| "alone _ = False"

definition stopped :: "'q stw \<Rightarrow> bool" where
  "stopped s \<longleftrightarrow> (\<exists>k\<in>arena s. alone (st_pc s k))"

text \<open>\<open>ImmixMutatorLocal::new\<close> on a thread that is not registered yet. It locks \<open>MUTATORS\<close> and
  nothing else, so in the code it can run at any time; the arena is a vector and cannot hold
  \<open>2 ^ 64\<close> entries.\<close>

inductive creates :: "index \<Rightarrow> 'q stw \<Rightarrow> 'q stw \<Rightarrow> bool" for idx where
  new: "fresh_index (wd_registry (st_world s)) idx \<Longrightarrow> Suc (length (rg_arena (wd_registry (st_world s)))) < 2 ^ 64 \<Longrightarrow>
    mutator_new idx (st_world s) = (m', w') \<Longrightarrow>
    creates idx s (s\<lparr>st_world := w', st_local := (st_local s)(idx := m'), st_pc := (st_pc s)(idx := Running)\<rparr>)"

text \<open>Runs in which mutators come and go, but none is created while the world is stopped
  (\<open>new_mutator_not_stopped\<close> shows what happens otherwise).\<close>

definition stw_start :: "'q stw \<Rightarrow> bool" where
  "stw_start s \<longleftrightarrow> registry_ok (wd_registry (st_world s)) \<and>
     wd_controller (st_world s) = NO_CONTROLLER \<and> wd_stw_count (st_world s) = 0 \<and> st_lock s = None \<and>
     (\<forall>i\<in>arena s. st_pc s i = Running \<and> ml_id (st_local s i) = i)"

inductive breach :: "profile \<Rightarrow> 'q block_queue \<Rightarrow> 'q stw \<Rightarrow> bool" for p I where
  start: "stw_start s \<Longrightarrow> breach p I s"
| step: "breach p I s \<Longrightarrow> i \<in> arena s \<Longrightarrow> bstep p I i s s' \<Longrightarrow> breach p I s'"
| create: "breach p I s \<Longrightarrow> \<not> stopped s \<Longrightarrow> creates idx s s' \<Longrightarrow> breach p I s'"

lemma at_pc_sel [simp]:
  "st_pc (at_pc i pc s) = (st_pc s)(i := pc)" "st_world (at_pc i pc s) = st_world s"
  "st_lock (at_pc i pc s) = st_lock s" "st_local (at_pc i pc s) = st_local s"
  "st_scanned (at_pc i pc s) = st_scanned s"
  by (simp_all add: at_pc_def)

section \<open>What a mutator leaves alone\<close>

definition barrier_frame :: "'q world \<Rightarrow> 'q world \<Rightarrow> bool" where
  "barrier_frame w w' \<longleftrightarrow> wd_controller w' = wd_controller w \<and> wd_stw_count w' = wd_stw_count w \<and>
     wd_roots w' = wd_roots w \<and> rg_arena (wd_registry w') = rg_arena (wd_registry w) \<and>
     rg_n_mutators (wd_registry w') = rg_n_mutators (wd_registry w) \<and>
     (\<forall>j. mg_still_blocked (rg_globals (wd_registry w') j) = mg_still_blocked (rg_globals (wd_registry w) j))"

lemma return_block_barrier:
  assumes "return_block I m w = (m', w')"
  shows "ml_id m' = ml_id m \<and> ml_block m' = None \<and> barrier_frame w w' \<and> wd_registry w' = wd_registry w"
  using assms by (auto simp: return_block_def barrier_frame_def split: option.splits)

lemma fetch_block_barrier: "fetch_block I w = Some (b, w') \<Longrightarrow> barrier_frame w w'"
  by (auto simp: fetch_block_def get_next_usable_block_def barrier_frame_def Let_def split: option.splits)

lemma next_hole_id: "next_hole p m cs = Inr (Some hole) \<Longrightarrow> ml_id (fst hole) = ml_id m"
  by (auto simp: next_hole_def open_hole_def bind_res_def Let_def split: option.splits sum.splits if_splits)

lemma mutator_op_barrier:
  assumes "mutator_op p I m w m' w'"
  shows "ml_id m' = ml_id m \<and> barrier_frame w w'"
  using assms
proof cases
  case (hole h)
  then show ?thesis using next_hole_id [OF hole(3)] by (simp add: barrier_frame_def with_cells_def)
next
  case (init addr encode)
  then show ?thesis
    by (auto simp: init_object_def bind_res_def barrier_frame_def Let_def split: sum.splits if_splits)
qed (auto simp: barrier_frame_def take_block_def dest: return_block_barrier fetch_block_barrier)

lemma destroy_barrier:
  assumes "destroy I m w = (m', w')"
  shows "wd_registry w' = unregister (wd_registry w) (ml_id m) \<and> wd_controller w' = wd_controller w \<and>
    wd_stw_count w' = wd_stw_count w \<and> wd_roots w' = wd_roots w"
proof -
  obtain m1 w1 where rb: "return_block I m w = (m1, w1)" by (cases "return_block I m w")
  with assms return_block_barrier [OF rb] show ?thesis by (auto simp: destroy_def barrier_frame_def)
qed

lemma unregister_sel [simp]:
  "set (rg_arena (unregister r i)) = set (rg_arena r) - {i}" "rg_globals (unregister r i) = rg_globals r"
  by (auto simp: unregister_def)

lemma gc_barrier:
  assumes "gc p I sched w = Some (Inr w')"
  shows "wd_registry w' = wd_registry w \<and> wd_controller w' = wd_controller w \<and> wd_stw_count w' = wd_stw_count w"
  using assms by (rule gc_stages) simp

section \<open>The phases\<close>

text \<open>The controller until it gives up control, and afterwards; the places at which a thread holds
  the lock.\<close>

fun leads :: "barrier_pc \<Rightarrow> bool" where
  "leads (Preparing None) = True" | "leads (Rooting None) = True" | "leads (Gathering _) = True"
| "leads Collecting = True" | "leads Releasing = True" | "leads _ = False"

fun finishes :: "barrier_pc \<Rightarrow> bool" where
  "finishes Resuming = True" | "finishes Reopening = True" | "finishes _ = False"

fun locked :: "barrier_pc \<Rightarrow> bool" where
  "locked Raising = True" | "locked Flagging = True" | "locked Checking = True" | "locked _ = False"

fun crashed :: "barrier_pc \<Rightarrow> bool" where
  "crashed (Crashed _) = True" | "crashed _ = False"

text \<open>A thread that the counter counts, and one that has seen a controller and not yet been
  let go. At \<open>Checking\<close> the flag tells a thread about to park from one that was woken.\<close>

fun counts :: "bool \<Rightarrow> barrier_pc \<Rightarrow> bool" where
  "counts b Flagging = True" | "counts b Parked = True" | "counts b Checking = b" | "counts b _ = False"

fun yields :: "bool \<Rightarrow> barrier_pc \<Rightarrow> bool" where
  "yields b (Preparing (Some _)) = True" | "yields b (Rooting (Some _)) = True" | "yields b Locking = True"
| "yields b Raising = True" | "yields b pc = counts b pc"

lemma seen_simps [simp]:
  "leads (Preparing seen) \<longleftrightarrow> seen = None" "leads (Rooting seen) \<longleftrightarrow> seen = None"
  "yields b (Preparing seen) \<longleftrightarrow> seen \<noteq> None" "yields b (Rooting seen) \<longleftrightarrow> seen \<noteq> None"
  by (cases seen; simp)+

definition lock_inv :: "'q stw \<Rightarrow> bool" where
  "lock_inv s \<longleftrightarrow> (\<forall>i\<in>arena s. locked (st_pc s i) \<longleftrightarrow> st_lock s = Some i) \<and>
     (\<forall>k. st_lock s = Some k \<longrightarrow> k \<in> arena s)"

definition reg_inv :: "'q stw \<Rightarrow> bool" where
  "reg_inv s \<longleftrightarrow> registry_ok (wd_registry (st_world s)) \<and> (\<forall>i\<in>arena s. ml_id (st_local s i) = i)"

lemma reg_inv_step:
  assumes inv: "reg_inv s" and i: "i \<in> arena s" and st: "bstep p I i s s'"
  shows "reg_inv s'"
  using st
proof cases
  case (work m' w')
  then show ?thesis
    using inv mutator_op_barrier [OF work(3)] by (auto simp: reg_inv_def registry_ok_def barrier_frame_def)
next
  case (leave m' w')
  then show ?thesis
    using inv destroy_barrier [OF leave(3)] registry_ok_unregister i by (auto simp: reg_inv_def)
next
  case (prepare seen m' w')
  then show ?thesis
    using inv return_block_barrier [of I "st_local s i" "st_world s" m' w']
    by (auto simp: reg_inv_def prepare_for_gc_def)
next
  case (collect sched w')
  then show ?thesis using inv gc_barrier [OF collect(3)] by (simp add: reg_inv_def)
qed (use inv in \<open>auto simp: reg_inv_def registry_ok_def reset_def\<close>)

lemma arena_step:
  assumes inv: "reg_inv s" and i: "i \<in> arena s" and st: "bstep p I i s s'"
  shows "arena s' = arena s \<or> st_pc s i = Running \<and> arena s' = arena s - {i} \<and> st_pc s' = st_pc s"
  using st
proof cases
  case (work m' w')
  then show ?thesis using mutator_op_barrier [OF work(3)] by (simp add: barrier_frame_def)
next
  case (leave m' w')
  then show ?thesis using destroy_barrier [OF leave(3)] inv i by (simp add: reg_inv_def)
next
  case (prepare seen m' w')
  then show ?thesis
    using return_block_barrier [of I "st_local s i" "st_world s" m' w'] by (simp add: prepare_for_gc_def)
next
  case (collect sched w')
  then show ?thesis using gc_barrier [OF collect(3)] by simp
qed simp_all

lemma lock_inv_step:
  assumes inv: "lock_inv s" "reg_inv s" and i: "i \<in> arena s" and st: "bstep p I i s s'"
  shows "lock_inv s'"
proof -
  have sub: "arena s' \<subseteq> arena s" using arena_step [OF inv(2) i st] by blast
  have old: "\<And>j. j \<in> arena s' \<Longrightarrow> locked (st_pc s j) \<longleftrightarrow> st_lock s = Some j"
    using inv(1) sub by (auto simp: lock_inv_def)
  have own: "locked (st_pc s i) \<longleftrightarrow> st_lock s = Some i" using inv(1) i by (simp add: lock_inv_def)
  have "locked (st_pc s' j) \<longleftrightarrow> st_lock s' = Some j" if "j \<in> arena s'" for j
    using st old [OF that] own by cases (auto split: option.splits)
  moreover have "k \<in> arena s'" if "st_lock s' = Some k" for k
  proof -
    have "k = i \<or> st_lock s = Some k" using st that by cases (auto split: option.splits)
    moreover have "k \<in> arena s" if "st_lock s = Some k" using inv(1) that by (simp add: lock_inv_def)
    moreover have "\<not> (k = i \<and> st_pc s i = Running)"
    proof
      assume k: "k = i \<and> st_pc s i = Running"
      from st have "st_lock s = Some i" using that k by cases (auto split: option.splits)
      then show False using own k by simp
    qed
    ultimately show ?thesis using arena_step [OF inv(2) i st] i by blast
  qed
  ultimately show ?thesis by (simp add: lock_inv_def)
qed

section \<open>Counting the parked threads\<close>

definition counted_set :: "'q stw \<Rightarrow> index set" where
  "counted_set s = {j \<in> arena s. counts (blocked_flag s j) (st_pc s j)}"

definition parked_set :: "'q stw \<Rightarrow> index set" where
  "parked_set s = {j \<in> arena s. st_pc s j = Parked}"

definition alone_inv :: "'q stw \<Rightarrow> bool" where
  "alone_inv s \<longleftrightarrow> (\<forall>i\<in>arena s. alone (st_pc s i) \<longrightarrow> (\<forall>j\<in>arena s. j \<noteq> i \<longrightarrow> st_pc s j = Parked))"

definition count_inv :: "'q stw \<Rightarrow> bool" where
  "count_inv s \<longleftrightarrow> unat (wd_stw_count (st_world s)) = card (counted_set s) \<and>
     (\<forall>i\<in>arena s. \<forall>c. st_pc s i = Gathering c \<longrightarrow> unat c \<le> card (parked_set s)) \<and>
     (\<forall>j\<in>arena s. st_pc s j = Waking \<longrightarrow> \<not> blocked_flag s j) \<and>
     (\<forall>i\<in>arena s. st_pc s i = Reopening \<longrightarrow> (\<forall>j\<in>arena s. \<not> blocked_flag s j))"

lemma finite_counted [simp]: "finite (counted_set s)" "finite (parked_set s)"
  by (simp_all add: counted_set_def parked_set_def)

text \<open>A parked thread takes no step, so a step is never taken beside a thread that is alone.\<close>

lemma parked_stuck: "bstep p I i s s' \<Longrightarrow> st_pc s i \<noteq> Parked"
  by (erule bstep.cases) auto

lemma alone_mover:
  assumes "alone_inv s" "i \<in> arena s" "bstep p I i s s'" "k \<in> arena s" "alone (st_pc s k)"
  shows "k = i"
  using assms(1,2,4,5) parked_stuck [OF assms(3)] unfolding alone_inv_def by metis

text \<open>Which other places a step changes.\<close>

lemma bstep_others:
  assumes "bstep p I i s s'" and "j \<noteq> i" and "st_pc s i \<noteq> Reopening"
  shows "st_pc s' j = st_pc s j"
  using assms by cases auto

lemma bstep_others_alone:
  assumes "bstep p I i s s'" and "j \<noteq> i" and "alone (st_pc s' j)"
  shows "alone (st_pc s j)"
  using assms by cases (auto split: if_splits)

lemma bstep_becomes_alone:
  assumes "bstep p I i s s'" and "alone (st_pc s' i)" and "\<not> alone (st_pc s i)"
  shows "\<exists>c n. st_pc s i = Gathering c \<and> \<not> c < n \<and> st_pc s' = (st_pc s)(i := Collecting) \<and>
    usize_sub p (rg_n_mutators (wd_registry (st_world s))) 1 = Inr n"
  using assms by cases (auto split: option.splits if_splits)

lemma unlocked_counts: "\<not> locked pc \<Longrightarrow> counts b pc \<longleftrightarrow> pc = Parked"
  by (cases pc) simp_all

lemma no_lock_counted:
  assumes "lock_inv s" and "st_lock s = None"
  shows "counted_set s = parked_set s"
proof -
  have "\<not> locked (st_pc s j)" if "j \<in> arena s" for j using assms that by (simp add: lock_inv_def)
  then show ?thesis by (auto simp: counted_set_def parked_set_def unlocked_counts)
qed

lemma enough_parked:
  assumes reg: "reg_inv s" and i: "i \<in> arena s" and "st_pc s i \<noteq> Parked"
    and n: "usize_sub p (rg_n_mutators (wd_registry (st_world s))) 1 = Inr n"
    and c: "\<not> c < n" "unat c \<le> card (parked_set s)"
  shows "\<forall>j\<in>arena s. j \<noteq> i \<longrightarrow> st_pc s j = Parked"
proof -
  have "unat (rg_n_mutators (wd_registry (st_world s))) = length (rg_arena (wd_registry (st_world s)))"
    and dist: "distinct (rg_arena (wd_registry (st_world s)))"
    using reg registry_ok_distinct by (auto simp: reg_inv_def registry_ok_def)
  then have N: "unat (rg_n_mutators (wd_registry (st_world s))) = card (arena s)"
    by (simp add: distinct_card)
  moreover have "0 < card (arena s)" using i by (auto simp: card_gt_0_iff)
  ultimately have one: "1 \<le> rg_n_mutators (wd_registry (st_world s))" by (simp add: word_le_nat_alt)
  then have "n = rg_n_mutators (wd_registry (st_world s)) - 1" using n by (simp add: usize_sub_def)
  then have "unat n = card (arena s) - 1" using unat_sub [OF one] N by simp
  then have "card (arena s - {i}) \<le> card (parked_set s)"
    using c i by (simp add: not_less word_le_nat_alt)
  moreover have "parked_set s \<subseteq> arena s - {i}" using assms(3) by (auto simp: parked_set_def)
  ultimately have "parked_set s = arena s - {i}" by (intro card_seteq) simp_all
  then show ?thesis by (auto simp: parked_set_def)
qed

lemma alone_inv_step:
  assumes inv: "alone_inv s" "reg_inv s" "count_inv s" and i: "i \<in> arena s" and st: "bstep p I i s s'"
  shows "alone_inv s'"
proof -
  have sub: "arena s' \<subseteq> arena s" using arena_step [OF inv(2) i st] by blast
  have "st_pc s' j = Parked" if k: "k \<in> arena s'" "alone (st_pc s' k)" and j: "j \<in> arena s'" "j \<noteq> k" for j k
  proof (cases "alone (st_pc s k)")
    case True
    then have ki: "k = i" using alone_mover [OF inv(1) i st] k(1) sub by blast
    then have "st_pc s j = Parked" using inv(1) True j k(1) sub by (auto simp: alone_inv_def)
    moreover have "st_pc s i \<noteq> Reopening" using st k(2) ki by cases auto
    ultimately show ?thesis using bstep_others [OF st, of j] j(2) ki by simp
  next
    case False
    then have ki: "k = i" using bstep_others_alone [OF st, of k] k(2) by blast
    then obtain c n where g: "st_pc s i = Gathering c" "\<not> c < n" "st_pc s' = (st_pc s)(i := Collecting)"
      "usize_sub p (rg_n_mutators (wd_registry (st_world s))) 1 = Inr n"
      using bstep_becomes_alone [OF st] k(2) False by blast
    have "unat c \<le> card (parked_set s)" using inv(3) i g(1) by (simp add: count_inv_def)
    with g have "\<forall>j\<in>arena s. j \<noteq> i \<longrightarrow> st_pc s j = Parked"
      by (intro enough_parked [OF inv(2) i _ g(4,2)]) simp_all
    with j sub ki have "st_pc s j = Parked" by blast
    then show ?thesis using g(3) j(2) ki by simp
  qed
  then show ?thesis unfolding alone_inv_def by blast
qed

text \<open>The flags change only when a thread marks itself as blocked and when the controller
  lets everybody go.\<close>

lemma bstep_flags:
  assumes "bstep p I i s s'" and "st_pc s i \<noteq> Resuming" and "j \<noteq> i \<or> st_pc s i \<noteq> Flagging"
  shows "blocked_flag s' j = blocked_flag s j"
  using assms(1)
proof cases
  case (work m' w')
  then show ?thesis using mutator_op_barrier [OF work(3)] by (simp add: barrier_frame_def)
next
  case (leave m' w')
  then show ?thesis using destroy_barrier [OF leave(3)] by simp
next
  case (prepare seen m' w')
  then show ?thesis
    using return_block_barrier [of I "st_local s i" "st_world s" m' w'] by (simp add: prepare_for_gc_def)
next
  case (collect sched w')
  then show ?thesis using gc_barrier [OF collect(3)] by simp
qed (use assms(2,3) in auto)

lemma bstep_count:
  assumes "bstep p I i s s'" and "st_pc s i \<noteq> Raising" and "st_pc s i \<noteq> Reopening"
  shows "wd_stw_count (st_world s') = wd_stw_count (st_world s)"
  using assms(1)
proof cases
  case (work m' w')
  then show ?thesis using mutator_op_barrier [OF work(3)] by (simp add: barrier_frame_def)
next
  case (leave m' w')
  then show ?thesis using destroy_barrier [OF leave(3)] by simp
next
  case (prepare seen m' w')
  then show ?thesis
    using return_block_barrier [of I "st_local s i" "st_world s" m' w'] by (simp add: prepare_for_gc_def barrier_frame_def)
next
  case (collect sched w')
  then show ?thesis using gc_barrier [OF collect(3)] by simp
qed (use assms(2,3) in auto)

text \<open>How a step changes whether its own thread is counted.\<close>

lemma bstep_own_counts:
  assumes "bstep p I i s s'" and "st_pc s i \<noteq> Raising" and "st_pc s i = Waking \<Longrightarrow> \<not> blocked_flag s i"
  shows "counts (blocked_flag s' i) (st_pc s' i) \<longleftrightarrow> counts (blocked_flag s i) (st_pc s i)"
  using assms
  by cases (auto simp: mutator_global_defs split: option.splits)

lemma counted_step:
  assumes inv: "alone_inv s" "reg_inv s" "count_inv s" and i: "i \<in> arena s" and st: "bstep p I i s s'"
    and pc: "st_pc s i \<noteq> Raising" "st_pc s i \<noteq> Reopening"
  shows "counted_set s' = counted_set s"
proof -
  have wake: "st_pc s i = Waking \<Longrightarrow> \<not> blocked_flag s i" using inv(3) i by (simp add: count_inv_def)
  note own = bstep_own_counts [OF st pc(1) wake]
  have others: "counts (blocked_flag s' j) (st_pc s' j) \<longleftrightarrow> counts (blocked_flag s j) (st_pc s j)"
    if j: "j \<noteq> i" "j \<in> arena s" for j
  proof (cases "st_pc s i = Resuming")
    case True
    then have "alone (st_pc s i)" by simp
    then have "st_pc s j = Parked" using inv(1) i j unfolding alone_inv_def by blast
    then show ?thesis using bstep_others [OF st j(1) pc(2)] by simp
  next
    case False
    then show ?thesis using bstep_others [OF st j(1) pc(2)] bstep_flags [OF st False] j(1) by simp
  qed
  have same: "counts (blocked_flag s' j) (st_pc s' j) \<longleftrightarrow> counts (blocked_flag s j) (st_pc s j)"
    if "j \<in> arena s" for j using own others [OF _ that] by (cases "j = i") simp_all
  from arena_step [OF inv(2) i st] show ?thesis
  proof (elim disjE conjE)
    assume "st_pc s i = Running" "arena s' = arena s - {i}" "st_pc s' = st_pc s"
    then show ?thesis using same unfolding counted_set_def by force
  next
    assume "arena s' = arena s"
    then show ?thesis using same unfolding counted_set_def by force
  qed
qed

lemma raise_counted:
  assumes "count_inv s" "reg_inv s" "i \<in> arena s" "bstep p I i s s'" "st_pc s i = Raising"
  shows "unat (wd_stw_count (st_world s')) = card (counted_set s')"
proof -
  have i: "i \<notin> counted_set s" using assms(5) by (simp add: counted_set_def)
  have c: "unat (wd_stw_count (st_world s)) = card (counted_set s)" using assms(1) by (simp add: count_inv_def)
  have "card (insert i (counted_set s)) \<le> card (arena s)"
    using assms(3) by (intro card_mono) (auto simp: counted_set_def)
  also have "\<dots> < 2 ^ 64"
    using assms(2) card_length [of "rg_arena (wd_registry (st_world s))"] by (simp add: reg_inv_def registry_ok_def)
  finally have small: "Suc (card (counted_set s)) < 2 ^ 64" using i by simp
  from assms(4) show ?thesis
  proof cases
    case (raise n)
    have "counted_set s' = insert i (counted_set s)"
      using assms(3) unfolding raise(1) by (auto simp: counted_set_def split: if_splits)
    moreover have "unat n = Suc (unat (wd_stw_count (st_world s)))"
      using raise(3) small c by (auto simp: usize_add_def unat_add_small split: if_splits)
    ultimately show ?thesis using c i raise(1) by simp
  next
    case (raise_crash e)
    then show ?thesis using small c by (simp add: usize_add_def)
  qed (use assms(5) in simp_all)
qed

lemma parked_step:
  assumes inv: "alone_inv s" "reg_inv s" and i: "i \<in> arena s" and st: "bstep p I i s s'"
    and pc: "st_pc s i \<noteq> Reopening"
  shows "card (parked_set s) \<le> card (parked_set s')"
proof (rule card_mono)
  show "parked_set s \<subseteq> parked_set s'"
  proof
    fix j assume j: "j \<in> parked_set s"
    then have "j \<noteq> i" using parked_stuck [OF st] by (auto simp: parked_set_def)
    then show "j \<in> parked_set s'"
      using j bstep_others [OF st _ pc] arena_step [OF inv(2) i st] by (auto simp: parked_set_def)
  qed
qed simp

lemma gather_step:
  assumes inv: "count_inv s" "lock_inv s" and i: "i \<in> arena s" and st: "bstep p I i s s'"
    and c: "st_pc s' i = Gathering c"
  shows "unat c \<le> card (parked_set s)"
  using st
proof cases
  case (gather n)
  then show ?thesis using c inv(1) no_lock_counted [OF inv(2) gather(5)] by (simp add: count_inv_def)
qed (use c in \<open>auto split: option.splits if_splits\<close>)

lemma reopen_others:
  assumes "alone_inv s" and "i \<in> arena s" and "bstep p I i s s'" and "st_pc s i = Reopening"
  shows "st_pc s' i = Running" and "j \<in> arena s \<Longrightarrow> j \<noteq> i \<Longrightarrow> st_pc s' j = Waking"
    and "wd_stw_count (st_world s') = 0" and "arena s' = arena s" and "blocked_flag s' k = blocked_flag s k"
    and "wd_controller (st_world s') = wd_controller (st_world s)"
proof -
  have parked: "st_pc s j = Parked" if "j \<in> arena s" "j \<noteq> i" for j
    using assms(1,2,4) that unfolding alone_inv_def by fastforce
  from assms(3) show "st_pc s' j = Waking" if "j \<in> arena s" "j \<noteq> i"
    using parked [OF that] that(2) assms(4) by cases simp_all
  from assms(3) show "st_pc s' i = Running" using assms(4) by cases simp_all
  from assms(3) show "wd_stw_count (st_world s') = 0" using assms(4) by cases simp_all
  from assms(3) show "arena s' = arena s" using assms(4) by cases simp_all
  from assms(3) show "blocked_flag s' k = blocked_flag s k" using assms(4) by cases simp_all
  from assms(3) show "wd_controller (st_world s') = wd_controller (st_world s)" using assms(4) by cases simp_all
qed

lemma reopen_all:
  assumes "alone_inv s" and "i \<in> arena s" and "bstep p I i s s'" and "st_pc s i = Reopening" and "j \<in> arena s"
  shows "st_pc s' j \<in> {Running, Waking}"
  using reopen_others(1) [OF assms(1-4)] reopen_others(2) [OF assms(1-4), of j] assms(5)
  by (cases "j = i") simp_all

text \<open>The controller clears the flag of a thread only when that thread is parked.\<close>

lemma flag_or_parked:
  assumes "alone_inv s" and "i \<in> arena s" and "bstep p I i s s'" and "j \<in> arena s" and "j \<noteq> i"
  shows "blocked_flag s' j = blocked_flag s j \<or> st_pc s j = Parked"
proof (cases "st_pc s i = Resuming")
  case True
  then have "alone (st_pc s i)" by simp
  then show ?thesis using assms(1,2,4,5) unfolding alone_inv_def by blast
qed (use bstep_flags [OF assms(3)] assms(5) in blast)

lemma count_inv_step:
  assumes inv: "alone_inv s" "reg_inv s" "count_inv s" "lock_inv s" and i: "i \<in> arena s" and st: "bstep p I i s s'"
  shows "count_inv s'"
proof (cases "st_pc s i = Reopening")
  case True
  note r = reopen_others [OF inv(1) i st True]
  have w: "\<forall>j\<in>arena s. \<not> blocked_flag s j" using inv(3) i True unfolding count_inv_def by blast
  have "st_pc s' j \<in> {Running, Waking}" if "j \<in> arena s" for j by (rule reopen_all [OF inv(1) i st True that])
  then have "counted_set s' = {}" and "\<forall>j\<in>arena s. \<forall>c. st_pc s' j \<noteq> Gathering c \<and> st_pc s' j \<noteq> Reopening"
    using r(4) by (fastforce simp: counted_set_def)+
  then show ?thesis using w r(3-5) unfolding count_inv_def by simp
next
  case False
  have sub: "arena s' \<subseteq> arena s" using arena_step [OF inv(2) i st] by blast
  have n: "unat (wd_stw_count (st_world s')) = card (counted_set s')"
    using raise_counted [OF inv(3,2) i st] counted_step [OF inv(1-3) i st _ False] bstep_count [OF st _ False] inv(3)
    by (cases "st_pc s i = Raising") (simp_all add: count_inv_def)
  have g: "unat c \<le> card (parked_set s')" if "j \<in> arena s'" "st_pc s' j = Gathering c" for j c
  proof -
    have "unat c \<le> card (parked_set s)"
    proof (cases "j = i")
      case True
      then show ?thesis using gather_step [OF inv(3,4) i st] that(2) by simp
    next
      case ji: False
      then show ?thesis using bstep_others [OF st ji False] that sub inv(3) unfolding count_inv_def by (metis subsetD)
    qed
    also have "\<dots> \<le> card (parked_set s')" by (rule parked_step [OF inv(1,2) i st False])
    finally show ?thesis .
  qed
  have w: "\<not> blocked_flag s' j" if j: "j \<in> arena s'" "st_pc s' j = Waking" for j
  proof -
    have "j \<noteq> i" using st j(2) by cases (auto split: option.splits if_splits)
    then have "st_pc s j = Waking" using bstep_others [OF st _ False] j(2) by simp
    moreover have "st_pc s j = Parked" if "alone (st_pc s i)"
      using that inv(1) i j(1) sub \<open>j \<noteq> i\<close> unfolding alone_inv_def by blast
    ultimately have "st_pc s i \<noteq> Resuming" by fastforce
    then show ?thesis
      using bstep_flags [OF st] inv(3) j(1) sub \<open>j \<noteq> i\<close> \<open>st_pc s j = Waking\<close> unfolding count_inv_def by blast
  qed
  have r: "\<not> blocked_flag s' k" if j: "j \<in> arena s'" "st_pc s' j = Reopening" and k: "k \<in> arena s'" for j k
  proof -
    have "alone (st_pc s' j)" using j(2) by simp
    have "j = i"
      using bstep_others [OF st, of j] False j sub alone_mover [OF inv(1) i st, of j] by fastforce
    from st show ?thesis
      using j(2) k unfolding \<open>j = i\<close>
      by cases (use False in \<open>auto simp: mutator_global_defs split: option.splits if_splits\<close>)
  qed
  show ?thesis using n g w r unfolding count_inv_def by blast
qed

section \<open>One controller\<close>

definition ctl_inv :: "'q stw \<Rightarrow> bool" where
  "ctl_inv s \<longleftrightarrow>
     (\<forall>i\<in>arena s. leads (st_pc s i) \<longrightarrow> wd_controller (st_world s) = int (fst i)) \<and>
     (wd_controller (st_world s) \<noteq> NO_CONTROLLER \<longrightarrow> (\<exists>i\<in>arena s. wd_controller (st_world s) = int (fst i) \<and>
        (leads (st_pc s i) \<or> crashed (st_pc s i)))) \<and>
     (\<forall>j\<in>arena s. yields (blocked_flag s j) (st_pc s j) \<longrightarrow>
        wd_controller (st_world s) \<noteq> NO_CONTROLLER \<or> (\<exists>i\<in>arena s. finishes (st_pc s i))) \<and>
     (\<forall>j\<in>arena s. \<forall>c. st_pc s j = Preparing (Some c) \<or> st_pc s j = Rooting (Some c) \<longrightarrow> c \<noteq> int (fst j))"

lemma bstep_controller:
  assumes "bstep p I i s s'"
  shows "wd_controller (st_world s') = wd_controller (st_world s) \<and>
      (leads (st_pc s' i) \<longrightarrow> leads (st_pc s i)) \<and> st_pc s i \<noteq> Releasing \<or>
    st_pc s i = Releasing \<and> st_pc s' i = Resuming \<and> wd_controller (st_world s') = NO_CONTROLLER \<or>
    st_pc s i = Running \<and> st_pc s' i = Preparing None \<and> wd_controller (st_world s) = NO_CONTROLLER \<and>
      wd_controller (st_world s') = int (fst i)"
  using assms
proof cases
  case (work m' w')
  then show ?thesis using mutator_op_barrier [OF work(3)] by (simp add: barrier_frame_def)
next
  case (leave m' w')
  then show ?thesis using destroy_barrier [OF leave(3)] by simp
next
  case (prepare seen m' w')
  then show ?thesis
    using return_block_barrier [of I "st_local s i" "st_world s" m' w']
    by (cases seen) (simp_all add: prepare_for_gc_def barrier_frame_def)
next
  case (scan seen env rs)
  then show ?thesis by (cases seen) simp_all
next
  case (collect sched w')
  then show ?thesis using gc_barrier [OF collect(3)] by simp
qed auto

lemma bstep_own_place:
  assumes "bstep p I i s s'"
  shows "leads (st_pc s i) \<Longrightarrow> leads (st_pc s' i) \<or> crashed (st_pc s' i) \<or> st_pc s i = Releasing"
    and "finishes (st_pc s i) \<Longrightarrow> finishes (st_pc s' i) \<or> st_pc s i = Reopening"
    and "\<not> crashed (st_pc s i)"
    and "st_pc s' i = Rooting (Some c) \<Longrightarrow> st_pc s i = Preparing (Some c)"
    and "st_pc s' i = Preparing (Some c) \<Longrightarrow> st_pc s i \<noteq> Preparing (Some c) \<Longrightarrow>
      st_pc s i = Running \<and> wd_controller (st_world s) = c \<and> c \<noteq> NO_CONTROLLER"
proof -
  from assms show "leads (st_pc s' i) \<or> crashed (st_pc s' i) \<or> st_pc s i = Releasing" if "leads (st_pc s i)"
    using that by cases (auto split: option.splits)
  from assms show "finishes (st_pc s' i) \<or> st_pc s i = Reopening" if "finishes (st_pc s i)"
    using that by cases auto
  from assms show "\<not> crashed (st_pc s i)" by cases auto
  from assms show "st_pc s i = Preparing (Some c)" if "st_pc s' i = Rooting (Some c)"
    using that by cases (auto split: option.splits if_splits)
  from assms show "st_pc s i = Running \<and> wd_controller (st_world s) = c \<and> c \<noteq> NO_CONTROLLER"
    if "st_pc s' i = Preparing (Some c)" "st_pc s i \<noteq> Preparing (Some c)"
    using that by cases (auto split: option.splits if_splits)
qed

lemma bstep_own_yields:
  assumes "bstep p I i s s'" and "yields (blocked_flag s' i) (st_pc s' i)"
    and "st_pc s i = Waking \<Longrightarrow> \<not> blocked_flag s i"
  shows "yields (blocked_flag s i) (st_pc s i) \<or> wd_controller (st_world s) \<noteq> NO_CONTROLLER"
  using assms by cases (auto simp: mutator_global_defs split: option.splits if_splits)

text \<open>Nobody parks or waits beside a running thread that sees no controller.\<close>

lemma slots_distinct:
  assumes "reg_inv s" "i \<in> arena s" "j \<in> arena s" "fst i = fst j"
  shows "i = j"
  using assms by (auto simp: reg_inv_def registry_ok_def distinct_map inj_on_def)

lemma no_slot: "int n \<noteq> NO_CONTROLLER"
  by (simp add: NO_CONTROLLER_def)

lemma ctl_leads_step:
  assumes inv: "ctl_inv s" "alone_inv s" "reg_inv s" and i: "i \<in> arena s" and st: "bstep p I i s s'"
    and j: "j \<in> arena s'" "leads (st_pc s' j)"
  shows "wd_controller (st_world s') = int (fst j)"
proof -
  have sub: "arena s' \<subseteq> arena s" using arena_step [OF inv(3) i st] by blast
  have lead: "wd_controller (st_world s) = int (fst k)" if "k \<in> arena s" "leads (st_pc s k)" for k
    using inv(1) that unfolding ctl_inv_def by blast
  have old: "leads (st_pc s j)" if "j \<noteq> i"
  proof (cases "st_pc s i = Reopening")
    case True
    then show ?thesis using reopen_others(2) [OF inv(2) i st True, of j] j that sub by fastforce
  next
    case False
    then show ?thesis using bstep_others [OF st that False] j(2) by simp
  qed
  from bstep_controller [OF st] show ?thesis
  proof (elim disjE conjE)
    assume "wd_controller (st_world s') = wd_controller (st_world s)" "leads (st_pc s' i) \<longrightarrow> leads (st_pc s i)"
    moreover from this have "leads (st_pc s j)" using old j(2) by (cases "j = i") simp_all
    ultimately show ?thesis using lead [of j] j(1) sub by simp (metis subsetD)
  next
    assume r: "st_pc s i = Releasing" "st_pc s' i = Resuming"
    then have "j \<noteq> i" using j(2) by auto
    moreover have "alone (st_pc s i)" using r(1) by simp
    ultimately have "st_pc s j = Parked" using inv(2) i j(1) sub unfolding alone_inv_def by blast
    then show ?thesis using old [OF \<open>j \<noteq> i\<close>] by simp
  next
    assume "wd_controller (st_world s) = NO_CONTROLLER" and w: "wd_controller (st_world s') = int (fst i)"
    then have "j = i" using old lead [of j] j(1) sub no_slot by (metis subsetD)
    with w show ?thesis by simp
  qed
qed

lemma ctl_exists_step:
  assumes inv: "ctl_inv s" "alone_inv s" "reg_inv s" and i: "i \<in> arena s" and st: "bstep p I i s s'"
    and c: "wd_controller (st_world s') \<noteq> NO_CONTROLLER"
  shows "\<exists>k\<in>arena s'. wd_controller (st_world s') = int (fst k) \<and> (leads (st_pc s' k) \<or> crashed (st_pc s' k))"
  using bstep_controller [OF st]
proof (elim disjE conjE)
  assume same: "wd_controller (st_world s') = wd_controller (st_world s)" and nr: "st_pc s i \<noteq> Releasing"
  with c obtain k where k: "k \<in> arena s" "wd_controller (st_world s) = int (fst k)"
    "leads (st_pc s k) \<or> crashed (st_pc s k)" using inv(1) unfolding ctl_inv_def by auto
  have "st_pc s i \<noteq> Running \<or> k \<noteq> i" using k(3) by auto
  then have "k \<in> arena s'" using arena_step [OF inv(3) i st] k(1) by auto
  moreover have "leads (st_pc s' k) \<or> crashed (st_pc s' k)"
  proof (cases "k = i")
    case True
    then show ?thesis using bstep_own_place(1,3) [OF st] k(3) nr by blast
  next
    case False
    have "st_pc s i \<noteq> Reopening"
    proof
      assume "st_pc s i = Reopening"
      then have "st_pc s k = Parked" using inv(2) i k(1) False unfolding alone_inv_def by fastforce
      then show False using k(3) by simp
    qed
    then show ?thesis using bstep_others [OF st False] k(3) by simp
  qed
  ultimately show ?thesis using same k(2) by (intro bexI [of _ k]) simp_all
next
  assume "st_pc s i = Running" "st_pc s' i = Preparing None" "wd_controller (st_world s') = int (fst i)"
  moreover from this have "i \<in> arena s'" using arena_step [OF inv(3) i st] i by fastforce
  ultimately show ?thesis by (intro bexI [of _ i]) simp_all
qed (use c in simp)

lemma ctl_yields_step:
  assumes inv: "ctl_inv s" "alone_inv s" "reg_inv s" "count_inv s" and i: "i \<in> arena s" and st: "bstep p I i s s'"
    and j: "j \<in> arena s'" "yields (blocked_flag s' j) (st_pc s' j)"
  shows "wd_controller (st_world s') \<noteq> NO_CONTROLLER \<or> (\<exists>k\<in>arena s'. finishes (st_pc s' k))"
proof (rule ccontr)
  assume neg: "\<not> ?thesis"
  have sub: "arena s' \<subseteq> arena s" using arena_step [OF inv(3) i st] by blast
  have re: "st_pc s i \<noteq> Reopening" using reopen_all [OF inv(2) i st _ subsetD [OF sub j(1)]] j(2) by auto
  have rel: "st_pc s i \<noteq> Releasing"
  proof
    assume r: "st_pc s i = Releasing"
    then have "i \<in> arena s'" "finishes (st_pc s' i)"
      using arena_step [OF inv(3) i st] i bstep_controller [OF st] by auto
    with neg show False by blast
  qed
  then have free: "wd_controller (st_world s) = NO_CONTROLLER"
    using neg bstep_controller [OF st] no_slot by auto
  have "yields (blocked_flag s j) (st_pc s j)"
  proof (cases "j = i")
    case True
    have "st_pc s i = Waking \<Longrightarrow> \<not> blocked_flag s i" using inv(4) i unfolding count_inv_def by blast
    from bstep_own_yields [OF st _ this] j(2) free True show ?thesis by simp
  next
    case False
    have "blocked_flag s' j = blocked_flag s j \<or> st_pc s j = Parked"
      using flag_or_parked [OF inv(2) i st _ False] j(1) sub by blast
    then show ?thesis using j(2) bstep_others [OF st False re] by auto
  qed
  then obtain k where k: "k \<in> arena s" "finishes (st_pc s k)"
    using inv(1) free j(1) sub unfolding ctl_inv_def by blast
  have "alone (st_pc s k)" using k(2) by (cases "st_pc s k") simp_all
  then have fin: "finishes (st_pc s i)" using alone_mover [OF inv(2) i st k(1)] k(2) by simp
  then have "st_pc s i \<noteq> Running" by auto
  then have "i \<in> arena s'" using arena_step [OF inv(3) i st] i by simp
  then show False using bstep_own_place(2) [OF st fin] re neg by blast
qed

lemma ctl_inv_step:
  assumes inv: "ctl_inv s" "alone_inv s" "reg_inv s" "count_inv s" and i: "i \<in> arena s" and st: "bstep p I i s s'"
  shows "ctl_inv s'"
proof -
  have sub: "arena s' \<subseteq> arena s" using arena_step [OF inv(3) i st] by blast
  have "c \<noteq> int (fst j)"
    if j: "j \<in> arena s'" "st_pc s' j = Preparing (Some c) \<or> st_pc s' j = Rooting (Some c)" for j c
  proof (cases "st_pc s j = Preparing (Some c) \<or> st_pc s j = Rooting (Some c)")
    case True
    then show ?thesis using inv(1) j(1) sub unfolding ctl_inv_def by blast
  next
    case False
    have "j = i"
    proof (rule ccontr)
      assume ji: "j \<noteq> i"
      then have "st_pc s i = Reopening" using bstep_others [OF st ji] j(2) False by metis
      from reopen_others(2) [OF inv(2) i st this, of j] j sub ji show False by fastforce
    qed
    then have run: "st_pc s i = Running" and c: "wd_controller (st_world s) = c" "c \<noteq> NO_CONTROLLER"
      using bstep_own_place(4,5) [OF st, of c] j(2) False by auto
    then obtain k where k: "k \<in> arena s" "c = int (fst k)" "leads (st_pc s k) \<or> crashed (st_pc s k)"
      using inv(1) unfolding ctl_inv_def by blast
    then have "k \<noteq> i" using run by auto
    then show ?thesis using slots_distinct [OF inv(3) k(1) i] k(2) \<open>j = i\<close> by auto
  qed
  then show ?thesis
    using ctl_leads_step [OF inv(1-3) i st] ctl_exists_step [OF inv(1-3) i st] ctl_yields_step [OF inv i st]
    unfolding ctl_inv_def by blast
qed

section \<open>Blocks returned, roots collected\<close>

fun handed_in :: "barrier_pc \<Rightarrow> bool" where
  "handed_in Running = False" | "handed_in (Preparing _) = False" | "handed_in (Crashed _) = False"
| "handed_in _ = True"

fun rooted :: "bool \<Rightarrow> barrier_pc \<Rightarrow> bool" where
  "rooted b Locking = True" | "rooted b Raising = True" | "rooted b (Gathering _) = True"
| "rooted b Collecting = True" | "rooted b pc = counts b pc"

fun swept :: "barrier_pc \<Rightarrow> bool" where
  "swept Releasing = True" | "swept Resuming = True" | "swept Reopening = True" | "swept _ = False"

definition data_inv :: "'q stw \<Rightarrow> bool" where
  "data_inv s \<longleftrightarrow>
     (\<forall>j\<in>arena s. handed_in (st_pc s j) \<longrightarrow> ml_block (st_local s j) = None) \<and>
     ((\<forall>k\<in>arena s. \<not> swept (st_pc s k)) \<longrightarrow>
        (\<forall>j\<in>arena s. rooted (blocked_flag s j) (st_pc s j) \<longrightarrow> set (st_scanned s j) \<subseteq> set (wd_roots (st_world s))))"

lemma bstep_locals:
  assumes "bstep p I i s s'"
  shows "j \<noteq> i \<Longrightarrow> st_local s' j = st_local s j" and "j \<noteq> i \<Longrightarrow> st_scanned s' j = st_scanned s j"
    and "handed_in (st_pc s' i) \<Longrightarrow> ml_block (st_local s' i) = None \<or>
      handed_in (st_pc s i) \<and> st_local s' i = st_local s i"
proof -
  from assms show "st_local s' j = st_local s j" if "j \<noteq> i" using that by cases auto
  from assms show "st_scanned s' j = st_scanned s j" if "j \<noteq> i" using that by cases auto
  from assms show "ml_block (st_local s' i) = None \<or> handed_in (st_pc s i) \<and> st_local s' i = st_local s i"
    if "handed_in (st_pc s' i)"
  proof cases
    case (prepare seen m' w')
    then show ?thesis
      using return_block_barrier [of I "st_local s i" "st_world s" m' w'] by (simp add: prepare_for_gc_def)
  qed (use that in \<open>auto simp: reset_def split: option.splits if_splits\<close>)
qed

lemma bstep_roots:
  assumes "bstep p I i s s'"
  shows "set (wd_roots (st_world s)) \<subseteq> set (wd_roots (st_world s')) \<or> st_pc s i = Collecting \<and> st_pc s' i = Releasing"
  using assms
proof cases
  case (work m' w')
  then show ?thesis using mutator_op_barrier [OF work(3)] by (simp add: barrier_frame_def)
next
  case (leave m' w')
  then show ?thesis using destroy_barrier [OF leave(3)] by simp
next
  case (prepare seen m' w')
  then show ?thesis
    using return_block_barrier [of I "st_local s i" "st_world s" m' w'] by (simp add: prepare_for_gc_def barrier_frame_def)
qed auto

lemma bstep_own_rooted:
  assumes "bstep p I i s s'" and "rooted (blocked_flag s' i) (st_pc s' i)"
    and "st_pc s i = Waking \<Longrightarrow> \<not> blocked_flag s i"
  shows "set (st_scanned s' i) \<subseteq> set (wd_roots (st_world s')) \<or>
    rooted (blocked_flag s i) (st_pc s i) \<and> st_scanned s' i = st_scanned s i"
  using assms by cases (auto simp: mutator_global_defs split: option.splits if_splits)

lemma data_inv_step:
  assumes inv: "data_inv s" "alone_inv s" "reg_inv s" "count_inv s" and i: "i \<in> arena s" and st: "bstep p I i s s'"
  shows "data_inv s'"
proof -
  have sub: "arena s' \<subseteq> arena s" using arena_step [OF inv(3) i st] by blast
  have given: "ml_block (st_local s j) = None" if "j \<in> arena s" "handed_in (st_pc s j)" for j
    using inv(1) that unfolding data_inv_def by blast
  have "ml_block (st_local s' j) = None" if j: "j \<in> arena s'" "handed_in (st_pc s' j)" for j
  proof (cases "j = i")
    case True
    then show ?thesis using bstep_locals(3) [OF st] j(2) given [OF i] by auto
  next
    case False
    have "handed_in (st_pc s j)"
      using st j(2) False by cases (auto split: if_splits)
    then show ?thesis using given [of j] bstep_locals(1) [OF st False] j(1) sub by auto
  qed
  moreover have "set (st_scanned s' j) \<subseteq> set (wd_roots (st_world s'))"
    if none: "\<forall>k\<in>arena s'. \<not> swept (st_pc s' k)" and j: "j \<in> arena s'" "rooted (blocked_flag s' j) (st_pc s' j)" for j
  proof -
    have re: "st_pc s i \<noteq> Reopening" using reopen_all [OF inv(2) i st _ subsetD [OF sub j(1)]] j(2) by auto
    have gone: "i \<in> arena s' \<or> st_pc s i = Running" using arena_step [OF inv(3) i st] i by blast
    have old: "set (st_scanned s k) \<subseteq> set (wd_roots (st_world s))"
      if "k \<in> arena s" "rooted (blocked_flag s k) (st_pc s k)" for k
    proof -
      have "\<not> swept (st_pc s l)" if "l \<in> arena s" for l
      proof
        assume sw: "swept (st_pc s l)"
        then have "alone (st_pc s l)" by (cases "st_pc s l") simp_all
        then have own: "swept (st_pc s i)" using alone_mover [OF inv(2) i st that] sw by simp
        from st have "swept (st_pc s' i)" using own re by cases auto
        moreover have "i \<in> arena s'" using own gone by auto
        ultimately show False using none by blast
      qed
      then show ?thesis using inv(1) that unfolding data_inv_def by blast
    qed
    have grow: "set (wd_roots (st_world s)) \<subseteq> set (wd_roots (st_world s'))"
      using bstep_roots [OF st] gone none by fastforce
    show ?thesis
    proof (cases "j = i")
      case True
      have "st_pc s i = Waking \<Longrightarrow> \<not> blocked_flag s i" using inv(4) i unfolding count_inv_def by blast
      from bstep_own_rooted [OF st _ this] j(2) True
      have "set (st_scanned s' i) \<subseteq> set (wd_roots (st_world s')) \<or>
        rooted (blocked_flag s i) (st_pc s i) \<and> st_scanned s' i = st_scanned s i" by simp
      then show ?thesis using old [OF i] grow True by (elim disjE conjE) simp_all
    next
      case False
      have "blocked_flag s' j = blocked_flag s j \<or> st_pc s j = Parked"
        using flag_or_parked [OF inv(2) i st _ False] j(1) sub by blast
      then have "rooted (blocked_flag s j) (st_pc s j)" using j(2) bstep_others [OF st False re] by auto
      then have "set (st_scanned s j) \<subseteq> set (wd_roots (st_world s))" using old j(1) sub by blast
      then show ?thesis using grow bstep_locals(2) [OF st False] by simp
    qed
  qed
  ultimately show ?thesis unfolding data_inv_def by blast
qed

section \<open>Every reachable state\<close>

definition stw_inv :: "'q stw \<Rightarrow> bool" where
  "stw_inv s \<longleftrightarrow> reg_inv s \<and> lock_inv s \<and> alone_inv s \<and> count_inv s \<and> ctl_inv s \<and> data_inv s"

lemma stw_inv_start: "stw_start s \<Longrightarrow> stw_inv s"
  by (simp add: stw_start_def stw_inv_def reg_inv_def lock_inv_def alone_inv_def count_inv_def ctl_inv_def
      data_inv_def counted_set_def)

lemma stw_inv_step: "stw_inv s \<Longrightarrow> i \<in> arena s \<Longrightarrow> bstep p I i s s' \<Longrightarrow> stw_inv s'"
  using reg_inv_step lock_inv_step alone_inv_step count_inv_step ctl_inv_step data_inv_step
  unfolding stw_inv_def by metis

text \<open>A new mutator is running and has nothing that the invariants speak of.\<close>

lemma creates_frame:
  assumes "creates idx s s'" and "reg_inv s"
  shows "idx \<notin> arena s" "arena s' = insert idx (arena s)" "reg_inv s'"
    and "wd_controller (st_world s') = wd_controller (st_world s)" "wd_stw_count (st_world s') = wd_stw_count (st_world s)"
    and "wd_roots (st_world s') = wd_roots (st_world s)" "st_lock s' = st_lock s"
    and "st_pc s' = (st_pc s)(idx := Running)"
    and "j \<noteq> idx \<Longrightarrow> blocked_flag s' j = blocked_flag s j \<and> st_local s' j = st_local s j \<and> st_scanned s' j = st_scanned s j"
  using assms registry_ok_register [of "wd_registry (st_world s)" idx mg_new]
  by (auto simp: creates.simps mutator_new_def register_def fresh_index_def reg_inv_def)

lemma stw_inv_create:
  assumes inv: "stw_inv s" and go: "\<not> stopped s" and new: "creates idx s s'"
  shows "stw_inv s'"
proof -
  have inv': "reg_inv s" "lock_inv s" "count_inv s" "ctl_inv s" "data_inv s" using inv by (simp_all add: stw_inv_def)
  note f = creates_frame [OF new inv'(1)]
  have go': "\<not> alone (st_pc s j)" if "j \<in> arena s" for j using go that by (auto simp: stopped_def)
  have old: "j \<noteq> idx" if "j \<in> arena s" for j using that f(1) by blast
  have sets: "counted_set s' = counted_set s" "parked_set s' = parked_set s"
    using f(1,2,8,9) by (auto simp: counted_set_def parked_set_def split: if_splits)
  have free: "st_pc s j \<noteq> Reopening" "\<not> finishes (st_pc s j)" "\<not> swept (st_pc s j)" if "j \<in> arena s" for j
    using go' [OF that] by (cases "st_pc s j"; simp)+
  have "lock_inv s'" using inv'(2) f(1,2,7,8) by (auto simp: lock_inv_def)
  moreover have "alone_inv s'" using go' f(2,8) by (auto simp: alone_inv_def)
  moreover have "count_inv s'"
    using inv'(3) free(1) f(2,5,8,9) sets old by (auto simp: count_inv_def)
  moreover have "ctl_inv s'"
    using inv'(4) free(2) f(1,2,4,8,9) old unfolding ctl_inv_def by (auto split: if_splits)
  moreover have "data_inv s'"
    using inv'(5) free(3) f(2,6,8,9) old unfolding data_inv_def by (auto split: if_splits)
  ultimately show ?thesis using f(3) by (simp add: stw_inv_def)
qed

lemma stw_inv_reach: "breach p I s \<Longrightarrow> stw_inv s"
  by (induction rule: breach.induct) (blast intro: stw_inv_start stw_inv_step stw_inv_create)+

text \<open>While a controller collects, everybody else is parked, all blocks are back in the
  space and all roots have been added.\<close>

lemma world_stopped:
  assumes "breach p I s" and i: "i \<in> arena s" "st_pc s i = Collecting" and j: "j \<in> arena s"
  shows "(j \<noteq> i \<longrightarrow> st_pc s j = Parked) \<and> ml_block (st_local s j) = None \<and>
    set (st_scanned s j) \<subseteq> set (wd_roots (st_world s))"
proof -
  have inv: "alone_inv s" "data_inv s" using stw_inv_reach [OF assms(1)] by (simp_all add: stw_inv_def)
  have al: "alone (st_pc s i)" using i(2) by simp
  then have others: "st_pc s k = Parked" if "k \<in> arena s" "k \<noteq> i" for k
    using inv(1) i(1) that unfolding alone_inv_def by blast
  have pc: "st_pc s k \<in> {Parked, Collecting}" if "k \<in> arena s" for k
    using others [OF that] i(2) by (cases "k = i") simp_all
  then have "\<not> swept (st_pc s k)" if "k \<in> arena s" for k using that by fastforce
  moreover have "handed_in (st_pc s j)" "rooted (blocked_flag s j) (st_pc s j)" using pc [OF j] by auto
  ultimately have "ml_block (st_local s j) = None" "set (st_scanned s j) \<subseteq> set (wd_roots (st_world s))"
    using inv(2) j unfolding data_inv_def by blast+
  then show ?thesis using others [OF j] by blast
qed

lemma one_leader:
  assumes "breach p I s" and "i \<in> arena s" "j \<in> arena s"
    and "leads (st_pc s i) \<or> finishes (st_pc s i)" "leads (st_pc s j) \<or> finishes (st_pc s j)"
  shows "i = j"
proof (rule ccontr)
  assume ij: "i \<noteq> j"
  have inv: "alone_inv s" "ctl_inv s" "reg_inv s" using stw_inv_reach [OF assms(1)] by (simp_all add: stw_inv_def)
  have fin: False if k: "k \<in> arena s" "finishes (st_pc s k)" and l: "l \<in> arena s" "l \<noteq> k"
    "leads (st_pc s l) \<or> finishes (st_pc s l)" for k l
  proof -
    have "alone (st_pc s k)" using k(2) by (cases "st_pc s k") simp_all
    then have "st_pc s l = Parked" using inv(1) k(1) l(1,2) unfolding alone_inv_def by blast
    then show False using l(3) by simp
  qed
  then have "leads (st_pc s i)" "leads (st_pc s j)" using assms(2-5) ij by blast+
  then have "int (fst i) = int (fst j)" using inv(2) assms(2,3) unfolding ctl_inv_def by metis
  then show False using slots_distinct [OF inv(3) assms(2,3)] ij by simp
qed

text \<open>Nobody waits for nothing: as long as a thread is blocked, the controller it waits for
  is still going through the barrier, unless it has panicked.\<close>

lemma parked_has_leader:
  assumes "breach p I s" and "j \<in> arena s" and "st_pc s j = Parked"
  shows "\<exists>i\<in>arena s. leads (st_pc s i) \<or> finishes (st_pc s i) \<or> crashed (st_pc s i)"
proof -
  have inv: "ctl_inv s" using stw_inv_reach [OF assms(1)] by (simp add: stw_inv_def)
  have "yields (blocked_flag s j) (st_pc s j)" using assms(3) by simp
  then have "wd_controller (st_world s) \<noteq> NO_CONTROLLER \<or> (\<exists>i\<in>arena s. finishes (st_pc s i))"
    using inv assms(2) unfolding ctl_inv_def by blast
  then show ?thesis using inv unfolding ctl_inv_def by blast
qed

text \<open>The assertion of \<open>sync_barrier\<close> and the arithmetic of the counter hold.\<close>

lemma barrier_crash:
  assumes reach: "breach p I s" and i: "i \<in> arena s" and st: "bstep p I i s s'" and e: "st_pc s' i = Crashed e"
  shows "(\<exists>seen env. st_pc s i = Rooting seen \<and>
      stack_scan p env (wd_mem (st_world s)) (wd_space (st_world s)) = Some (Inl e)) \<or>
    (\<exists>sched. st_pc s i = Collecting \<and> gc p I sched (st_world s) = Some (Inl e))"
proof -
  have inv: "ctl_inv s" "count_inv s" "reg_inv s" using stw_inv_reach [OF reach] by (simp_all add: stw_inv_def)
  from st show ?thesis
  proof cases
    case (scan seen env rs)
    have "seen \<noteq> Some (int (fst i))" using inv(1) i scan(2) unfolding ctl_inv_def by blast
    then show ?thesis using scan e by (auto split: option.splits if_splits)
  next
    case (raise_crash e')
    have "i \<notin> counted_set s" using raise_crash(2) by (simp add: counted_set_def)
    moreover have "card (insert i (counted_set s)) \<le> card (arena s)"
      using i by (intro card_mono) (auto simp: counted_set_def)
    moreover have "card (arena s) < 2 ^ 64"
      using inv(3) card_length [of "rg_arena (wd_registry (st_world s))"] by (simp add: reg_inv_def registry_ok_def)
    moreover have "unat (wd_stw_count (st_world s)) = card (counted_set s)" using inv(2) by (simp add: count_inv_def)
    ultimately show ?thesis using raise_crash(3) by (simp add: usize_add_def)
  next
    case (gather_crash c e')
    have "0 < length (rg_arena (wd_registry (st_world s)))" using i by (auto simp: length_greater_0_conv)
    then have "1 \<le> rg_n_mutators (wd_registry (st_world s))"
      using inv(3) by (simp add: reg_inv_def registry_ok_def word_le_nat_alt Suc_le_eq)
    then show ?thesis using gather_crash(3) by (simp add: usize_sub_def)
  qed (use e in auto)
qed

section \<open>The barrier as one call\<close>

text \<open>When the other mutators are already parked, the steps of the controller make up the
  function \<open>sync_barrier\<close> of the sequential model.\<close>

definition controls :: "index \<Rightarrow> barrier_pc \<Rightarrow> mutator_local \<Rightarrow> 'q world \<Rightarrow> 'q stw \<Rightarrow> bool" where
  "controls i pc m w s \<longleftrightarrow> st_pc s i = pc \<and> st_local s i = m \<and> st_world s = w \<and> st_lock s = None"

text \<open>The steps between the call of \<open>sync_barrier\<close> and its return.\<close>

definition barrier_step :: "profile \<Rightarrow> 'q block_queue \<Rightarrow> index \<Rightarrow> 'q stw \<Rightarrow> 'q stw \<Rightarrow> bool" where
  "barrier_step p I i s s' \<longleftrightarrow> st_pc s i \<noteq> Running \<and> bstep p I i s s'"

abbreviation barrier_run :: "profile \<Rightarrow> 'q block_queue \<Rightarrow> index \<Rightarrow> 'q stw \<Rightarrow> 'q stw \<Rightarrow> bool" where
  "barrier_run p I i \<equiv> (barrier_step p I i)\<^sup>*\<^sup>*"

lemma barrier_run_bstep: "barrier_run p I i s s' \<Longrightarrow> (bstep p I i)\<^sup>*\<^sup>* s s'"
  using rtranclp_mono [of "barrier_step p I i" "bstep p I i"] by (auto simp: barrier_step_def le_fun_def)

lemmas barrier_first = converse_rtranclp_into_rtranclp [of "barrier_step p I i" for p I i]

lemma controls_gather:
  assumes "controls i (Gathering 0) m w s"
    and "usize_sub p (rg_n_mutators (wd_registry w)) 1 = Inr expected" and "\<not> wd_stw_count w < expected"
  shows "\<exists>s'. barrier_run p I i s s' \<and> controls i Collecting m w s'"
proof (cases "0 < expected")
  case True
  let ?s = "at_pc i (Gathering (wd_stw_count w)) s"
  have 1: "barrier_step p I i s ?s"
    using assms True bstep.gather [of s i 0 p expected I] by (simp add: controls_def barrier_step_def)
  have 2: "barrier_step p I i ?s (at_pc i Collecting ?s)"
    using assms bstep.gathered [of ?s i "wd_stw_count w" p expected I] by (simp add: controls_def barrier_step_def)
  show ?thesis
    using assms(1) barrier_first [OF 1 r_into_rtranclp [of "barrier_step p I i", OF 2]]
    by (intro exI [of _ "at_pc i Collecting ?s"]) (simp add: controls_def)
next
  case False
  have "barrier_step p I i s (at_pc i Collecting s)"
    using assms False bstep.gathered [of s i 0 p expected I] by (simp add: controls_def barrier_step_def)
  then show ?thesis using assms(1) by (intro exI [of _ "at_pc i Collecting s"]) (simp add: controls_def r_into_rtranclp)
qed

lemma controls_enter:
  assumes "controls i Running m w s" and "take_yield (rg_globals (wd_registry w) i)"
    and "wd_controller w = NO_CONTROLLER"
    and "enter_barrier p I env m (w\<lparr>wd_controller := int (fst i)\<rparr>) = Some (Inr (m1, w1))"
  shows "\<exists>s0 s'. bstep p I i s s0 \<and> st_pc s0 i \<noteq> Running \<and> barrier_run p I i s0 s' \<and> controls i (Gathering 0) m1 w1 s'"
proof -
  let ?a = "at_pc i (Preparing None) (s\<lparr>st_world := (st_world s)\<lparr>wd_controller := int (fst i)\<rparr>\<rparr>)"
  obtain m2 w2 where prep: "prepare_for_gc I m (w\<lparr>wd_controller := int (fst i)\<rparr>) = (m2, w2)"
    by (cases "prepare_for_gc I m (w\<lparr>wd_controller := int (fst i)\<rparr>)")
  then obtain rs where rs: "stack_scan p env (wd_mem w2) (wd_space w2) = Some (Inr rs)"
    and res: "m1 = m2" "w1 = w2\<lparr>wd_roots := wd_roots w2 @ rs\<rparr>"
    using assms(4) by (auto simp: enter_barrier_def bind_ro_def split: option.splits sum.splits)
  let ?b = "at_pc i (Rooting None) (?a\<lparr>st_world := w2, st_local := (st_local ?a)(i := m2)\<rparr>)"
  let ?c = "at_pc i (Gathering 0) (?b\<lparr>st_world := (st_world ?b)\<lparr>wd_roots := wd_roots (st_world ?b) @ rs\<rparr>,
    st_scanned := (st_scanned ?b)(i := rs)\<rparr>)"
  have 1: "bstep p I i s ?a" using assms(1-3) by (intro bstep.win) (simp_all add: controls_def)
  have 2: "barrier_step p I i ?a ?b"
    using assms(1) prep bstep.prepare [of ?a i None I m2 w2 p] by (simp add: barrier_step_def controls_def)
  have 3: "barrier_step p I i ?b ?c" using bstep.scan [of ?b i None p env rs I] rs by (simp add: barrier_step_def)
  have "barrier_run p I i ?a ?c" by (rule barrier_first [OF 2 r_into_rtranclp [of "barrier_step p I i", OF 3]])
  then show ?thesis using assms(1) res 1 by (intro exI [of _ ?a] exI [of _ ?c]) (simp add: controls_def)
qed

lemma controls_collect:
  assumes "controls i Collecting m w s" and "gc p I sched w = Some (Inr w2)"
  shows "barrier_step p I i s (at_pc i Releasing (s\<lparr>st_world := w2\<rparr>)) \<and>
    controls i Releasing m w2 (at_pc i Releasing (s\<lparr>st_world := w2\<rparr>))"
  using assms bstep.collect [of s i p I sched w2] by (simp add: controls_def barrier_step_def)

lemma controls_release:
  assumes "controls i Releasing m w s"
  shows "\<exists>s'. barrier_run p I i s s' \<and> controls i Running (reset m) ((resume_mutators w)\<lparr>wd_stw_count := 0\<rparr>) s'"
proof -
  let ?b = "at_pc i Resuming (s\<lparr>st_world := (st_world s)\<lparr>wd_controller := NO_CONTROLLER\<rparr>\<rparr>)"
  let ?c = "at_pc i Reopening (?b\<lparr>st_world := (st_world ?b)\<lparr>wd_registry :=
        update_registered (\<lambda>g. set_still_blocked (set_take_yield g False) False) (wd_registry (st_world ?b))\<rparr>,
      st_local := (st_local ?b)(i := reset (st_local ?b i))\<rparr>)"
  let ?d = "?c\<lparr>st_world := (st_world ?c)\<lparr>wd_stw_count := 0\<rparr>,
      st_pc := (\<lambda>j. if st_pc ?c j = Parked then Waking else st_pc ?c j)(i := Running)\<rparr>"
  have 2: "barrier_step p I i s ?b" using assms bstep.release [of s i p I] by (simp add: controls_def barrier_step_def)
  have 3: "barrier_step p I i ?b ?c" using bstep.resume [of ?b i p I] by (simp add: barrier_step_def)
  have 4: "barrier_step p I i ?c ?d" using assms bstep.reopen [of ?c i p I] by (simp add: controls_def barrier_step_def)
  have "barrier_run p I i s ?d"
    by (rule barrier_first [OF 2 barrier_first [OF 3 r_into_rtranclp [of "barrier_step p I i", OF 4]]])
  then show ?thesis
    using assms by (intro exI [of _ ?d]) (simp add: controls_def resume_mutators_def)
qed

lemma controls_finish:
  assumes "controls i Collecting m w s" and "gc p I sched w = Some (Inr w2)"
  shows "\<exists>s'. barrier_run p I i s s' \<and> controls i Running (reset m) ((resume_mutators w2)\<lparr>wd_stw_count := 0\<rparr>) s'"
  using controls_collect [OF assms] controls_release [of i m w2 _ p I] barrier_first [of p I i] by meson

lemma sync_barrier_path:
  assumes "st_pc s i = Running" and "st_lock s = None" and "ml_id (st_local s i) = i"
    and "take_yield (rg_globals (wd_registry (st_world s)) i)"
    and run: "sync_barrier p I sched env (st_local s i) (st_world s) = Some (Inr (m', w'))"
  shows "\<exists>s0 s'. bstep p I i s s0 \<and> st_pc s0 i \<noteq> Running \<and> barrier_run p I i s0 s' \<and> controls i Running m' w' s'"
proof -
  from run assms(3) obtain m1 w1 w2 expected where free: "wd_controller (st_world s) = NO_CONTROLLER"
    and e: "enter_barrier p I env (st_local s i) ((st_world s)\<lparr>wd_controller := int (fst i)\<rparr>) = Some (Inr (m1, w1))"
    and n: "usize_sub p (rg_n_mutators (wd_registry w1)) 1 = Inr expected" "\<not> wd_stw_count w1 < expected"
    and g: "gc p I sched w1 = Some (Inr w2)" "m' = reset m1" "w' = (resume_mutators w2)\<lparr>wd_stw_count := 0\<rparr>"
    by (auto simp: sync_barrier_def Let_def bind_ro_def split: option.splits sum.splits if_splits)
  have "controls i Running (st_local s i) (st_world s) s" using assms(1,2) by (simp add: controls_def)
  from controls_enter [OF this assms(4) free e] obtain s0 s1 where
    s1: "bstep p I i s s0" "st_pc s0 i \<noteq> Running" "barrier_run p I i s0 s1" "controls i (Gathering 0) m1 w1 s1" by blast
  from controls_gather [OF s1(4) n] obtain s2 where
    s2: "barrier_run p I i s1 s2" "controls i Collecting m1 w1 s2" by blast
  from controls_finish [OF s2(2) g(1)] obtain s3 where
    s3: "barrier_run p I i s2 s3" "controls i Running m' w' s3" using g(2,3) by blast
  show ?thesis using s1(1,2) rtranclp_trans [OF rtranclp_trans [OF s1(3) s2(1)] s3(1)] s3(2) by blast
qed

lemma sync_barrier_run:
  assumes "st_pc s i = Running" and "st_lock s = None" and "ml_id (st_local s i) = i"
    and "take_yield (rg_globals (wd_registry (st_world s)) i)"
    and "sync_barrier p I sched env (st_local s i) (st_world s) = Some (Inr (m', w'))"
  shows "\<exists>s'. (bstep p I i)\<^sup>*\<^sup>* s s' \<and> controls i Running m' w' s'"
  using sync_barrier_path [OF assms] barrier_run_bstep converse_rtranclp_into_rtranclp [of "bstep p I i"] by meson

section \<open>Mutators created at any time\<close>

text \<open>What the code allows: a mutator can be created while a collection runs, and is not stopped.\<close>

inductive breach_open :: "profile \<Rightarrow> 'q block_queue \<Rightarrow> 'q stw \<Rightarrow> bool" for p I where
  closed: "breach p I s \<Longrightarrow> breach_open p I s"
| step: "breach_open p I s \<Longrightarrow> i \<in> arena s \<Longrightarrow> bstep p I i s s' \<Longrightarrow> breach_open p I s'"
| create: "breach_open p I s \<Longrightarrow> fresh_index (wd_registry (st_world s)) idx \<Longrightarrow>
    mutator_new idx (st_world s) = (m', w') \<Longrightarrow>
    breach_open p I (s\<lparr>st_world := w', st_local := (st_local s)(idx := m'), st_pc := (st_pc s)(idx := Running)\<rparr>)"

lemma new_mutator_runs_on:
  assumes run: "breach p I s" and i: "i \<in> arena s" "st_pc s i = Collecting" and idx: "fresh_index (wd_registry (st_world s)) idx"
    and fetch: "fetch_block I (st_world s) = Some (Some b, w')"
  shows "\<exists>s'. breach_open p I s' \<and> i \<in> arena s' \<and> st_pc s' i = Collecting \<and>
    idx \<in> arena s' \<and> st_pc s' idx = Running \<and> ml_block (st_local s' idx) = Some b"
proof -
  let ?m = "fst (mutator_new idx (st_world s))" and ?w = "snd (mutator_new idx (st_world s))"
  let ?s = "s\<lparr>st_world := ?w, st_local := (st_local s)(idx := ?m), st_pc := (st_pc s)(idx := Running)\<rparr>"
  have ne: "idx \<noteq> i" using i(1) idx by (auto simp: fresh_index_def)
  have born: "breach_open p I ?s"
    by (rule breach_open.create [OF breach_open.closed [OF run] idx]) (simp add: mutator_new_def)
  have sp: "wd_space ?w = wd_space (st_world s)" by (simp add: mutator_new_def)
  obtain w2 where f: "fetch_block I ?w = Some (Some b, w2)" "rg_arena (wd_registry w2) = rg_arena (wd_registry ?w)"
    using fetch sp by (auto simp: fetch_block_def get_next_usable_block_def Let_def split: option.splits)
  let ?t = "?s\<lparr>st_world := w2, st_local := (st_local ?s)(idx := take_block ?m b)\<rparr>"
  have "mutator_op p I (st_local ?s idx) (st_world ?s) (take_block ?m b) w2"
    using mutator_op.fetch [OF _ f(1)] by (simp add: mutator_new_def)
  then have "bstep p I idx ?s ?t" by (intro bstep.work) simp_all
  moreover have "idx \<in> arena ?s" by (simp add: mutator_new_def register_def)
  ultimately have "breach_open p I ?t" using breach_open.step [OF born] by blast
  moreover have "i \<in> arena ?t" "idx \<in> arena ?t"
    using f(2) i(1) by (simp_all add: mutator_new_def register_def)
  ultimately show ?thesis using i(2) ne by (intro exI [of _ ?t]) (simp add: take_block_def)
qed

end
