(* ===== verification/Example_Barrier.thy ===== *)
theory Example_Barrier
  imports Example_Heap Stop_World
begin

unbundle bit_operations_syntax

declare split_paired_All [simp del] split_paired_Ex [simp del]

text \<open>
  Two mutators run through the barrier of \<open>Stop_World\<close> on a concrete space: the first asks
  for a collection and becomes the controller, the second parks, and the first collects.
\<close>

abbreviation ex_fst :: index where "ex_fst \<equiv> (0, 0)"
abbreviation ex_snd :: index where "ex_snd \<equiv> (1, 0)"

abbreviation ex_duo_space :: "(immix_block list \<times> nat) immix_space" where
  "ex_duo_space \<equiv> ex_space ex_bytes 1 ex_lines [ex_block] []"

definition ex_duo :: "(immix_block list \<times> nat) stw" where
  "ex_duo = \<lparr>st_world = (ex_world ex_duo_space ex_mem [])
      \<lparr>wd_registry := \<lparr>rg_globals = (\<lambda>_. mg_new), rg_arena = [ex_fst, ex_snd], rg_n_mutators = 2\<rparr>\<rparr>,
    st_lock = None, st_pc = (\<lambda>_. Running), st_local = (\<lambda>i. ex_mutator\<lparr>ml_id := i\<rparr>), st_scanned = (\<lambda>_. [])\<rparr>"

abbreviation ex_breach :: "(immix_block list \<times> nat) stw \<Rightarrow> bool" where
  "ex_breach \<equiv> breach Debug (fifo_ops 0)"

text \<open>Where the two mutators stand, and the shared variables of the barrier.\<close>

definition duo :: "barrier_pc \<Rightarrow> barrier_pc \<Rightarrow> int \<Rightarrow> usize \<Rightarrow> index option \<Rightarrow> bool \<Rightarrow>
    (immix_block list \<times> nat) stw \<Rightarrow> bool" where
  "duo pc0 pc1 ctl n lk flag s \<longleftrightarrow> ex_breach s \<and> st_pc s ex_fst = pc0 \<and> st_pc s ex_snd = pc1 \<and>
     wd_controller (st_world s) = ctl \<and> wd_stw_count (st_world s) = n \<and> st_lock s = lk \<and>
     blocked_flag s ex_snd = flag \<and>
     rg_arena (wd_registry (st_world s)) = [ex_fst, ex_snd] \<and> rg_n_mutators (wd_registry (st_world s)) = 2 \<and>
     (\<forall>i. ml_block (st_local s i) = None) \<and> wd_space (st_world s) = ex_duo_space \<and> wd_mem (st_world s) = ex_mem \<and>
     (\<forall>i\<in>{ex_fst, ex_snd}. mg_take_yield (rg_globals (wd_registry (st_world s)) i))"

lemma duo_start: "stw_start ex_duo"
  by (simp add: stw_start_def ex_duo_def registry_ok_def ex_world_def ex_mutator_def)

lemma duo_request: "\<exists>s. duo Running Running NO_CONTROLLER 0 None False s"
proof -
  let ?w = "(st_world ex_duo)\<lparr>wd_registry := trigger_gc (wd_registry (st_world ex_duo))\<rparr>"
  let ?s = "ex_duo\<lparr>st_world := ?w, st_local := (st_local ex_duo)(ex_fst := st_local ex_duo ex_fst)\<rparr>"
  have "bstep Debug (fifo_ops 0) ex_fst ex_duo ?s"
    by (rule bstep.work [OF _ mutator_op.request]) (simp add: ex_duo_def)
  then have "ex_breach ?s"
    by (rule breach.step [OF breach.start [OF duo_start], rotated]) (simp add: ex_duo_def)
  then show ?thesis
    by (intro exI [of _ ?s])
      (simp add: duo_def ex_duo_def ex_world_def ex_mutator_def trigger_gc_def mutator_global_defs)
qed

lemma duo_next:
  assumes "duo pc0 pc1 ctl n lk flag s" and "bstep Debug (fifo_ops 0) i s s'" and "i \<in> {ex_fst, ex_snd}"
    and "st_pc s' ex_fst = pc0'" "st_pc s' ex_snd = pc1'" "wd_controller (st_world s') = ctl'"
    "wd_stw_count (st_world s') = n'" "st_lock s' = lk'" "blocked_flag s' ex_snd = flag'"
    and "rg_arena (wd_registry (st_world s')) = rg_arena (wd_registry (st_world s))"
    "rg_n_mutators (wd_registry (st_world s')) = rg_n_mutators (wd_registry (st_world s))"
    "\<forall>i. ml_block (st_local s' i) = None" "wd_space (st_world s') = wd_space (st_world s)"
    "wd_mem (st_world s') = wd_mem (st_world s)"
    "\<forall>i\<in>{ex_fst, ex_snd}. mg_take_yield (rg_globals (wd_registry (st_world s')) i)"
  shows "duo pc0' pc1' ctl' n' lk' flag' s'"
proof -
  have "ex_breach s'" using assms(1,3) by (intro breach.step [OF _ _ assms(2)]) (auto simp: duo_def)
  then show ?thesis using assms(1,4-) by (simp add: duo_def)
qed

lemma duo_sel:
  assumes "duo pc0 pc1 ctl n lk flag s"
  shows "st_pc s ex_fst = pc0" "st_pc s ex_snd = pc1" "st_pc s (Suc 0, 0) = pc1"
    "wd_controller (st_world s) = ctl" "wd_stw_count (st_world s) = n"
    "st_lock s = lk" "blocked_flag s ex_snd = flag" "blocked_flag s (Suc 0, 0) = flag"
    "ml_block (st_local s i) = None" "rg_n_mutators (wd_registry (st_world s)) = 2"
    "wd_space (st_world s) = ex_duo_space" "wd_mem (st_world s) = ex_mem"
    "mg_take_yield (rg_globals (wd_registry (st_world s)) ex_fst)"
    "mg_take_yield (rg_globals (wd_registry (st_world s)) ex_snd)"
    "mg_take_yield (rg_globals (wd_registry (st_world s)) (Suc 0, 0))"
  using assms by (simp_all add: duo_def)

lemma duo_win:
  assumes d: "duo Running pc1 NO_CONTROLLER n lk flag s"
  shows "\<exists>s'. duo (Preparing None) pc1 0 n lk flag s'"
  using duo_next [OF d bstep.win [of s ex_fst Debug "fifo_ops 0"]]
  by (fastforce simp: duo_sel [OF d] take_yield_def)

lemma duo_lose:
  assumes d: "duo pc0 Running 0 n lk flag s"
  shows "\<exists>s'. duo pc0 (Preparing (Some 0)) 0 n lk flag s'"
  using duo_next [OF d bstep.lose [of s ex_snd Debug "fifo_ops 0"]]
  by (fastforce simp: duo_sel [OF d] take_yield_def NO_CONTROLLER_def)

lemma duo_scan_roots: "stack_scan p ex_env ex_mem ex_duo_space = Some (Inr [ObjectReference 524288])"
  by (rule ex_scan_roots) simp

lemma duo_prepare:
  assumes d: "duo pc0 pc1 ctl n lk flag s"
  shows "pc0 = Preparing seen \<Longrightarrow> \<exists>s'. duo (Rooting seen) pc1 ctl n lk flag s'"
    and "pc1 = Preparing seen \<Longrightarrow> \<exists>s'. duo pc0 (Rooting seen) ctl n lk flag s'"
proof -
  have same: "prepare_for_gc (fifo_ops 0) (st_local s i) (st_world s) = (st_local s i, st_world s)" for i
    by (simp add: prepare_for_gc_def return_block_def duo_sel [OF d])
  show "\<exists>s'. duo (Rooting seen) pc1 ctl n lk flag s'" if "pc0 = Preparing seen"
    using duo_next [OF d bstep.prepare [OF _ same, of ex_fst seen Debug]] that by (fastforce simp: duo_sel [OF d])
  show "\<exists>s'. duo pc0 (Rooting seen) ctl n lk flag s'" if "pc1 = Preparing seen"
    using duo_next [OF d bstep.prepare [OF _ same, of ex_snd seen Debug]] that by (fastforce simp: duo_sel [OF d])
qed

lemma duo_scan:
  assumes d: "duo pc0 pc1 ctl n lk flag s"
  shows "pc0 = Rooting None \<Longrightarrow> \<exists>s'. duo (Gathering 0) pc1 ctl n lk flag s'"
    and "pc1 = Rooting (Some 0) \<Longrightarrow> \<exists>s'. duo pc0 Locking ctl n lk flag s'"
proof -
  have rs: "stack_scan Debug ex_env (wd_mem (st_world s)) (wd_space (st_world s)) = Some (Inr [ObjectReference 524288])"
    using duo_scan_roots by (simp add: duo_sel [OF d])
  show "\<exists>s'. duo (Gathering 0) pc1 ctl n lk flag s'" if "pc0 = Rooting None"
    using duo_next [OF d bstep.scan [OF _ rs, of ex_fst None "fifo_ops 0"]] that by (fastforce simp: duo_sel [OF d])
  show "\<exists>s'. duo pc0 Locking ctl n lk flag s'" if "pc1 = Rooting (Some 0)"
    using duo_next [OF d bstep.scan [OF _ rs, of ex_snd "Some 0" "fifo_ops 0"]] that by (fastforce simp: duo_sel [OF d])
qed

lemma duo_block:
  assumes d: "duo pc0 pc1 ctl n lk flag s"
  shows "pc1 = Locking \<Longrightarrow> lk = None \<Longrightarrow> \<exists>s'. duo pc0 Raising ctl n (Some ex_snd) flag s'"
    and "pc1 = Raising \<Longrightarrow> n = 0 \<Longrightarrow> \<exists>s'. duo pc0 Flagging ctl 1 lk flag s'"
    and "pc1 = Flagging \<Longrightarrow> \<exists>s'. duo pc0 Checking ctl n lk True s'"
    and "pc1 = Checking \<Longrightarrow> flag \<Longrightarrow> \<exists>s'. duo pc0 Parked ctl n None flag s'"
proof -
  show "\<exists>s'. duo pc0 Raising ctl n (Some ex_snd) flag s'" if "pc1 = Locking" "lk = None"
    using duo_next [OF d bstep.lock [of s ex_snd Debug "fifo_ops 0"]] that by (fastforce simp: duo_sel [OF d])
  show "\<exists>s'. duo pc0 Flagging ctl 1 lk flag s'" if "pc1 = Raising" "n = 0"
    using duo_next [OF d bstep.raise [of s ex_snd Debug 1 "fifo_ops 0"]] that
    by (fastforce simp: duo_sel [OF d] usize_add_def)
  show "\<exists>s'. duo pc0 Checking ctl n lk True s'" if "pc1 = Flagging"
    using duo_next [OF d bstep.flag [of s ex_snd Debug "fifo_ops 0"]] that
    by (fastforce simp: duo_sel [OF d] set_still_blocked_def)
  show "\<exists>s'. duo pc0 Parked ctl n None flag s'" if "pc1 = Checking" "flag"
    using duo_next [OF d bstep.park [of s ex_snd Debug "fifo_ops 0"]] that
    by (fastforce simp: duo_sel [OF d] is_still_blocked_def)
qed

lemma duo_gather:
  assumes d: "duo (Gathering c) pc1 ctl n None flag s"
  shows "c < 1 \<Longrightarrow> \<exists>s'. duo (Gathering n) pc1 ctl n None flag s'"
    and "\<not> c < 1 \<Longrightarrow> \<exists>s'. duo Collecting pc1 ctl n None flag s'"
proof -
  have e: "usize_sub Debug (rg_n_mutators (wd_registry (st_world s))) 1 = Inr 1"
    by (simp add: usize_sub_def duo_sel [OF d])
  show "\<exists>s'. duo (Gathering n) pc1 ctl n None flag s'" if "c < 1"
    using duo_next [OF d bstep.gather [OF duo_sel(1) [OF d] e that, of "fifo_ops 0"]] by (fastforce simp: duo_sel [OF d])
  show "\<exists>s'. duo Collecting pc1 ctl n None flag s'" if "\<not> c < 1"
    using duo_next [OF d bstep.gathered [OF duo_sel(1) [OF d] e that, of "fifo_ops 0"]] by (fastforce simp: duo_sel [OF d])
qed

lemma duo_collecting: "\<exists>s. duo Collecting Parked 0 1 None True s"
proof -
  obtain a where "duo Running Running NO_CONTROLLER 0 None False a" using duo_request by blast
  then obtain b where "duo (Preparing None) Running 0 0 None False b" using duo_win by blast
  then obtain c where "duo (Preparing None) (Preparing (Some 0)) 0 0 None False c" using duo_lose by blast
  then obtain d where "duo (Rooting None) (Preparing (Some 0)) 0 0 None False d" using duo_prepare(1) by blast
  then obtain e where "duo (Rooting None) (Rooting (Some 0)) 0 0 None False e" using duo_prepare(2) by blast
  then obtain f where "duo (Gathering 0) (Rooting (Some 0)) 0 0 None False f" using duo_scan(1) by blast
  then obtain g where "duo (Gathering 0) Locking 0 0 None False g" using duo_scan(2) by blast
  then obtain h where "duo (Gathering 0) Raising 0 0 (Some ex_snd) False h" using duo_block(1) by blast
  then obtain i where "duo (Gathering 0) Flagging 0 1 (Some ex_snd) False i" using duo_block(2) by blast
  then obtain j where "duo (Gathering 0) Checking 0 1 (Some ex_snd) True j" using duo_block(3) by blast
  then obtain k where "duo (Gathering 0) Parked 0 1 None True k" using duo_block(4) by blast
  then obtain l where "duo (Gathering 1) Parked 0 1 None True l" using duo_gather(1) by fastforce
  then show ?thesis using duo_gather(2) by fastforce
qed

text \<open>A block is still usable, so the collection fails its debug assertion.\<close>

lemma duo_fetch:
  "duo pc0 pc1 ctl n lk flag s \<Longrightarrow> \<exists>w'. fetch_block (fifo_ops 0) (st_world s) = Some (Some ex_block, w')"
  by (simp add: fetch_block_def get_next_usable_block_def steal_loop.simps duo_sel Let_def)

lemma duo_gc_panics:
  assumes d: "duo pc0 pc1 ctl n lk flag s"
  shows "\<exists>e. gc Debug (fifo_ops 0) ex_sched (st_world s) = Some (Inl e)"
proof -
  let ?w = "st_world s"
  obtain res where t: "start_trace Debug ex_sched (wd_mem ?w) (wd_roots ?w) (wd_space ?w) = Some res"
    using start_trace_returns [of "wd_space ?w" ex_sched "wd_roots ?w" "wd_mem ?w" Debug] by (auto simp: duo_sel [OF d])
  show ?thesis
  proof (cases res)
    case (Inl e)
    then show ?thesis using t by (simp add: gc_def Let_def)
  next
    case (Inr sp1)
    have run: "start_trace Debug ex_sched ex_mem (wd_roots ?w) ex_duo_space = Some (Inr sp1)"
      using t Inr by (simp add: duo_sel [OF d])
    obtain tm lt where "sp1 = with_marks ex_duo_space tm lt"
      using start_trace_frame [OF _ run] ex_tables_ok by (metis ex_lengths)
    then have sp1: "sp_used_blocks sp1 = ([], 0)" "sp_total_blocks sp1 = 1" by simp_all
    then obtain e where "sweep Debug (fifo_ops 0) sp1 = Some (Inl e)"
      using sweep_ok [OF fifo_ops_laws, of sp1 Debug 0] by (auto simp: full_blocks_def)
    then show ?thesis using t Inr by (simp add: gc_def Let_def)
  qed
qed

text \<open>A mutator that is alone and has been asked to yield.\<close>

definition ex_solo :: "(immix_block list \<times> nat) stw" where
  "ex_solo = \<lparr>st_world = ex_heap\<lparr>wd_registry := \<lparr>rg_globals = (\<lambda>_. set_take_yield mg_new True),
      rg_arena = [ex_fst], rg_n_mutators = 1\<rparr>\<rparr>,
    st_lock = None, st_pc = (\<lambda>_. Running), st_local = (\<lambda>_. ex_mutator), st_scanned = (\<lambda>_. [])\<rparr>"

lemma ex_solo_barrier:
  "\<exists>m' w'. sync_barrier p (fifo_ops 0) sched ex_env (st_local ex_solo ex_fst) (st_world ex_solo) = Some (Inr (m', w'))"
  unfolding ex_solo_def using ex_barrier_any by simp

end
