(* ===== verification/Shared_Heap.thy ===== *)
theory Shared_Heap
  imports Stop_World
begin

text \<open>
  The heap that the mutators of \<open>Stop_World\<close> share: which blocks they hold, which bytes are
  still to be given out, and which lines the collector has retained, for every interleaving of
  their steps. The sequential \<open>alloc\<close>, its barrier included, is shown to be such a run.
\<close>

declare split_paired_All [simp del] split_paired_Ex [simp del]

section \<open>Systems of mutators\<close>

text \<open>A step of any registered mutator, or a new mutator while the world is not stopped.\<close>

inductive system_step :: "profile \<Rightarrow> 'q block_queue \<Rightarrow> 'q stw \<Rightarrow> 'q stw \<Rightarrow> bool" for p I where
  move: "i \<in> arena s \<Longrightarrow> bstep p I i s s' \<Longrightarrow> system_step p I s s'"
| create: "\<not> stopped s \<Longrightarrow> creates idx s s' \<Longrightarrow> system_step p I s s'"

abbreviation system_run :: "profile \<Rightarrow> 'q block_queue \<Rightarrow> 'q stw \<Rightarrow> 'q stw \<Rightarrow> bool" where
  "system_run p I \<equiv> (system_step p I)\<^sup>*\<^sup>*"

text \<open>The same with mutators that come into being at any time.\<close>

inductive open_step :: "profile \<Rightarrow> 'q block_queue \<Rightarrow> 'q stw \<Rightarrow> 'q stw \<Rightarrow> bool" for p I where
  move: "i \<in> arena s \<Longrightarrow> bstep p I i s s' \<Longrightarrow> open_step p I s s'"
| create: "fresh_index (wd_registry (st_world s)) idx \<Longrightarrow> mutator_new idx (st_world s) = (m', w') \<Longrightarrow>
    open_step p I s (s\<lparr>st_world := w', st_local := (st_local s)(idx := m'), st_pc := (st_pc s)(idx := Running)\<rparr>)"

abbreviation open_run :: "profile \<Rightarrow> 'q block_queue \<Rightarrow> 'q stw \<Rightarrow> 'q stw \<Rightarrow> bool" where
  "open_run p I \<equiv> (open_step p I)\<^sup>*\<^sup>*"

text \<open>The start: a well-formed space with all blocks in its queues, and mutators as
  \<open>ImmixMutatorLocal::new\<close> makes them.\<close>

definition fresh_start :: "('q \<Rightarrow> immix_block list) \<Rightarrow> 'q stw \<Rightarrow> bool" where
  "fresh_start c s \<longleftrightarrow> stw_start s \<and> space_ok c [] (wd_space (st_world s)) \<and> user_space (wd_space (st_world s)) \<and>
     (\<forall>i\<in>arena s. st_local s i = fst (mutator_new i (st_world s)))"

lemma system_run_reach: "system_run p I s0 s \<Longrightarrow> breach p I s0 \<Longrightarrow> breach p I s"
  by (induction rule: rtranclp.induct) (auto elim!: system_step.cases intro: breach.step breach.create)

lemma fresh_start_reach: "fresh_start c s0 \<Longrightarrow> system_run p I s0 s \<Longrightarrow> breach p I s"
  using system_run_reach breach.start by (metis fresh_start_def)

lemma creates_open: "creates idx s s' \<Longrightarrow> open_step p I s s'"
  by (erule creates.cases) (auto intro: open_step.create)

lemma system_run_open: "system_run p I s s' \<Longrightarrow> open_run p I s s'"
  by (induction rule: rtranclp.induct)
    (auto elim!: system_step.cases intro: open_step.move creates_open rtranclp.rtrancl_into_rtrancl)

section \<open>Who holds which block\<close>

definition held_blocks :: "'q stw \<Rightarrow> immix_block list" where
  "held_blocks s = concat (map (\<lambda>i. held_by (st_local s i)) (rg_arena (wd_registry (st_world s))))"

definition held_beside :: "'q stw \<Rightarrow> index \<Rightarrow> immix_block list" where
  "held_beside s i = concat (map (\<lambda>j. held_by (st_local s j)) (remove1 i (rg_arena (wd_registry (st_world s)))))"

definition own_inv :: "('q \<Rightarrow> immix_block list) \<Rightarrow> 'q stw \<Rightarrow> bool" where
  "own_inv c s \<longleftrightarrow> distinct (map fst (rg_arena (wd_registry (st_world s)))) \<and>
     (\<forall>i\<in>arena s. ml_id (st_local s i) = i \<and> ml_space_start (st_local s i) = sp_start (wd_space (st_world s)) \<and>
        (handed_in (st_pc s i) \<longrightarrow> ml_block (st_local s i) = None)) \<and>
     space_ok c (held_blocks s) (wd_space (st_world s))"

lemma space_ok_mset:
  assumes "mset held = mset held'"
  shows "space_ok c held s \<longleftrightarrow> space_ok c held' s"
proof -
  have "set held = set held'" using assms by (rule mset_eq_setD)
  moreover have "mset (map ib_id held) = mset (map ib_id held')" using assms by (simp del: mset_map add: mset_map)
  ultimately show ?thesis by (simp add: space_ok_def all_blocks_def)
qed

lemma held_split:
  assumes "i \<in> arena s"
  shows "mset (held_blocks s) = mset (held_by (st_local s i) @ held_beside s i)"
  using assms sum_list_map_remove1 [of i "rg_arena (wd_registry (st_world s))" "\<lambda>j. mset (held_by (st_local s j))"]
  by (simp add: held_blocks_def held_beside_def mset_concat comp_def)

text \<open>The step of one mutator leaves the blocks of the others alone.\<close>

lemma held_beside_same:
  assumes "distinct (map fst (rg_arena (wd_registry (st_world s))))"
    and "rg_arena (wd_registry (st_world s')) = rg_arena (wd_registry (st_world s))"
    and "\<And>j. j \<noteq> i \<Longrightarrow> st_local s' j = st_local s j"
  shows "held_beside s' i = held_beside s i"
proof -
  have "distinct (rg_arena (wd_registry (st_world s)))" using assms(1) by (simp add: distinct_map)
  then have "st_local s' j = st_local s j" if "j \<in> set (remove1 i (rg_arena (wd_registry (st_world s))))" for j
    using that by (intro assms(3)) auto
  then show ?thesis by (simp add: held_beside_def assms(2) cong: map_cong)
qed

text \<open>The parts of \<open>alloc\<close>, with the blocks of the others spelled out.\<close>

lemma return_block_space:
  assumes laws: "injector_laws I c r" and ok: "space_ok c (held_by m @ others) (wd_space w)"
    and rb: "return_block I m w = (m', w')"
  shows "space_ok c (held_by m' @ others) (wd_space w') \<and> heap_frame w w' \<and> wd_cells w' = wd_cells w \<and>
    m' = m\<lparr>ml_block := None\<rparr>"
proof (cases "ml_block m")
  case None
  moreover from this have "m = m\<lparr>ml_block := None\<rparr>" by (cases m) simp
  ultimately show ?thesis using ok rb by (simp add: return_block_def)
next
  case (Some b)
  with ok have "space_ok c (b # others) (wd_space w)" by (simp add: held_by_def)
  from space_ok_return_used_block [OF laws this] show ?thesis
    using Some rb by (auto simp: return_block_def held_by_def heap_frame_def return_used_block_def)
qed

lemma fetch_block_space:
  assumes laws: "injector_laws I c r" and ok: "space_ok c others (wd_space w)"
    and f: "fetch_block I w = Some (ob, w')"
  shows "heap_frame w w' \<and> wd_cells w' = wd_cells w \<and>
    (case ob of None \<Rightarrow> space_ok c others (wd_space w') | Some b \<Rightarrow> space_ok c (b # others) (wd_space w'))"
proof -
  let ?us = "c (sp_usable_blocks (wd_space w))"
  obtain q where q: "c q = tl ?us"
    "get_next_usable_block I (wd_space w) (wd_registry w) =
      Some (if ?us = [] then (None, (wd_space w)\<lparr>sp_usable_blocks := q\<rparr>, trigger_gc (wd_registry w))
            else (Some (hd ?us), (wd_space w)\<lparr>sp_usable_blocks := q\<rparr>, wd_registry w))"
    using get_next_usable_block_ok [OF laws] by blast
  show ?thesis
  proof (cases ?us)
    case Nil
    moreover have "space_ok c others ((wd_space w)\<lparr>sp_usable_blocks := q\<rparr>)"
      using ok q(1) Nil by (simp add: space_ok_def all_blocks_def block_wf_def)
    ultimately show ?thesis using f q(2) by (auto simp: fetch_block_def heap_frame_def)
  next
    case (Cons b bs)
    then show ?thesis
      using f q space_ok_take [OF ok Cons, of q] by (auto simp: fetch_block_def heap_frame_def)
  qed
qed

text \<open>The search for a hole does not read the cursor or the limit.\<close>

lemma next_hole_cursor: "next_hole p (m\<lparr>ml_cursor := x, ml_limit := y\<rparr>) tbl = next_hole p m tbl"
proof -
  have "open_hole p (m\<lparr>ml_cursor := x, ml_limit := y\<rparr>) b tbl n = open_hole p m b tbl n" for b n
    by (simp add: open_hole_def)
  then show ?thesis by (simp add: next_hole_def block_of_def)
qed

lemma next_hole_sel:
  "next_hole p m cs = Inr (Some hole) \<Longrightarrow> ml_block (fst hole) = ml_block m \<and> ml_space_start (fst hole) = ml_space_start m"
  by (auto simp: next_hole_def open_hole_def bind_res_def Let_def split: option.splits sum.splits if_splits)

definition free_bytes :: "'q world \<Rightarrow> nat set" where
  "free_bytes w = {x. (x - addr_nat (sp_start (wd_space w))) div 256 < length (wd_cells w) \<and>
     wd_cells w ! ((x - addr_nat (sp_start (wd_space w))) div 256) = Free}"

abbreviation hole :: "mutator_local \<Rightarrow> nat set" where
  "hole m \<equiv> {addr_nat (ml_cursor m) ..< addr_nat (ml_limit m)}"

definition hole_ok :: "'q world \<Rightarrow> mutator_local \<Rightarrow> bool" where
  "hole_ok w m \<longleftrightarrow> ml_cursor m \<le> ml_limit m \<and> ml_limit m \<le> sp_end (wd_space w) \<and>
     (\<forall>x\<in>hole m. addr_nat (sp_start (wd_space w)) \<le> x \<and>
        (x - addr_nat (sp_start (wd_space w))) div 256 < length (wd_cells w) \<and>
        wd_cells w ! ((x - addr_nat (sp_start (wd_space w))) div 256) = FreshAlloc)"

lemma mut_ok_hole_ok:
  assumes tb: "tables_ok (wd_space w)" and m: "mut_ok (wd_space w) m"
  shows "hole_ok w m"
proof (cases "ml_block m")
  case None
  then show ?thesis using m by (simp add: hole_ok_def mut_ok_def null_address_def address_le_iff)
next
  case (Some b)
  have b: "block_wf (wd_space w) b" "ml_line m \<le> 256"
    "addr_nat (ml_limit m) = addr_nat (ib_start b) + 256 * ml_line m" "ib_start b \<le> ml_cursor m"
    "ml_cursor m \<le> ml_limit m"
    "\<forall>k<ml_line m. addr_nat (ml_cursor m) - addr_nat (ib_start b) < 256 * Suc k \<longrightarrow>
       slice_line (ib_lines b) (wd_cells w) k = FreshAlloc"
    using m Some by (simp_all add: mut_ok_def)
  have sl: "sl_ptr (ib_lines b) + 256 \<le> length (wd_cells w)"
    using block_wf_slice_ok [OF tb b(1)] b(1) by (simp add: slice_ok_def block_wf_def)
  have "addr_nat (sp_start (wd_space w)) \<le> x \<and> (x - addr_nat (sp_start (wd_space w))) div 256 < length (wd_cells w) \<and>
      wd_cells w ! ((x - addr_nat (sp_start (wd_space w))) div 256) = FreshAlloc" if x: "x \<in> hole m" for x
  proof -
    define d where "d = x - addr_nat (ib_start b)"
    have d: "x = addr_nat (ib_start b) + d" "d < ml_line m * 256" "addr_nat (ml_cursor m) - addr_nat (ib_start b) \<le> d"
      using x b(3) b(4) [unfolded address_le_iff] unfolding d_def atLeastLessThan_iff by linarith+
    then have "d div 256 < ml_line m" using less_mult_imp_div_less by blast
    moreover have "addr_nat (ml_cursor m) - addr_nat (ib_start b) < 256 * Suc (d div 256)" using d(3) by simp
    ultimately show ?thesis
      using b(2,6) sl byte_line [OF tb b(1), of d] block_start_nat(1) [OF tb b(1)] d(1) by simp
  qed
  then show ?thesis
    using b(2,3,5) block_start_nat(2) [OF tb b(1)] by (simp add: hole_ok_def address_le_iff)
qed

section \<open>What the operations of a mutator do to the heap\<close>

text \<open>Nothing retained is released, only free lines are claimed, and the new hole lies in the
  old one or in lines that were free.\<close>

definition op_good :: "('q \<Rightarrow> immix_block list) \<Rightarrow> immix_block list \<Rightarrow> mutator_local \<Rightarrow> 'q world \<Rightarrow> mutator_local \<Rightarrow> 'q world \<Rightarrow> bool" where
  "op_good c others m w m' w' \<longleftrightarrow> space_ok c (held_by m' @ others) (wd_space w') \<and>
     ml_space_start m' = ml_space_start m \<and> heap_frame w w' \<and> only_claims (wd_cells w) (wd_cells w') \<and>
     (hole_ok w m \<longrightarrow> user_space (wd_space w) \<longrightarrow> hole_ok w' m' \<and> hole m' \<subseteq> hole m \<union> free_bytes w)"

lemma op_good_world:
  assumes "space_ok c (held_by m @ others) (wd_space w')" and "heap_frame w w'" and "wd_cells w' = wd_cells w"
  shows "op_good c others m w m w'"
  using assms by (simp add: op_good_def hole_ok_def heap_frame_def)

lemma bump_in_hole:
  assumes ly: "layout_ok ly" and b: "bump p m ly = Inr (a, e)" "e \<le> ml_limit m"
    and ok: "hole_ok w m" "user_space (wd_space w)"
  shows "{addr_nat a ..< addr_nat a + unat (ly_size ly)} \<subseteq> hole m" and "addr_nat e = addr_nat a + unat (ly_size ly)"
    and "ml_cursor m \<le> a"
proof -
  from ly obtain k where k: "k < 64" "ly_align ly = 2 ^ k" "unat (ly_size ly) + unat (ly_align ly) \<le> 2 ^ 63"
    by (auto simp: layout_ok_def)
  have "addr_nat (ml_cursor m) < 2 ^ 63" using ok by (simp add: hole_ok_def user_space_def address_le_iff)
  from bump_ok [OF k(2,1,3) this, of p] b(1) show
    "addr_nat e = addr_nat a + unat (ly_size ly)" "ml_cursor m \<le> a"
    by (auto simp: address_le_iff)
  then show "{addr_nat a ..< addr_nat a + unat (ly_size ly)} \<subseteq> hole m"
    using b(2) by (auto simp: address_le_iff)
qed

lemma bump_good:
  assumes ok: "space_ok c (held_by m @ others) (wd_space w)"
    and ly: "layout_ok ly" and b: "bump p m ly = Inr r" "snd r \<le> ml_limit m"
  shows "op_good c others m w (m\<lparr>ml_cursor := snd r\<rparr>) w"
proof -
  have "hole_ok w (m\<lparr>ml_cursor := snd r\<rparr>) \<and> hole (m\<lparr>ml_cursor := snd r\<rparr>) \<subseteq> hole m"
    if "hole_ok w m" "user_space (wd_space w)"
  proof -
    have "bump p m ly = Inr (fst r, snd r)" using b(1) by simp
    note bh = bump_in_hole [OF ly this b(2) that]
    then have "ml_cursor m \<le> snd r" by (simp add: address_le_iff)
    then show ?thesis using that(1) b(2) by (auto simp: hole_ok_def address_le_iff)
  qed
  then show ?thesis using ok by (auto simp: op_good_def held_by_def)
qed

lemma hole_good:
  assumes ok: "space_ok c (held_by m @ others) (wd_space w)" and st: "ml_space_start m = sp_start (wd_space w)"
    and run: "next_hole p m (wd_cells w) = Inr (Some (m', tbl'))"
  shows "op_good c others m w m' (with_cells w tbl')"
proof -
  have line: "ml_line m < 256" using run by (auto simp: next_hole_def LINES_IN_BLOCK_def split: if_splits)
  then obtain b where b: "ml_block m = Some b"
    using run by (cases "ml_block m") (auto simp: next_hole_def block_of_def LINES_IN_BLOCK_def)
  have tb: "tables_ok (wd_space w)" and wf: "block_wf (wd_space w) b"
    using ok b by (simp_all add: space_ok_def all_blocks_def held_by_def)
  obtain x where x: "addr_nat x = addr_nat (ib_start b) + 256 * ml_line m"
    using block_line_addr [OF tb wf, of "ml_line m" p] line by auto
  let ?m = "m\<lparr>ml_cursor := x, ml_limit := x\<rparr>"
  have "mut_ok (wd_space w) ?m"
    using st b wf line x by (auto simp: mut_ok_def address_le_iff)
  moreover have "pool_ok c ?m w" unfolding pool_ok_def using ok by (intro exI [of _ others]) (simp add: held_by_def)
  moreover have "next_hole p ?m (wd_cells w) = Inr (Some (m', tbl'))" using run by (simp add: next_hole_cursor)
  ultimately have n: "mut_ok (wd_space (with_cells w tbl')) m'" "heap_frame w (with_cells w tbl')"
    "only_claims (wd_cells w) tbl'" "hole m' \<subseteq> free_bytes w"
    using next_hole_ok [of c ?m w p] by (auto simp: free_bytes_def)
  have sel: "ml_block m' = ml_block m" "ml_space_start m' = ml_space_start m" using next_hole_sel [OF run] by simp_all
  have len: "length tbl' = length (wd_cells w)" using n(3) by (simp add: only_claims_def)
  have sp: "space_ok c (held_by m' @ others) (wd_space (with_cells w tbl'))"
    using ok sel(1) by (simp add: space_ok_with_cells [OF len] held_by_def)
  then have "hole_ok (with_cells w tbl') m'"
    using n(1) by (intro mut_ok_hole_ok) (simp_all add: space_ok_def)
  then show ?thesis using sp n sel(2) by (auto simp: op_good_def)
qed

lemma mutator_op_good:
  assumes laws: "injector_laws I c r" and ok: "space_ok c (held_by m @ others) (wd_space w)"
    and st: "ml_space_start m = sp_start (wd_space w)" and op: "mutator_op p I m w m' w'"
  shows "op_good c others m w m' w'"
  using op
proof cases
  case (bump ly r)
  show ?thesis using bump_good [OF ok bump(3,4,5)] bump(1,2) by simp
next
  case (hole h)
  show ?thesis using hole_good [OF ok st, of p "fst h" "snd h"] hole by simp
next
  case give_back
  from return_block_space [OF laws ok this] show ?thesis
    by (auto simp: op_good_def hole_ok_def heap_frame_def)
next
  case (fetch b)
  have "space_ok c others (wd_space w)" using ok fetch(2) by (simp add: held_by_def)
  note f = fetch_block_space [OF laws this fetch(3)]
  then have sp: "space_ok c (b # others) (wd_space w')" by simp
  then have wf: "tables_ok (wd_space w')" "block_wf (wd_space w') b" by (simp_all add: space_ok_def all_blocks_def)
  have "mut_ok (wd_space w') (take_block m b)" using mut_ok_take_block [of m "wd_space w'" b] wf st f by (simp add: heap_frame_def)
  note h = mut_ok_hole_ok [OF wf(1) this]
  show ?thesis using sp f h fetch(1) by (simp add: op_good_def held_by_def take_block_def)
next
  case fetch_none
  have "space_ok c (held_by m @ others) (wd_space w') \<and> heap_frame w w' \<and> wd_cells w' = wd_cells w"
    using fetch_block_space [OF laws ok fetch_none(2)] by simp
  then show ?thesis using op_good_world fetch_none(1) by blast
next
  case (init addr encode)
  then show ?thesis using init_object_space [OF init(2) ok] op_good_world by blast
qed (auto intro!: op_good_world simp: ok heap_frame_def)

section \<open>Blocks stay accounted for\<close>

lemma own_inv_space:
  assumes "own_inv c s" and "i \<in> arena s"
  shows "space_ok c (held_by (st_local s i) @ held_beside s i) (wd_space (st_world s))"
  using assms space_ok_mset [OF held_split [OF assms(2)]] unfolding own_inv_def by blast

lemma own_inv_distinct: "own_inv c s \<Longrightarrow> distinct (rg_arena (wd_registry (st_world s)))"
  by (simp add: own_inv_def distinct_map)

text \<open>One rule for the steps that keep the registered mutators.\<close>

lemma own_inv_move:
  assumes inv: "own_inv c s" and i: "i \<in> arena s"
    and arena: "rg_arena (wd_registry (st_world s')) = rg_arena (wd_registry (st_world s))"
    and others: "\<And>j. j \<noteq> i \<Longrightarrow> st_local s' j = st_local s j"
      "\<And>j. j \<noteq> i \<Longrightarrow> handed_in (st_pc s' j) \<Longrightarrow> handed_in (st_pc s j)"
    and own: "ml_id (st_local s' i) = i" "ml_space_start (st_local s' i) = ml_space_start (st_local s i)"
      "handed_in (st_pc s' i) \<Longrightarrow> ml_block (st_local s' i) = None"
    and start: "sp_start (wd_space (st_world s')) = sp_start (wd_space (st_world s))"
    and sp: "space_ok c (held_by (st_local s' i) @ held_beside s i) (wd_space (st_world s'))"
  shows "own_inv c s'"
proof -
  have "distinct (map fst (rg_arena (wd_registry (st_world s))))" using inv by (simp add: own_inv_def)
  from held_beside_same [OF this arena others(1)] sp
  have "space_ok c (held_by (st_local s' i) @ held_beside s' i) (wd_space (st_world s'))" by simp
  then have "space_ok c (held_blocks s') (wd_space (st_world s'))"
    using space_ok_mset [OF held_split [of i s'], of c] i arena by simp
  moreover have "ml_id (st_local s' j) = j \<and> ml_space_start (st_local s' j) = sp_start (wd_space (st_world s')) \<and>
      (handed_in (st_pc s' j) \<longrightarrow> ml_block (st_local s' j) = None)" if "j \<in> arena s" for j
    using that inv own i start others [of j] unfolding own_inv_def by (cases "j = i") auto
  ultimately show ?thesis using inv arena unfolding own_inv_def by simp
qed

text \<open>Steps of the barrier that touch neither blocks nor lines.\<close>

lemma own_inv_quiet:
  assumes inv: "own_inv c s" and i: "i \<in> arena s"
    and "rg_arena (wd_registry (st_world s')) = rg_arena (wd_registry (st_world s))"
    and "wd_space (st_world s') = wd_space (st_world s)"
    and "st_local s' = st_local s \<or> st_local s' = (st_local s)(i := reset (st_local s i)) \<and> handed_in (st_pc s i)"
    and "\<And>j. handed_in (st_pc s' j) \<Longrightarrow> handed_in (st_pc s j)"
  shows "own_inv c s'"
proof -
  note sp = own_inv_space [OF inv i]
  have id: "ml_id (st_local s i) = i" "handed_in (st_pc s i) \<Longrightarrow> ml_block (st_local s i) = None"
    using inv i unfolding own_inv_def by blast+
  show ?thesis
    using assms(5) by (elim disjE conjE; intro own_inv_move [OF inv i assms(3)])
      (use assms(4,6) sp id in \<open>simp_all add: held_by_def\<close>)
qed

lemma own_inv_step:
  assumes laws: "injector_laws I c r" and inv: "own_inv c s" and i: "i \<in> arena s" and st: "bstep p I i s s'"
  shows "own_inv c s'"
proof -
  note sp = own_inv_space [OF inv i]
  have id: "ml_id (st_local s i) = i" "ml_space_start (st_local s i) = sp_start (wd_space (st_world s))"
    using inv i unfolding own_inv_def by blast+
  from st show ?thesis
  proof cases
    case (work m' w')
    note op = mutator_op_good [OF laws sp id(2) work(3)] and fr = mutator_op_barrier [OF work(3)]
    show ?thesis
      using op fr id work(2) unfolding work(1)
      by (intro own_inv_move [OF inv i]) (auto simp: op_good_def heap_frame_def barrier_frame_def)
  next
    case (prepare seen m' w')
    have rb: "return_block I (st_local s i) (st_world s) = (m', w')" using prepare(3) by (simp add: prepare_for_gc_def)
    note op = return_block_space [OF laws sp rb] and fr = return_block_barrier [OF rb]
    show ?thesis
      using op fr id unfolding prepare(1)
      by (intro own_inv_move [OF inv i]) (auto simp: heap_frame_def)
  next
    case (collect sched w')
    show ?thesis
      using gc_frame [OF laws sp collect(3)] gc_barrier [OF collect(3)] id inv i collect(2) unfolding collect(1)
      by (intro own_inv_move [OF inv i]) (auto simp: heap_frame_def own_inv_def)
  next
    case (leave m' w')
    obtain m1 w1 where rb: "return_block I (st_local s i) (st_world s) = (m1, w1)"
      by (cases "return_block I (st_local s i) (st_world s)")
    note op = return_block_space [OF laws sp rb] and fr = return_block_barrier [OF rb]
    have w': "m' = m1" "w' = w1\<lparr>wd_registry := unregister (wd_registry (st_world s)) i\<rparr>"
      using leave(3) rb fr id(1) by (simp_all add: destroy_def)
    have d: "distinct (rg_arena (wd_registry (st_world s)))" by (rule own_inv_distinct [OF inv])
    have re: "rg_arena (wd_registry (st_world s')) = remove1 i (rg_arena (wd_registry (st_world s)))"
      unfolding leave(1) w' by (simp add: unregister_def distinct_remove1_removeAll [OF d])
    then have "held_blocks s' = held_beside s i"
      unfolding held_blocks_def held_beside_def re using d
      by (intro arg_cong [where f = concat] map_cong) (auto simp: leave(1))
    then have "space_ok c (held_blocks s') (wd_space (st_world s'))"
      using op fr by (simp add: leave(1) w' held_by_def)
    moreover have "distinct (map fst (rg_arena (wd_registry (st_world s'))))"
      using inv unfolding re own_inv_def distinct_map by (auto dest: notin_set_remove1 intro: inj_on_subset set_remove1_subset)
    moreover have "ml_id (st_local s' j) = j \<and> ml_space_start (st_local s' j) = sp_start (wd_space (st_world s')) \<and>
        (handed_in (st_pc s' j) \<longrightarrow> ml_block (st_local s' j) = None)" if j: "j \<in> arena s'" for j
    proof -
      have "j \<in> arena s" "j \<noteq> i" using j d unfolding re by auto
      then show ?thesis using inv op unfolding own_inv_def by (simp add: leave(1) w' heap_frame_def)
    qed
    ultimately show ?thesis unfolding own_inv_def by blast
  qed (intro own_inv_quiet [OF inv i]; use id in \<open>auto split: option.splits if_splits\<close>)+
qed

lemma own_inv_open:
  assumes laws: "injector_laws I c r" and inv: "own_inv c s" and st: "open_step p I s s'"
  shows "own_inv c s'"
  using st
proof cases
  case (move i)
  then show ?thesis using own_inv_step [OF laws inv] by blast
next
  case (create idx m' w')
  have new: "idx \<notin> arena s" "fst idx \<notin> fst ` arena s" using create(2) by (auto simp: fresh_index_def)
  have re: "rg_arena (wd_registry (st_world s')) = rg_arena (wd_registry (st_world s)) @ [idx]"
    "wd_space (st_world s') = wd_space (st_world s)" "st_local s' idx = m'" "ml_block m' = None"
    "ml_id m' = idx" "ml_space_start m' = sp_start (wd_space (st_world s))" "st_pc s' idx = Running"
    and old: "\<And>j. j \<noteq> idx \<Longrightarrow> st_local s' j = st_local s j \<and> st_pc s' j = st_pc s j"
    using create(3) unfolding create(1) by (auto simp: mutator_new_def register_def)
  have "held_by (st_local s' j) = held_by (st_local s j)" if "j \<in> arena s" for j
    using old [of j] that new(1) by (cases "j = idx") simp_all
  then have "held_blocks s' = held_blocks s"
    using re(3,4) by (simp add: held_blocks_def re(1) held_by_def cong: map_cong)
  moreover have "ml_id (st_local s' j) = j \<and> ml_space_start (st_local s' j) = sp_start (wd_space (st_world s')) \<and>
      (handed_in (st_pc s' j) \<longrightarrow> ml_block (st_local s' j) = None)" if "j \<in> arena s'" for j
    using that inv re old [of j] unfolding own_inv_def by (cases "j = idx") auto
  ultimately show ?thesis using inv new(2) unfolding own_inv_def re(1,2) by simp
qed

lemma own_inv_start:
  assumes "fresh_start c s"
  shows "own_inv c s"
proof -
  have "held_blocks s = []"
    using assms by (simp add: held_blocks_def fresh_start_def mutator_new_def held_by_def)
  then show ?thesis
    using assms by (simp add: fresh_start_def stw_start_def own_inv_def registry_ok_def mutator_new_def)
qed

lemma own_inv_run:
  assumes "injector_laws I c r" and "own_inv c s" and "open_run p I s s'"
  shows "own_inv c s'"
  using assms(3,2) by induction (auto intro: own_inv_open [OF assms(1)])

section \<open>What is still to be given out\<close>

fun active :: "barrier_pc \<Rightarrow> bool" where
  "active Running = True" | "active (Preparing _) = True" | "active _ = False"

text \<open>The bytes that are left: those of free lines, and those in the holes of the mutators that
  may go on allocating. No two of them share a hole.\<close>

definition left_over :: "'q stw \<Rightarrow> nat set" where
  "left_over s = free_bytes (st_world s) \<union> (\<Union>i\<in>{i\<in>arena s. active (st_pc s i)}. hole (st_local s i))"

definition hole_inv :: "'q stw \<Rightarrow> bool" where
  "hole_inv s \<longleftrightarrow> user_space (wd_space (st_world s)) \<and>
     (\<forall>i\<in>arena s. active (st_pc s i) \<longrightarrow> hole_ok (st_world s) (st_local s i)) \<and>
     (\<forall>i\<in>arena s. \<forall>j\<in>arena s. i \<noteq> j \<longrightarrow> active (st_pc s i) \<longrightarrow> active (st_pc s j) \<longrightarrow>
        hole (st_local s i) \<inter> hole (st_local s j) = {}) \<and>
     (\<forall>i\<in>arena s. st_pc s i = Reopening \<longrightarrow>
        ml_cursor (st_local s i) = null_address \<and> ml_limit (st_local s i) = null_address)"

lemma free_bytes_mono:
  "only_claims (wd_cells w) (wd_cells w') \<Longrightarrow> heap_frame w w' \<Longrightarrow> free_bytes w' \<subseteq> free_bytes w"
  by (auto simp: free_bytes_def only_claims_def heap_frame_def)

lemma hole_ok_mono:
  "only_claims (wd_cells w) (wd_cells w') \<Longrightarrow> heap_frame w w' \<Longrightarrow> hole_ok w m \<Longrightarrow> hole_ok w' m"
  by (auto simp: hole_ok_def only_claims_def heap_frame_def)

lemma hole_not_free: "hole_ok w m \<Longrightarrow> hole m \<inter> free_bytes w = {}"
  by (auto simp: hole_ok_def free_bytes_def)

lemma empty_hole: "ml_cursor m = null_address \<Longrightarrow> ml_limit m = null_address \<Longrightarrow> hole_ok w m \<and> hole m = {}"
  by (simp add: hole_ok_def null_address_def address_le_iff)

text \<open>In a step only the mover's hole may grow, and only into free lines.\<close>

definition holes_from :: "index \<Rightarrow> 'q stw \<Rightarrow> 'q stw \<Rightarrow> bool" where
  "holes_from i s s' \<longleftrightarrow> arena s' \<subseteq> arena s \<and>
     only_claims (wd_cells (st_world s)) (wd_cells (st_world s')) \<and> heap_frame (st_world s) (st_world s') \<and>
     (\<forall>j\<in>arena s'. active (st_pc s' j) \<longrightarrow> j \<noteq> i \<longrightarrow> active (st_pc s j) \<and> st_local s' j = st_local s j) \<and>
     (i \<in> arena s' \<longrightarrow> active (st_pc s' i) \<longrightarrow> hole_ok (st_world s') (st_local s' i) \<and>
        (active (st_pc s i) \<and> hole (st_local s' i) \<subseteq> hole (st_local s i) \<union> free_bytes (st_world s) \<or>
         hole (st_local s' i) = {})) \<and>
     (\<forall>j\<in>arena s'. st_pc s' j = Reopening \<longrightarrow> ml_cursor (st_local s' j) = null_address \<and> ml_limit (st_local s' j) = null_address)"

lemma holes_from_left:
  assumes "holes_from i s s'"
  shows "left_over s' \<subseteq> left_over s"
proof
  fix x assume "x \<in> left_over s'"
  then consider "x \<in> free_bytes (st_world s')"
    | j where "j \<in> arena s'" "active (st_pc s' j)" "x \<in> hole (st_local s' j)"
    unfolding left_over_def by blast
  then show "x \<in> left_over s"
  proof cases
    case 1
    then show ?thesis using assms free_bytes_mono unfolding holes_from_def left_over_def by blast
  next
    case 2
    have "active (st_pc s j) \<and> (x \<in> hole (st_local s j) \<or> x \<in> free_bytes (st_world s))"
    proof (cases "j = i")
      case True
      then show ?thesis using 2 assms unfolding holes_from_def by blast
    next
      case False
      then have "active (st_pc s j)" "st_local s' j = st_local s j" using 2 assms unfolding holes_from_def by blast+
      then show ?thesis using 2(3) by simp
    qed
    moreover have "j \<in> arena s" using 2 assms unfolding holes_from_def by blast
    ultimately show ?thesis unfolding left_over_def by blast
  qed
qed

lemma holes_from_inv:
  assumes inv: "hole_inv s" and fr: "holes_from i s s'"
  shows "hole_inv s'"
proof -
  have mono: "only_claims (wd_cells (st_world s)) (wd_cells (st_world s'))" "heap_frame (st_world s) (st_world s')"
    and sub: "arena s' \<subseteq> arena s" using fr by (simp_all add: holes_from_def)
  have other: "active (st_pc s j) \<and> st_local s' j = st_local s j \<and> j \<in> arena s \<and> hole_ok (st_world s) (st_local s j)"
    if "j \<in> arena s'" "active (st_pc s' j)" "j \<noteq> i" for j
    using that fr sub inv unfolding holes_from_def hole_inv_def by blast
  have ok: "hole_ok (st_world s') (st_local s' j)" if j: "j \<in> arena s'" "active (st_pc s' j)" for j
  proof (cases "j = i")
    case True
    then show ?thesis using j fr unfolding holes_from_def by blast
  next
    case False
    then show ?thesis using other [OF j False] hole_ok_mono [OF mono] by simp
  qed
  have mine: "hole (st_local s' i) \<inter> hole (st_local s' j) = {}"
    if i: "i \<in> arena s'" "active (st_pc s' i)" and j: "j \<in> arena s'" "active (st_pc s' j)" "j \<noteq> i" for j
  proof -
    note o = other [OF j]
    then have free: "hole (st_local s j) \<inter> free_bytes (st_world s) = {}" using hole_not_free by blast
    have old: "hole (st_local s i) \<inter> hole (st_local s j) = {}" if "active (st_pc s i)"
      using inv that o i(1) sub j(3) unfolding hole_inv_def by blast
    consider "active (st_pc s i)" "hole (st_local s' i) \<subseteq> hole (st_local s i) \<union> free_bytes (st_world s)"
      | "hole (st_local s' i) = {}" using i fr unfolding holes_from_def by blast
    then show ?thesis
    proof cases
      case 1
      then have "hole (st_local s' i) \<inter> hole (st_local s j) = {}" using free old by blast
      then show ?thesis using o by simp
    qed blast
  qed
  have "hole (st_local s' j) \<inter> hole (st_local s' k) = {}"
    if "j \<in> arena s'" "k \<in> arena s'" "j \<noteq> k" "active (st_pc s' j)" "active (st_pc s' k)" for j k
  proof -
    consider "j = i" | "k = i" | "j \<noteq> i" "k \<noteq> i" by blast
    then show ?thesis
    proof cases
      case 3
      have "hole (st_local s j) \<inter> hole (st_local s k) = {}"
        using inv other [of j] other [of k] that 3 unfolding hole_inv_def by blast
      then show ?thesis using other [of j] other [of k] that 3 by simp
    qed (use mine that in blast)+
  qed
  moreover have "user_space (wd_space (st_world s'))"
    using inv user_space_frame [OF mono(2)] unfolding hole_inv_def by blast
  moreover have "ml_cursor (st_local s' j) = null_address \<and> ml_limit (st_local s' j) = null_address"
    if "j \<in> arena s'" "st_pc s' j = Reopening" for j using fr that unfolding holes_from_def by blast
  ultimately show ?thesis using ok unfolding hole_inv_def by blast
qed

lemma hole_inv_start:
  assumes "fresh_start c s"
  shows "hole_inv s"
proof -
  have new: "ml_cursor (st_local s i) = null_address" "ml_limit (st_local s i) = null_address" if "i \<in> arena s" for i
    using assms that by (simp_all add: fresh_start_def mutator_new_def)
  have e: "hole_ok (st_world s) (st_local s i)" "hole (st_local s i) = {}" if "i \<in> arena s" for i
    using empty_hole [OF new [OF that]] by blast+
  have "hole (st_local s i) \<inter> hole (st_local s j) = {}" if "i \<in> arena s" for i j
    using e(2) [OF that] by blast
  then show ?thesis using assms new e(1) unfolding hole_inv_def fresh_start_def by blast
qed

lemma holes_from_quiet:
  assumes inv: "hole_inv s" and i: "i \<in> arena s"
    and "arena s' \<subseteq> arena s" and "wd_space (st_world s') = wd_space (st_world s)"
    and "st_local s' = st_local s \<or> st_local s' = (st_local s)(i := reset (st_local s i))"
    and "\<And>j. active (st_pc s' j) \<Longrightarrow> active (st_pc s j) \<or> j = i \<and> (st_local s' i = reset (st_local s i) \<or> st_pc s i = Reopening)"
    and "\<And>j. st_pc s' j = Reopening \<Longrightarrow> st_pc s j = Reopening \<or> j = i \<and> st_local s' i = reset (st_local s i)"
  shows "holes_from i s s'"
proof -
  have cells: "heap_frame (st_world s) (st_world s')" "only_claims (wd_cells (st_world s)) (wd_cells (st_world s'))"
    using assms(4) by (simp_all add: heap_frame_def)
  have r: "ml_cursor (reset m) = null_address \<and> ml_limit (reset m) = null_address" for m by (simp add: reset_def)
  have null: "ml_cursor (st_local s' j) = null_address \<and> ml_limit (st_local s' j) = null_address"
    if j: "j \<in> arena s'" "st_pc s j = Reopening \<or> j = i \<and> st_local s' i = reset (st_local s i)" for j
    using j(2)
  proof (elim disjE conjE)
    assume "st_pc s j = Reopening"
    then have "ml_cursor (st_local s j) = null_address \<and> ml_limit (st_local s j) = null_address"
      using j(1) assms(3) inv unfolding hole_inv_def by blast
    then show ?thesis using assms(5) r [of "st_local s i"] by (auto simp: fun_upd_apply)
  qed (use r in metis)
  have mine: "hole_ok (st_world s') (st_local s' i) \<and> (active (st_pc s i) \<and>
      hole (st_local s' i) \<subseteq> hole (st_local s i) \<union> free_bytes (st_world s) \<or> hole (st_local s' i) = {})"
    if ai: "i \<in> arena s'" "active (st_pc s' i)"
  proof (cases "st_local s' i = reset (st_local s i) \<or> st_pc s i = Reopening")
    case True
    then show ?thesis using empty_hole null [OF ai(1)] by blast
  next
    case False
    then have same: "st_local s' i = st_local s i" "active (st_pc s i)" using assms(5) assms(6) [of i] ai(2) by auto
    then have "hole_ok (st_world s) (st_local s i)" using inv i unfolding hole_inv_def by blast
    then show ?thesis using hole_ok_mono [OF cells(2,1)] same by simp
  qed
  have "active (st_pc s j) \<and> st_local s' j = st_local s j" if "active (st_pc s' j)" "j \<noteq> i" for j
    using assms(5) assms(6) [of j] that by auto
  then show ?thesis
    using assms(3,7) cells null mine unfolding holes_from_def by blast
qed

lemma holes_from_step:
  assumes laws: "injector_laws I c r" and own: "own_inv c s" and inv: "hole_inv s" and i: "i \<in> arena s"
    and st: "bstep p I i s s'" and pc: "st_pc s i \<noteq> Collecting"
  shows "holes_from i s s'"
proof -
  note sp = own_inv_space [OF own i]
  have id: "ml_space_start (st_local s i) = sp_start (wd_space (st_world s))"
    using own i unfolding own_inv_def by blast
  have us: "user_space (wd_space (st_world s))" using inv unfolding hole_inv_def by blast
  from st show ?thesis
  proof cases
    case (work m' w')
    note op = mutator_op_good [OF laws sp id work(3)] and fr = mutator_op_barrier [OF work(3)]
    have "hole_ok (st_world s) (st_local s i)" using inv i work(2) unfolding hole_inv_def by simp
    then show ?thesis
      using op us fr inv work(2) unfolding work(1)
      by (auto simp: holes_from_def op_good_def barrier_frame_def hole_inv_def)
  next
    case (prepare seen m' w')
    have rb: "return_block I (st_local s i) (st_world s) = (m', w')" using prepare(3) by (simp add: prepare_for_gc_def)
    show ?thesis
      using return_block_space [OF laws sp rb] return_block_barrier [OF rb] inv unfolding prepare(1)
      by (auto simp: holes_from_def hole_inv_def)
  next
    case (leave m' w')
    obtain m1 w1 where rb: "return_block I (st_local s i) (st_world s) = (m1, w1)"
      by (cases "return_block I (st_local s i) (st_world s)")
    have w': "m' = m1" "wd_space w' = wd_space w1" "set (rg_arena (wd_registry w')) = arena s - {i}"
      using leave(3) rb return_block_barrier [OF rb] own i by (auto simp: destroy_def own_inv_def)
    show ?thesis
      using return_block_space [OF laws sp rb] inv unfolding leave(1)
      by (auto simp: holes_from_def hole_inv_def w' heap_frame_def)
  qed (use pc in simp; intro holes_from_quiet [OF inv i]; auto split: option.splits if_splits)+
qed

text \<open>A new mutator has no hole.\<close>

lemma creates_holes:
  assumes new: "creates idx s s'" and inv: "hole_inv s"
  shows "hole_inv s'" and "left_over s' = left_over s" and "heap_frame (st_world s) (st_world s')"
proof -
  have ar: "idx \<notin> arena s" "arena s' = insert idx (arena s)"
    and sp: "wd_space (st_world s') = wd_space (st_world s)"
    and m: "ml_cursor (st_local s' idx) = null_address" "ml_limit (st_local s' idx) = null_address" "st_pc s' idx = Running"
    and old: "\<And>j. j \<noteq> idx \<Longrightarrow> st_local s' j = st_local s j \<and> st_pc s' j = st_pc s j"
    using new by (auto simp: creates.simps mutator_new_def register_def fresh_index_def)
  show "heap_frame (st_world s) (st_world s')" using sp by (simp add: heap_frame_def)
  have ok: "hole_ok (st_world s') m' \<longleftrightarrow> hole_ok (st_world s) m'" for m' by (simp add: hole_ok_def sp)
  note e = empty_hole [OF m(1,2)]
  have at: "st_local s' j = st_local s j \<and> st_pc s' j = st_pc s j" if "j \<in> arena s" for j
    using old [of j] that ar(1) by (cases "j = idx") simp_all
  have "hole_ok (st_world s') (st_local s' j)" if "j \<in> arena s'" "active (st_pc s' j)" for j
  proof (cases "j = idx")
    case False
    then have "j \<in> arena s" using that(1) ar(2) by simp
    then show ?thesis using inv that(2) at [of j] unfolding ok hole_inv_def by metis
  next
    case True
    then show ?thesis using e by blast
  qed
  moreover have "hole (st_local s' i) \<inter> hole (st_local s' j) = {}"
    if "i \<in> arena s'" "j \<in> arena s'" "i \<noteq> j" "active (st_pc s' i)" "active (st_pc s' j)" for i j
  proof (cases "i = idx \<or> j = idx")
    case False
    then have "i \<in> arena s" "j \<in> arena s" using that(1,2) ar(2) by simp_all
    then show ?thesis using inv that(3-5) at unfolding hole_inv_def by metis
  next
    case True
    then show ?thesis using e by blast
  qed
  moreover have "ml_cursor (st_local s' i) = null_address \<and> ml_limit (st_local s' i) = null_address"
    if "i \<in> arena s'" "st_pc s' i = Reopening" for i
  proof (cases "i = idx")
    case False
    then have "i \<in> arena s" using that(1) ar(2) by simp
    then show ?thesis using inv that(2) at [of i] unfolding hole_inv_def by metis
  qed (use m in simp)
  ultimately show "hole_inv s'" using inv sp unfolding hole_inv_def by simp
  have "(\<Union>i\<in>{i\<in>arena s'. active (st_pc s' i)}. hole (st_local s' i)) =
      (\<Union>i\<in>{i\<in>arena s. active (st_pc s i)}. hole (st_local s i))"
    using e at unfolding ar(2) by auto
  then show "left_over s' = left_over s" by (simp add: left_over_def free_bytes_def sp)
qed

text \<open>When the controller collects nobody else is active, so nobody has a hole to lose.\<close>

lemma collect_inactive:
  assumes reach: "breach p I s" and i: "i \<in> arena s" "st_pc s i = Collecting" and st: "bstep p I i s s'"
  shows "arena s' = arena s" and "\<forall>j\<in>arena s'. \<not> active (st_pc s' j) \<and> st_pc s' j \<noteq> Reopening"
    and "wd_space (st_world s') = wd_space (st_world s) \<or> (\<exists>sched w'. gc p I sched (st_world s) = Some (Inr w') \<and> st_world s' = w')"
proof -
  have reg: "reg_inv s" using stw_inv_reach [OF reach] by (simp add: stw_inv_def)
  show ar: "arena s' = arena s" using arena_step [OF reg i(1) st] i(2) by auto
  have "st_pc s' j \<in> {Parked, Releasing} \<or> crashed (st_pc s' j)" if "j \<in> arena s" for j
  proof (cases "j = i")
    case True
    from st show ?thesis using i(2) unfolding True by cases auto
  next
    case False
    then have "st_pc s j = Parked" using world_stopped [OF reach i that] by blast
    then show ?thesis using bstep_others [OF st False] i(2) by simp
  qed
  moreover have "\<not> active pc \<and> pc \<noteq> Reopening" if "pc \<in> {Parked, Releasing} \<or> crashed pc" for pc
    using that by (cases pc) auto
  ultimately show "\<forall>j\<in>arena s'. \<not> active (st_pc s' j) \<and> st_pc s' j \<noteq> Reopening"
    unfolding ar by blast
  from st show "wd_space (st_world s') = wd_space (st_world s) \<or>
      (\<exists>sched w'. gc p I sched (st_world s) = Some (Inr w') \<and> st_world s' = w')"
    using i(2) by cases auto
qed

lemma step_frame:
  assumes laws: "injector_laws I c r" and own: "own_inv c s" and inv: "hole_inv s" and reach: "breach p I s"
    and i: "i \<in> arena s" and st: "bstep p I i s s'"
  shows "heap_frame (st_world s) (st_world s') \<and> hole_inv s'"
proof (cases "st_pc s i = Collecting")
  case False
  have "holes_from i s s'" by (rule holes_from_step [OF laws own inv i st False])
  then show ?thesis using holes_from_inv [OF inv] by (simp add: holes_from_def)
next
  case True
  note c = collect_inactive [OF reach i True st]
  from c(3) have fr: "heap_frame (st_world s) (st_world s')"
  proof (elim disjE exE conjE)
    fix sched w' assume "gc p I sched (st_world s) = Some (Inr w')" "st_world s' = w'"
    then show ?thesis using gc_frame(2) [OF laws own_inv_space [OF own i]] by simp
  qed (simp add: heap_frame_def)
  then have "user_space (wd_space (st_world s'))"
    using inv user_space_frame [OF fr] unfolding hole_inv_def by blast
  then show ?thesis using fr c(2) unfolding hole_inv_def by blast
qed

text \<open>The invariants along a run from a fresh start.\<close>

definition heap_inv :: "('q \<Rightarrow> immix_block list) \<Rightarrow> profile \<Rightarrow> 'q block_queue \<Rightarrow> 'q stw \<Rightarrow> bool" where
  "heap_inv c p I s \<longleftrightarrow> breach p I s \<and> own_inv c s \<and> hole_inv s"

lemma heap_inv_start: "fresh_start c s \<Longrightarrow> heap_inv c p I s"
  using own_inv_start hole_inv_start breach.start by (metis heap_inv_def fresh_start_def)

lemma heap_inv_step:
  assumes laws: "injector_laws I c r" and inv: "heap_inv c p I s" and st: "system_step p I s s'"
  shows "heap_inv c p I s' \<and> heap_frame (st_world s) (st_world s')"
proof -
  from st show ?thesis
  proof cases
    case (move i)
    have "breach p I s'" using inv move breach.step [of p I s i s'] by (simp add: heap_inv_def)
    then show ?thesis
      using own_inv_step [OF laws _ move] step_frame [OF laws _ _ _ move] inv by (simp add: heap_inv_def)
  next
    case (create idx)
    have "breach p I s'" using inv create breach.create by (simp add: heap_inv_def) blast
    then show ?thesis
      using own_inv_open [OF laws _ creates_open [OF create(2)]] creates_holes [OF create(2)] inv by (simp add: heap_inv_def)
  qed
qed

lemma heap_inv_run:
  assumes laws: "injector_laws I c r" and inv: "heap_inv c p I s" and run: "system_run p I s s'"
  shows "heap_inv c p I s' \<and> heap_frame (st_world s) (st_world s')"
  using run
proof induction
  case base
  then show ?case using inv by simp
next
  case (step t u)
  then show ?case using heap_inv_step [OF laws _ step(2)] heap_frame_trans by blast
qed

section \<open>What the collections have printed\<close>

text \<open>One report for each collection that has returned, in order. The blocks that a report counts
  make up the space in a debug build.\<close>

definition reported :: "profile \<Rightarrow> 'q world \<Rightarrow> bool" where
  "reported p w \<longleftrightarrow> (\<exists>rs. wd_gc_count w = of_nat (length rs) \<and>
     wd_printed w = concat (map (\<lambda>(free_lines, usable, full).
       sweep_report p (sp_total_blocks (wd_space w)) free_lines usable full) rs) \<and>
     (p = Debug \<longrightarrow> (\<forall>(free_lines, usable, full)\<in>set rs. usable + full = sp_total_blocks (wd_space w))))"

lemma reported_same:
  assumes "reported p w" and "gc_log w' = gc_log w" and "sp_total_blocks (wd_space w') = sp_total_blocks (wd_space w)"
  shows "reported p w'"
  using assms by (simp add: reported_def)

lemma gc_reported:
  assumes laws: "injector_laws I c r" and ok: "space_ok c held (wd_space w)" and run: "gc p I sched w = Some (Inr w')"
    and old: "reported p w"
  shows "reported p w'"
proof -
  from gc_stages [OF run] obtain sp1 sp2 printed where st:
    "start_trace p sched (wd_mem w) (wd_roots w) (wd_space w) = Some (Inr sp1)"
    "sweep p I sp1 = Some (Inr (sp2, printed))"
    "w' = w\<lparr>wd_gc_count := wd_gc_count w + 1, wd_roots := [],
       wd_space := sp2\<lparr>sp_trace_map := flip_mark_state (sp_trace_map sp2)\<rparr>,
       wd_printed := wd_printed w @ printed\<rparr>" .
  have tb: "tables_ok (wd_space w)" using ok by (simp add: space_ok_def)
  note s2 = sweep_result [OF laws space_ok_trace [OF ok st(1)] st(2)]
  have "sp1 = with_marks (wd_space w) (sp_trace_map sp1) (sp_line_mark_table sp1)" using start_trace_frame [OF tb st(1)] by blast
  then have t1: "sp_total_blocks sp1 = sp_total_blocks (wd_space w)" by (metis (full_types) immix_space.select_convs immix_space.surjective immix_space.update_convs)
  have "sp_total_blocks sp2 = sp_total_blocks sp1" by (subst s2(4)) simp
  with t1 have t2: "sp_total_blocks (wd_space w') = sp_total_blocks (wd_space w)" by (simp add: st(3))
  from old obtain rs where rs: "wd_gc_count w = of_nat (length rs)"
    "wd_printed w = concat (map (\<lambda>(free_lines, usable, full).
       sweep_report p (sp_total_blocks (wd_space w)) free_lines usable full) rs)"
    "p = Debug \<longrightarrow> (\<forall>(free_lines, usable, full)\<in>set rs. usable + full = sp_total_blocks (wd_space w))"
    unfolding reported_def by blast
  let ?r = "((\<Sum>b\<leftarrow>c (sp_used_blocks sp1). unmarked_lines (sp_cells sp1) b), length (freed_blocks c sp1), length (full_blocks c sp1))"
  show ?thesis
    unfolding reported_def t2
    using rs s2(6,7) t1 by (intro exI [of _ "rs @ [?r]"]) (auto simp: st(3) space_report_def)
qed

lemma mutator_op_log:
  assumes "mutator_op p I m w m' w'"
  shows "gc_log w' = gc_log w \<and> sp_total_blocks (wd_space w') = sp_total_blocks (wd_space w)"
  using assms
proof cases
  case (init addr encode)
  then show ?thesis by (auto simp: init_object_def Let_def split: if_splits)
qed (auto simp: with_cells_def return_block_def return_used_block_def fetch_block_def get_next_usable_block_def Let_def
    split: option.splits)

lemma bstep_log:
  assumes "bstep p I i s s'" and "st_pc s i \<noteq> Collecting"
  shows "gc_log (st_world s') = gc_log (st_world s) \<and>
    sp_total_blocks (wd_space (st_world s')) = sp_total_blocks (wd_space (st_world s))"
  using assms(1)
proof cases
  case (work m' w')
  then show ?thesis using mutator_op_log [OF work(3)] by simp
qed (use assms(2) in \<open>auto simp: destroy_def prepare_for_gc_def return_block_def return_used_block_def split: option.splits\<close>)

lemma open_run_reported:
  assumes laws: "injector_laws I c r" and own: "own_inv c s" and start: "reported p (st_world s)" and run: "open_run p I s s'"
  shows "reported p (st_world s')"
  using run
proof induction
  case (step t u)
  have own: "own_inv c t" by (rule own_inv_run [OF laws own step(1)])
  from step(2) show ?case
  proof cases
    case (move i)
    show ?thesis
    proof (cases "st_pc t i = Collecting")
      case False
      then show ?thesis using reported_same [OF step.IH] bstep_log [OF move(2)] by blast
    next
      case True
      from move(2) show ?thesis
      proof cases
        case (collect sched w')
        then show ?thesis using gc_reported [OF laws own_inv_space [OF own move(1)] _ step.IH] by simp
      qed (use True step.IH in simp_all)
    qed
  next
    case (create idx m' w')
    then show ?thesis by (intro reported_same [OF step.IH]) (auto simp: mutator_new_def)
  qed
qed (rule start)

section \<open>An allocation as a step\<close>

text \<open>Mutator \<open>i\<close> bumps its cursor over an object at \<open>a\<close>: the branch of \<open>alloc\<close> that returns.\<close>

definition allocates :: "profile \<Rightarrow> layout \<Rightarrow> index \<Rightarrow> 'q stw \<Rightarrow> address \<Rightarrow> 'q stw \<Rightarrow> bool" where
  "allocates p ly i s a s' \<longleftrightarrow> i \<in> arena s \<and> st_pc s i = Running \<and>
     (\<exists>e. bump p (st_local s i) ly = Inr (a, e) \<and> e \<le> ml_limit (st_local s i) \<and>
        s' = s\<lparr>st_world := st_world s, st_local := (st_local s)(i := (st_local s i)\<lparr>ml_cursor := e\<rparr>)\<rparr>)"

abbreviation object_bytes :: "layout \<Rightarrow> address \<Rightarrow> nat set" where
  "object_bytes ly a \<equiv> {addr_nat a ..< addr_nat a + unat (ly_size ly)}"

lemma allocates_step: "allocates p ly i s a s' \<Longrightarrow> layout_ok ly \<Longrightarrow> bstep p I i s s'"
  using bstep.work [OF _ mutator_op.bump] unfolding allocates_def by fastforce

lemma allocates_takes:
  assumes inv: "hole_inv s" and ly: "layout_ok ly" and al: "allocates p ly i s a s'"
  shows "object_bytes ly a \<subseteq> hole (st_local s i)" and "hole_ok (st_world s) (st_local s i)"
    and "object_bytes ly a \<subseteq> left_over s" and "object_bytes ly a \<inter> left_over s' = {}"
proof -
  from al obtain e where i: "i \<in> arena s" "st_pc s i = Running"
    and b: "bump p (st_local s i) ly = Inr (a, e)" "e \<le> ml_limit (st_local s i)"
    and s': "s' = s\<lparr>st_world := st_world s, st_local := (st_local s)(i := (st_local s i)\<lparr>ml_cursor := e\<rparr>)\<rparr>"
    unfolding allocates_def by blast
  have ok: "hole_ok (st_world s) (st_local s i)" "user_space (wd_space (st_world s))"
    using inv i unfolding hole_inv_def by auto
  note bh = bump_in_hole [OF ly b ok]
  show "object_bytes ly a \<subseteq> hole (st_local s i)" "hole_ok (st_world s) (st_local s i)" using bh ok by auto
  then show "object_bytes ly a \<subseteq> left_over s" using i unfolding left_over_def by auto
  have "object_bytes ly a \<inter> free_bytes (st_world s) = {}" using bh(1) hole_not_free [OF ok(1)] by blast
  moreover have "object_bytes ly a \<inter> hole (st_local s' j) = {}" if j: "j \<in> arena s" "active (st_pc s j)" for j
  proof (cases "j = i")
    case True
    then show ?thesis using bh(2) by (simp add: s')
  next
    case False
    then have "hole (st_local s i) \<inter> hole (st_local s j) = {}" using inv i j unfolding hole_inv_def by fastforce
    then show ?thesis using bh(1) False by (auto simp: s')
  qed
  moreover have "arena s' = arena s" "st_pc s' = st_pc s" "st_world s' = st_world s" by (simp_all add: s')
  ultimately show "object_bytes ly a \<inter> left_over s' = {}"
    unfolding left_over_def Int_Un_distrib Int_UN_distrib by (simp del: Int_atLeastLessThan)
qed

text \<open>Between collections what has been given out is gone.\<close>

inductive quiet_step :: "profile \<Rightarrow> 'q block_queue \<Rightarrow> 'q stw \<Rightarrow> 'q stw \<Rightarrow> bool" for p I where
  move: "i \<in> arena s \<Longrightarrow> st_pc s i \<noteq> Collecting \<Longrightarrow> bstep p I i s s' \<Longrightarrow> quiet_step p I s s'"
| create: "\<not> stopped s \<Longrightarrow> creates idx s s' \<Longrightarrow> quiet_step p I s s'"

abbreviation quiet_run :: "profile \<Rightarrow> 'q block_queue \<Rightarrow> 'q stw \<Rightarrow> 'q stw \<Rightarrow> bool" where
  "quiet_run p I \<equiv> (quiet_step p I)\<^sup>*\<^sup>*"

lemma quiet_run_left:
  assumes laws: "injector_laws I c r" and inv: "heap_inv c p I s" and run: "quiet_run p I s s'"
  shows "heap_inv c p I s' \<and> left_over s' \<subseteq> left_over s"
  using run
proof induction
  case base
  then show ?case using inv by simp
next
  case (step t u)
  have t: "heap_inv c p I t" "left_over t \<subseteq> left_over s" using step.IH by simp_all
  have "system_step p I t u \<and> left_over u \<subseteq> left_over t"
    using step(2)
  proof cases
    case (move i)
    have "holes_from i t u"
      using t(1) by (intro holes_from_step [OF laws _ _ move(1,3,2)]) (simp_all add: heap_inv_def)
    then show ?thesis using holes_from_left move system_step.move by blast
  next
    case (create idx)
    then show ?thesis using creates_holes(2) [OF create(2)] t(1) system_step.create by (fastforce simp: heap_inv_def)
  qed
  then show ?case using heap_inv_step [OF laws t(1)] t(2) by blast
qed

lemma objects_disjoint:
  assumes laws: "injector_laws I c r" and inv: "heap_inv c p I s"
    and ly: "layout_ok ly" "layout_ok ly'"
    and al: "allocates p ly i s a s1" and run: "quiet_run p I s1 s2" and al': "allocates p ly' j s2 b s3"
  shows "object_bytes ly a \<inter> object_bytes ly' b = {}"
proof -
  have hole: "hole_inv s" using inv by (simp add: heap_inv_def)
  have "i \<in> arena s" using al by (simp add: allocates_def)
  then have "system_step p I s s1" using allocates_step [OF al ly(1)] by (rule system_step.move)
  then have "heap_inv c p I s1" using heap_inv_step [OF laws inv] by blast
  from quiet_run_left [OF laws this run] have s2: "hole_inv s2" "left_over s2 \<subseteq> left_over s1" by (simp_all add: heap_inv_def)
  show ?thesis
    using allocates_takes(4) [OF hole ly(1) al] allocates_takes(3) [OF s2(1) ly(2) al'] s2(2) by blast
qed

text \<open>A line that has been retained is never given out again, whatever collections follow.\<close>

lemma retained_not_allocated:
  assumes laws: "injector_laws I c r" and inv: "heap_inv c p I s" and run: "system_run p I s t"
    and ly: "layout_ok ly" and al: "allocates p ly j t a t'"
    and y: "y \<in> object_bytes ly a" "(y - addr_nat (sp_start (wd_space (st_world s)))) div 256 < length (wd_cells (st_world s))"
  shows "\<not> retained (wd_cells (st_world s) ! ((y - addr_nat (sp_start (wd_space (st_world s)))) div 256))"
proof -
  have t: "hole_inv t" "heap_frame (st_world s) (st_world t)"
    using heap_inv_run [OF laws inv run] by (simp_all add: heap_inv_def)
  have "y \<in> hole (st_local t j)" using allocates_takes(1) [OF t(1) ly al] y(1) by blast
  then have "wd_cells (st_world t) ! ((y - addr_nat (sp_start (wd_space (st_world t)))) div 256) = FreshAlloc"
    using allocates_takes(2) [OF t(1) ly al] by (simp add: hole_ok_def)
  then show ?thesis using t(2) y(2) by (auto simp: heap_frame_def)
qed

section \<open>The allocator as a run\<close>

definition runs_to_alloc ::
  "profile \<Rightarrow> 'q block_queue \<Rightarrow> layout \<Rightarrow> index \<Rightarrow> 'q stw \<Rightarrow> address \<times> mutator_local \<times> 'q world \<Rightarrow> bool" where
  "runs_to_alloc p I ly i s x \<longleftrightarrow> (case x of (a, m', w') \<Rightarrow>
     \<exists>s1 s2. (bstep p I i)\<^sup>*\<^sup>* s s1 \<and> allocates p ly i s1 a s2 \<and> controls i Running m' w' s2)"

definition at_work :: "index \<Rightarrow> mutator_local \<Rightarrow> 'q world \<Rightarrow> 'q stw \<Rightarrow> bool" where
  "at_work i m w s \<longleftrightarrow> controls i Running m w s \<and> ml_id m = i \<and> i \<in> set (rg_arena (wd_registry w))"

lemma runs_to_alloc_step:
  assumes "(bstep p I i)\<^sup>*\<^sup>* s s'" and "runs_to_alloc p I ly i s' x"
  shows "runs_to_alloc p I ly i s x"
proof (cases x)
  case (fields a m' w')
  from assms(2) obtain s1 s2 where run: "(bstep p I i)\<^sup>*\<^sup>* s' s1"
    and al: "allocates p ly i s1 a s2" "controls i Running m' w' s2" by (auto simp: runs_to_alloc_def fields)
  have "(bstep p I i)\<^sup>*\<^sup>* s s1" using assms(1) run by (rule rtranclp_trans)
  then show ?thesis using al by (simp add: runs_to_alloc_def fields) blast
qed

lemma at_work_op:
  assumes w: "at_work i m w s" and op: "mutator_op p I m w m' w'"
  shows "\<exists>s'. (bstep p I i)\<^sup>*\<^sup>* s s' \<and> at_work i m' w' s'"
proof -
  let ?s = "s\<lparr>st_world := w', st_local := (st_local s)(i := m')\<rparr>"
  have "bstep p I i s ?s" using w op by (intro bstep.work) (simp_all add: at_work_def controls_def)
  moreover have "at_work i m' w' ?s"
    using w mutator_op_barrier [OF op] by (simp add: at_work_def controls_def barrier_frame_def)
  ultimately show ?thesis by blast
qed

lemma sync_barrier_sel:
  assumes "sync_barrier p I sched env m w = Some (Inr (m', w'))"
  shows "ml_block m' = None \<and> ml_id m' = ml_id m \<and> rg_arena (wd_registry w') = rg_arena (wd_registry w)"
proof -
  from sync_barrier_stages [OF assms] obtain m1 w1 w2 where
    e: "enter_barrier p I env m (w\<lparr>wd_controller := int (fst (ml_id m))\<rparr>) = Some (Inr (m1, w1))"
    and g: "gc p I sched w1 = Some (Inr w2)" "m' = reset m1" "w' = (resume_mutators w2)\<lparr>wd_stw_count := 0\<rparr>" by blast
  obtain m2 w3 where rb: "return_block I m (w\<lparr>wd_controller := int (fst (ml_id m))\<rparr>) = (m2, w3)"
    by (cases "return_block I m (w\<lparr>wd_controller := int (fst (ml_id m))\<rparr>)")
  have "m1 = m2" "wd_registry w1 = wd_registry w3"
    using e by (auto simp: enter_barrier_def prepare_for_gc_def rb)
  then show ?thesis
    using return_block_barrier [OF rb] gc_barrier [OF g(1)] g(2,3) by (simp add: resume_mutators_def)
qed

lemma at_work_yield:
  assumes w: "at_work i m w s" and y: "yieldpoint (sync_barrier p I sched env) m w = Some (Inr (m', w'))"
    and none: "ml_block m = None"
  shows "ml_block m' = None \<and> (\<exists>s'. (bstep p I i)\<^sup>*\<^sup>* s s' \<and> at_work i m' w' s')"
proof (cases "take_yield (rg_globals (wd_registry w) (ml_id m))")
  case False
  then show ?thesis using w y none by (auto simp: yieldpoint_def)
next
  case True
  have s: "st_pc s i = Running" "st_lock s = None" "ml_id (st_local s i) = i" "st_local s i = m" "st_world s = w"
    using w by (simp_all add: at_work_def controls_def)
  have b: "sync_barrier p I sched env m w = Some (Inr (m', w'))" using y True by (simp add: yieldpoint_def)
  have "take_yield (rg_globals (wd_registry (st_world s)) i)" using True s(3-5) by simp
  from sync_barrier_run [OF s(1-3) this, of p I sched env m' w'] b s(4,5) obtain s' where
    "(bstep p I i)\<^sup>*\<^sup>* s s'" "controls i Running m' w' s'" by blast
  then show ?thesis using sync_barrier_sel [OF b] w by (auto simp: at_work_def)
qed

text \<open>Every call of the allocator that returns an object is a run of its mutator, with the
  collections it waits for.\<close>

lemma alloc_run_if_try:
  assumes w: "at_work i m w s" and run: "alloc fuel p I slow ly m w = Some (Inr x)"
    and try_ok: "try_alloc_from_local fuel p I slow ly m w = Some (Inr x) \<Longrightarrow> runs_to_alloc p I ly i s x"
  shows "runs_to_alloc p I ly i s x"
proof -
  from run obtain a e where b: "bump p m ly = Inr (a, e)" by (cases "bump p m ly") (auto simp: alloc.simps)
  show ?thesis
  proof (cases "e \<le> ml_limit m")
    case True
    let ?s = "s\<lparr>st_world := st_world s, st_local := (st_local s)(i := (st_local s i)\<lparr>ml_cursor := e\<rparr>)\<rparr>"
    have s: "st_pc s i = Running" "st_local s i = m" "st_world s = w" "i \<in> arena s" "st_lock s = None"
      using w by (auto simp: at_work_def controls_def)
    have "allocates p ly i s a ?s" using b True s by (simp add: allocates_def)
    moreover have "controls i Running (m\<lparr>ml_cursor := e\<rparr>) w ?s" using s by (simp add: controls_def)
    moreover have "x = (a, m\<lparr>ml_cursor := e\<rparr>, w)" using run b True by (simp add: alloc.simps)
    ultimately show ?thesis unfolding runs_to_alloc_def by blast
  next
    case False
    then show ?thesis using run b try_ok by (simp add: alloc.simps)
  qed
qed

lemma calls_run:
  shows "(\<forall>m w s x. at_work i m w s \<longrightarrow> try_alloc_from_local fuel p I (sync_barrier p I sched env) ly m w = Some (Inr x) \<longrightarrow>
      runs_to_alloc p I ly i s x) \<and>
    (\<forall>m w s x. at_work i m w s \<longrightarrow> ml_block m = None \<longrightarrow>
      alloc_from_global_loop fuel p I (sync_barrier p I sched env) ly m w = Some (Inr x) \<longrightarrow> runs_to_alloc p I ly i s x)"
proof (induction fuel)
  case 0
  then show ?case by simp
next
  case (Suc fuel)
  let ?slow = "sync_barrier p I sched env"
  have alloc_ok: "runs_to_alloc p I ly i s x"
    if "at_work i m w s" "alloc fuel p I ?slow ly m w = Some (Inr x)" for m w s x
    using alloc_run_if_try [OF that] Suc that(1) by blast
  have "runs_to_alloc p I ly i s x"
    if w: "at_work i m w s" and run: "try_alloc_from_local (Suc fuel) p I ?slow ly m w = Some (Inr x)" for m w s x
  proof -
    from run obtain opt where nh: "next_hole p m (wd_cells w) = Inr opt" by (cases "next_hole p m (wd_cells w)") auto
    show ?thesis
    proof (cases opt)
      case (Some h)
      have op: "mutator_op p I m w (fst h) (with_cells w (snd h))" using nh Some by (intro mutator_op.hole) simp
      from at_work_op [OF w this] obtain s' where s': "(bstep p I i)\<^sup>*\<^sup>* s s'" "at_work i (fst h) (with_cells w (snd h)) s'"
        by blast
      have "alloc fuel p I ?slow ly (fst h) (with_cells w (snd h)) = Some (Inr x)" using run nh Some by simp
      from runs_to_alloc_step [OF s'(1) alloc_ok [OF s'(2) this]] show ?thesis .
    next
      case None
      obtain m1 w1 where rb: "return_block I m w = (m1, w1)" by (cases "return_block I m w")
      from at_work_op [OF w mutator_op.give_back [OF rb]] obtain s' where
        s': "(bstep p I i)\<^sup>*\<^sup>* s s'" "at_work i m1 w1 s'" by blast
      have "alloc_from_global_loop fuel p I ?slow ly m1 w1 = Some (Inr x)"
        using run nh None by (simp add: alloc_from_global.simps rb)
      then have "runs_to_alloc p I ly i s' x" using Suc s'(2) return_block_barrier [OF rb] by blast
      then show ?thesis by (rule runs_to_alloc_step [OF s'(1)])
    qed
  qed
  moreover have "runs_to_alloc p I ly i s x"
    if w: "at_work i m w s" "ml_block m = None"
      and run: "alloc_from_global_loop (Suc fuel) p I ?slow ly m w = Some (Inr x)" for m w s x
  proof -
    from run obtain m1 w1 where y: "yieldpoint ?slow m w = Some (Inr (m1, w1))" by auto
    from at_work_yield [OF w(1) y w(2)] obtain s1 where
      s1: "(bstep p I i)\<^sup>*\<^sup>* s s1" "at_work i m1 w1 s1" and none: "ml_block m1 = None" by blast
    from run y obtain ob w2 where f: "fetch_block I w1 = Some (ob, w2)" by auto
    show ?thesis
    proof (cases ob)
      case (Some b)
      from at_work_op [OF s1(2) mutator_op.fetch [OF none f [unfolded Some]]] obtain s2 where
        s2: "(bstep p I i)\<^sup>*\<^sup>* s1 s2" "at_work i (take_block m1 b) w2 s2" by blast
      have "alloc fuel p I ?slow ly (take_block m1 b) w2 = Some (Inr x)" using run y f Some by simp
      from runs_to_alloc_step [OF rtranclp_trans [OF s1(1) s2(1)] alloc_ok [OF s2(2) this]] show ?thesis .
    next
      case None
      from at_work_op [OF s1(2) mutator_op.fetch_none [OF f [unfolded None]]] obtain s2 where
        s2: "(bstep p I i)\<^sup>*\<^sup>* s1 s2" "at_work i m1 w2 s2" by blast
      have "alloc_from_global_loop fuel p I ?slow ly m1 w2 = Some (Inr x)" using run y f None by simp
      then have "runs_to_alloc p I ly i s2 x" using Suc s2(2) none by blast
      then show ?thesis by (rule runs_to_alloc_step [OF rtranclp_trans [OF s1(1) s2(1)]])
    qed
  qed
  ultimately show ?case by blast
qed

lemma alloc_run:
  assumes "at_work i m w s" and "alloc fuel p I (sync_barrier p I sched env) ly m w = Some (Inr x)"
  shows "runs_to_alloc p I ly i s x"
  using alloc_run_if_try [OF assms] calls_run assms(1) by blast

text \<open>A run of one mutator that is registered at the end is a run of the system.\<close>

lemma arena_shrinks: "bstep p I i s s' \<Longrightarrow> arena s' \<subseteq> arena s"
proof (induction rule: bstep.induct)
  case (work s m' w')
  then show ?case using mutator_op_barrier [OF work(2)] by (simp add: barrier_frame_def)
next
  case (leave s m' w')
  then show ?case using destroy_barrier [OF leave(2)] by auto
next
  case (prepare s seen m' w')
  then show ?case
    using return_block_barrier [of I "st_local s i" "st_world s" m' w'] by (simp add: prepare_for_gc_def)
next
  case (collect s sched w')
  then show ?case using gc_barrier [OF collect(2)] by simp
qed simp_all

lemma own_run_system:
  assumes "(bstep p I i)\<^sup>*\<^sup>* s s'" and "i \<in> arena s'"
  shows "i \<in> arena s \<and> system_run p I s s'"
  using assms
proof (induction rule: converse_rtranclp_induct)
  case base
  then show ?case by simp
next
  case (step t u)
  then have u: "i \<in> arena u" "system_run p I u s'" by blast+
  then have "i \<in> arena t" using arena_shrinks [OF step(1)] by blast
  moreover from this have "system_step p I t u" using step(1) by (rule system_step.move)
  ultimately show ?case using u(2) by (meson converse_rtranclp_into_rtranclp)
qed

section \<open>No block has two holders\<close>

lemma held_apart:
  assumes inv: "own_inv c s" and "i \<in> arena s" "j \<in> arena s" "i \<noteq> j"
    and b: "ml_block (st_local s i) = Some b" "ml_block (st_local s j) = Some b'"
  shows "ib_id b \<noteq> ib_id b'"
proof -
  have "j \<in> set (remove1 i (rg_arena (wd_registry (st_world s))))" using assms(3,4) by (simp add: in_set_remove1)
  then have "b' \<in> set (held_beside s i)" using b(2) by (force simp: held_beside_def held_by_def)
  moreover have "mset (map ib_id (all_blocks c (held_by (st_local s i) @ held_beside s i) (wd_space (st_world s)))) =
      mset [0..<sp_total_blocks (wd_space (st_world s))]"
    using own_inv_space [OF inv assms(2)] by (simp add: space_ok_def)
  then have "distinct (map ib_id (all_blocks c (held_by (st_local s i) @ held_beside s i) (wd_space (st_world s))))"
    by (metis mset_eq_imp_distinct_iff distinct_upt)
  ultimately show ?thesis using b(1) by (auto simp: all_blocks_def held_by_def)
qed

end
