(* ===== verification/Example_Shared.thy ===== *)
theory Example_Shared
  imports Example_Barrier Shared_Heap
begin

declare split_paired_All [simp del] split_paired_Ex [simp del]

text \<open>
  Two mutators that take a block each and allocate side by side, and a mutator that allocates
  after it has run a collection, step by step.
\<close>

section \<open>Two blocks for two mutators\<close>

definition ex_pair_space :: "immix_block list \<Rightarrow> line_mark list \<Rightarrow> (immix_block list \<times> nat) immix_space" where
  "ex_pair_space usable lines =
     \<lparr>sp_start = ex_start, sp_end = Address 655360,
      sp_alloc_map = \<lparr>am_start = ex_start, am_end = Address 655360, am_cells = replicate 16384 0, am_layout = 16384\<rparr>,
      sp_trace_map = \<lparr>tm_map = \<lparr>sm_offset = 524288, sm_addresses = replicate 16384 0\<rparr>, tm_mark_state = 0\<rparr>,
      sp_line_mark_table = \<lparr>lt_space_start = ex_start, lt_cells = lines, lt_len = 512\<rparr>,
      sp_total_blocks = 2, sp_mmap = (524288, 655360),
      sp_usable_blocks = (usable, 0), sp_used_blocks = ([], 0)\<rparr>"

abbreviation pair_block :: "nat \<Rightarrow> immix_block" where
  "pair_block k \<equiv> nth_block ex_start k"

lemma ex_pair_space_sel [simp]:
  "sp_start (ex_pair_space us ls) = ex_start" "sp_end (ex_pair_space us ls) = Address 655360"
  "sp_cells (ex_pair_space us ls) = ls" "sp_usable_blocks (ex_pair_space us ls) = (us, 0)"
  "sp_used_blocks (ex_pair_space us ls) = ([], 0)" "sp_total_blocks (ex_pair_space us ls) = 2"
  by (simp_all add: ex_pair_space_def)

lemma ex_pair_tables [simp]: "length ls = 512 \<Longrightarrow> tables_ok (ex_pair_space us ls)"
  by (simp add: tables_ok_def ex_pair_space_def table_ok_def address_le_iff)

lemma ex_pair_wf [simp]: "k < 2 \<Longrightarrow> block_wf (ex_pair_space us ls) (pair_block k)"
  by (simp add: block_wf_def)

lemma ex_pair_ok: "space_ok fst [] (ex_pair_space [pair_block 0, pair_block 1] (replicate 512 Free))"
proof -
  have "[0..<2] = [0, 1 :: nat]" by (simp add: upt_rec)
  then show ?thesis by (simp add: space_ok_def all_blocks_def del: mset_upt)
qed

definition ex_pair :: "(immix_block list \<times> nat) stw" where
  "ex_pair = \<lparr>st_world = (ex_world (ex_pair_space [pair_block 0, pair_block 1] (replicate 512 Free)) (\<lambda>_. 0) [])
      \<lparr>wd_registry := \<lparr>rg_globals = (\<lambda>_. mg_new), rg_arena = [ex_fst, ex_snd], rg_n_mutators = 2\<rparr>\<rparr>,
    st_lock = None, st_pc = (\<lambda>_. Running), st_local = (\<lambda>i. ex_mutator\<lparr>ml_id := i\<rparr>), st_scanned = (\<lambda>_. [])\<rparr>"

lemma ex_pair_start: "fresh_start fst ex_pair"
  using ex_pair_ok
  by (simp add: fresh_start_def stw_start_def ex_pair_def registry_ok_def ex_world_def ex_mutator_def
      mutator_new_def user_space_def LINES_IN_BLOCK_def LOG_BYTES_IN_BLOCK_def LOG_BYTES_IN_LINE_def)

definition moved :: "index \<Rightarrow> mutator_local \<Rightarrow> 'q world \<Rightarrow> 'q stw \<Rightarrow> 'q stw" where
  "moved i m w s = s\<lparr>st_world := w, st_local := (st_local s)(i := m)\<rparr>"

lemma moved_sel [simp]:
  "st_world (moved i m w s) = w" "st_pc (moved i m w s) = st_pc s"
  "st_local (moved i m w s) = (st_local s)(i := m)"
  by (simp_all add: moved_def)

lemma moved_run:
  assumes "system_run p I s0 s" and "i \<in> arena s" and "st_pc s i = Running"
    and "mutator_op p I (st_local s i) (st_world s) m w"
  shows "system_run p I s0 (moved i m w s)"
proof -
  have "system_step p I s (moved i m w s)"
    unfolding moved_def using assms(2) bstep.work [OF assms(3,4)] by (rule system_step.move)
  then show ?thesis using assms(1) by (rule rtranclp.rtrancl_into_rtrancl [rotated])
qed

text \<open>A mutator with a new block opens its hole at the first line.\<close>

lemma next_hole_first:
  assumes tb: "tables_ok (wd_space w)" and b: "block_wf (wd_space w) b"
    and m: "ml_block m = Some b" "ml_line m = 0"
    and free: "slice_line (ib_lines b) (wd_cells w) 0 = Free"
  shows "\<exists>m' tbl'. next_hole p m (wd_cells w) = Inr (Some (m', tbl')) \<and>
    addr_nat (ml_cursor m') = addr_nat (ib_start b) \<and> addr_nat (ib_start b) + 256 \<le> addr_nat (ml_limit m') \<and>
    length tbl' = length (wd_cells w) \<and>
    (\<forall>j<length (wd_cells w). j \<ge> sl_ptr (ib_lines b) + 256 \<longrightarrow> tbl' ! j = wd_cells w ! j)"
proof -
  from open_hole_ok [OF tb b _ free, of p m] obtain e m' tbl' where h:
    "open_hole p m b (wd_cells w) 0 = Inr (m', tbl')" "0 < e" "e \<le> 256"
    "addr_nat (ml_cursor m') = addr_nat (ib_start b)" "addr_nat (ml_limit m') = addr_nat (ib_start b) + 256 * e"
    "tbl' = write_slots {sl_ptr (ib_lines b) + k |k. 0 \<le> k \<and> k < e} FreshAlloc (wd_cells w)" by auto
  have "slice_ok (ib_lines b) (wd_cells w)" "sl_len (ib_lines b) = 256"
    using block_wf_slice_ok [OF tb b] b by (simp_all add: block_wf_def)
  then have "get_next_available_line p (ib_lines b) (wd_cells w) 0 = Inr (Some 0)"
    using free by (simp add: get_next_available_line.simps sl_get_def slice_ok_def)
  then have "next_hole p m (wd_cells w) = Inr (Some (m', tbl'))"
    using h(1) m by (simp add: next_hole_def block_of_def block_get_next_available_line_def LINES_IN_BLOCK_def
        LOG_BYTES_IN_BLOCK_def LOG_BYTES_IN_LINE_def)
  moreover have "tbl' ! j = wd_cells w ! j" if "j < length (wd_cells w)" "j \<ge> sl_ptr (ib_lines b) + 256" for j
    using that h(3) by (subst h(6)) (auto simp: nth_write_slots)
  ultimately show ?thesis using h(2,4,5,6) by (intro exI [of _ m'] exI [of _ tbl']) simp
qed

definition pair_world :: "immix_block list \<Rightarrow> line_mark list \<Rightarrow> (immix_block list \<times> nat) world" where
  "pair_world us ls = (st_world ex_pair)\<lparr>wd_space := ex_pair_space us ls\<rparr>"

lemma pair_world_sel [simp]:
  "wd_space (pair_world us ls) = ex_pair_space us ls"
  "rg_arena (wd_registry (pair_world us ls)) = [ex_fst, ex_snd]"
  "with_cells (pair_world us ls) ls' = pair_world us ls'"
  by (simp_all add: pair_world_def ex_pair_def with_cells_def ex_pair_space_def)

lemma pair_world_start: "st_world ex_pair = pair_world [pair_block 0, pair_block 1] (replicate 512 Free)"
  by (simp add: pair_world_def ex_pair_def ex_world_def)

lemma pair_fetch:
  "fetch_block (fifo_ops 0) (pair_world (b # us) ls) = Some (Some b, pair_world us ls)"
  by (simp add: fetch_block_def get_next_usable_block_def steal_loop.simps pair_world_def Let_def ex_pair_def ex_pair_space_def)

lemma pair_run:
  "\<exists>s. system_run p (fifo_ops 0) ex_pair s \<and> st_pc s = (\<lambda>_. Running) \<and> arena s = {ex_fst, ex_snd} \<and>
     ml_block (st_local s ex_fst) = Some (pair_block 0) \<and> ml_block (st_local s ex_snd) = Some (pair_block 1) \<and>
     (\<forall>i\<in>{ex_fst, ex_snd}. addr_nat (ml_cursor (st_local s i)) < 2 ^ 20 \<and>
        addr_nat (ml_cursor (st_local s i)) + 256 \<le> addr_nat (ml_limit (st_local s i)))"
proof -
  let ?free = "replicate 512 Free" and ?I = "fifo_ops 0 :: (immix_block list \<times> nat) block_queue"
  let ?m0 = "take_block (st_local ex_pair ex_fst) (pair_block 0)"
  let ?m1 = "take_block (st_local ex_pair ex_snd) (pair_block 1)"
  let ?a = "moved ex_fst ?m0 (pair_world [pair_block 1] ?free) ex_pair"
  let ?b = "moved ex_snd ?m1 (pair_world [] ?free) ?a"
  have pc: "st_pc ex_pair = (\<lambda>_. Running)" and none: "ml_block (st_local ex_pair i) = None" for i
    by (simp_all add: ex_pair_def ex_mutator_def)
  have a: "system_run p ?I ex_pair ?a"
    by (rule moved_run [OF rtranclp.rtrancl_refl _ _ mutator_op.fetch [OF none]])
      (simp_all add: pc pair_world_start pair_fetch)
  have "mutator_op p ?I (st_local ?a ex_snd) (st_world ?a) ?m1 (pair_world [] ?free)"
    using mutator_op.fetch [OF none pair_fetch, of p ex_snd "pair_block 1" "[]" ?free] by simp
  then have b: "system_run p ?I ex_pair ?b" by (intro moved_run [OF a]) (simp_all add: pc)
  have start: "addr_nat (ib_start (pair_block 0)) = 524288" "addr_nat (ib_start (pair_block 1)) = 589824"
    by (simp_all add: nth_block_start)
  have line: "slice_line (ib_lines (pair_block k)) ?free 0 = Free" if "k < 2" for k
    using that by (simp add: less_2_cases_iff)
  obtain n0 t0 where n0: "next_hole p ?m0 ?free = Inr (Some (n0, t0))" "addr_nat (ml_cursor n0) = 524288"
    "524288 + 256 \<le> addr_nat (ml_limit n0)" "length t0 = 512" "\<forall>j<512. j \<ge> 256 \<longrightarrow> t0 ! j = ?free ! j"
    using next_hole_first [of "pair_world [] ?free" "pair_block 0" ?m0 p] line [of 0] start
    by (auto simp: take_block_def)
  have line1: "slice_line (ib_lines (pair_block 1)) t0 0 = Free" using n0(5) by simp
  obtain n1 t1 where n1: "next_hole p ?m1 t0 = Inr (Some (n1, t1))" "addr_nat (ml_cursor n1) = 589824"
    "589824 + 256 \<le> addr_nat (ml_limit n1)"
    using next_hole_first [of "pair_world [] t0" "pair_block 1" ?m1 p] line1 start n0(4)
    by (auto simp: take_block_def)
  let ?c = "moved ex_fst n0 (pair_world [] t0) ?b" and ?d = "moved ex_snd n1 (pair_world [] t1) (moved ex_fst n0 (pair_world [] t0) ?b)"
  have "mutator_op p ?I (st_local ?b ex_fst) (st_world ?b) n0 (pair_world [] t0)"
    using mutator_op.hole [of p ?m0 "pair_world [] ?free" "(n0, t0)" ?I] n0(1) by simp
  then have c: "system_run p ?I ex_pair ?c" by (intro moved_run [OF b]) (simp_all add: pc)
  have "mutator_op p ?I (st_local ?c ex_snd) (st_world ?c) n1 (pair_world [] t1)"
    using mutator_op.hole [of p ?m1 "pair_world [] t0" "(n1, t1)" ?I] n1(1) by simp
  then have d: "system_run p ?I ex_pair ?d" by (intro moved_run [OF c]) (simp_all add: pc)
  have "ml_block n0 = Some (pair_block 0)" "ml_block n1 = Some (pair_block 1)"
    using next_hole_sel [OF n0(1)] next_hole_sel [OF n1(1)] by (simp_all add: take_block_def)
  then show ?thesis using d n0(2,3) n1(2,3) by (intro exI [of _ ?d]) (simp add: pc)
qed

text \<open>Both allocate an object of 32 bytes.\<close>

lemma pair_allocates:
  assumes "i \<in> arena s" and "st_pc s i = Running" and "addr_nat (ml_cursor (st_local s i)) < 2 ^ 20"
    and "addr_nat (ml_cursor (st_local s i)) + 256 \<le> addr_nat (ml_limit (st_local s i))"
  shows "\<exists>a e. allocates p ex_layout i s a (moved i ((st_local s i)\<lparr>ml_cursor := e\<rparr>) (st_world s) s)"
proof -
  have ly: "ly_align ex_layout = 2 ^ 3" "(3 :: nat) < 64" "unat (ly_size ex_layout) + unat (ly_align ex_layout) \<le> 2 ^ 63"
    "addr_nat (ml_cursor (st_local s i)) < 2 ^ 63"
    using assms(3) by (simp_all add: ex_layout_def)
  from bump_ok [OF ly, of p] obtain a e where b: "bump p (st_local s i) ex_layout = Inr (a, e)"
    "addr_nat a < addr_nat (ml_cursor (st_local s i)) + 8" "addr_nat e = addr_nat a + 32" by auto
  then have "e \<le> ml_limit (st_local s i)" using assms(4) by (simp add: address_le_iff)
  then show ?thesis using assms(1,2) b(1) unfolding allocates_def moved_def by blast
qed

lemma pair_allocs:
  "\<exists>s a s1 b s2. system_run p (fifo_ops 0) ex_pair s \<and> allocates p ex_layout ex_fst s a s1 \<and>
     allocates p ex_layout ex_snd s1 b s2"
proof -
  obtain s where s: "system_run p (fifo_ops 0) ex_pair s" "st_pc s = (\<lambda>_. Running)" "arena s = {ex_fst, ex_snd}"
    and h: "\<forall>i\<in>{ex_fst, ex_snd}. addr_nat (ml_cursor (st_local s i)) < 2 ^ 20 \<and>
        addr_nat (ml_cursor (st_local s i)) + 256 \<le> addr_nat (ml_limit (st_local s i))"
    using pair_run by blast
  obtain a e where a: "allocates p ex_layout ex_fst s a (moved ex_fst ((st_local s ex_fst)\<lparr>ml_cursor := e\<rparr>) (st_world s) s)"
    (is "allocates _ _ _ _ _ ?s1") using pair_allocates [of ex_fst s p] s h by auto
  have "\<exists>b e. allocates p ex_layout ex_snd ?s1 b (moved ex_snd ((st_local ?s1 ex_snd)\<lparr>ml_cursor := e\<rparr>) (st_world ?s1) ?s1)"
    by (rule pair_allocates) (use s h in auto)
  then show ?thesis using s(1) a by blast
qed

text \<open>Each of them could also call the allocator.\<close>

lemma pair_ready:
  "alloc_pre fst (st_local ex_pair ex_fst) (st_world ex_pair) \<and> block_ready fst (st_world ex_pair) \<and>
   \<not> take_yield (rg_globals (wd_registry (st_world ex_pair)) (ml_id (st_local ex_pair ex_fst)))"
proof (intro conjI)
  have "pool_ok fst (st_local ex_pair ex_fst) (st_world ex_pair)"
    unfolding pool_ok_def using ex_pair_ok
    by (intro exI [of _ "[]"]) (simp add: pair_world_start held_by_def, simp add: ex_pair_def ex_mutator_def)
  then show "alloc_pre fst (st_local ex_pair ex_fst) (st_world ex_pair)"
    by (simp add: alloc_pre_def mut_ok_def pair_world_start user_space_def) (simp add: ex_pair_def ex_mutator_def)
  show "block_ready fst (st_world ex_pair)"
    by (simp add: block_ready_def pair_world_start) (rule exI [of _ 0], simp)
qed (simp add: ex_pair_def take_yield_def mg_new_def)

section \<open>An allocation after a collection\<close>

lemma solo_start: "fresh_start fst ex_solo"
  by (simp add: fresh_start_def stw_start_def ex_solo_def registry_ok_def ex_world_def ex_mutator_def
      mutator_new_def user_space_def LINES_IN_BLOCK_def LOG_BYTES_IN_BLOCK_def LOG_BYTES_IN_LINE_def)

abbreviation solo_world :: "(immix_block list \<times> nat) world" where
  "solo_world \<equiv> (st_world ex_solo)\<lparr>wd_controller := 0, wd_roots := [ObjectReference 524288, ObjectReference 524288]\<rparr>"

lemma solo_world_sel [simp]:
  "wd_space (st_world ex_solo) = ex_heap_space" "wd_mem (st_world ex_solo) = ex_mem"
  "wd_registry (st_world ex_solo) = \<lparr>rg_globals = (\<lambda>_. set_take_yield mg_new True), rg_arena = [ex_fst], rg_n_mutators = 1\<rparr>"
  by (simp_all add: ex_solo_def ex_world_def)

lemma solo_reach: "reach (set (wd_roots solo_world)) (followed (wd_space solo_world) (wd_mem solo_world)) =
    {ObjectReference 524288, ObjectReference 525312}"
  by (simp add: ex_followed ex_reach)

lemma solo_collecting:
  "\<exists>s. (bstep Debug (fifo_ops 0) ex_fst)\<^sup>*\<^sup>* ex_solo s \<and> controls ex_fst Collecting ex_mutator solo_world s"
proof -
  have start: "controls ex_fst Running ex_mutator (st_world ex_solo) ex_solo" by (simp add: controls_def ex_solo_def)
  have enter: "enter_barrier Debug (fifo_ops 0) ex_env ex_mutator ((st_world ex_solo)\<lparr>wd_controller := int (fst ex_fst)\<rparr>) =
      Some (Inr (ex_mutator, solo_world))"
    using ex_scan_roots [of ex_lines Debug 1 "[]" "[ex_block]"]
    by (simp add: enter_barrier_def prepare_for_gc_def return_block_def ex_mutator_def ex_solo_def ex_world_def)
  have "take_yield (rg_globals (wd_registry (st_world ex_solo)) ex_fst)" by (simp add: take_yield_def set_take_yield_def)
  moreover have "wd_controller (st_world ex_solo) = NO_CONTROLLER" by (simp add: ex_solo_def)
  ultimately obtain s0 s1 where s0: "bstep Debug (fifo_ops 0) ex_fst ex_solo s0" "barrier_run Debug (fifo_ops 0) ex_fst s0 s1"
    and s1: "controls ex_fst (Gathering 0) ex_mutator solo_world s1"
    using controls_enter [OF start _ _ enter] by blast
  have "usize_sub Debug (rg_n_mutators (wd_registry solo_world)) 1 = Inr 0" "\<not> wd_stw_count solo_world < 0"
    by (simp_all add: usize_sub_def)
  from controls_gather [OF s1 this] obtain s2 where
    "barrier_run Debug (fifo_ops 0) ex_fst s1 s2" "controls ex_fst Collecting ex_mutator solo_world s2" by blast
  moreover from s0(2) this(1) have "(bstep Debug (fifo_ops 0) ex_fst)\<^sup>*\<^sup>* s0 s2"
    using barrier_run_bstep rtranclp_trans [of "barrier_step Debug (fifo_ops 0) ex_fst"] by blast
  ultimately show ?thesis using s0(1) converse_rtranclp_into_rtranclp [of "bstep Debug (fifo_ops 0) ex_fst"] by blast
qed

lemma solo_gc:
  "\<exists>w'. gc Debug (fifo_ops 0) ex_sched solo_world = Some (Inr w') \<and> wd_cells w' ! 9 = Free \<and>
     set_state ex_block Usable \<in> set (fst (sp_usable_blocks (wd_space w')))"
  using gc_succeeds [OF fifo_ops_laws, of "[]" solo_world Debug ex_block 9 0 ex_sched]
  by (auto simp: ex_followed ex_reach ex_wf_object ex_block_lines ex_lines_def to_address_def)

lemma solo_allocates:
  "\<exists>s s' t a t'. system_run Debug (fifo_ops 0) ex_solo s \<and> ex_fst \<in> arena s \<and> st_pc s ex_fst = Collecting \<and>
     st_world s = solo_world \<and> bstep Debug (fifo_ops 0) ex_fst s s' \<and> st_pc s' ex_fst = Releasing \<and>
     system_run Debug (fifo_ops 0) s' t \<and> allocates Debug ex_layout ex_fst t a t'"
proof -
  let ?I = "fifo_ops 0 :: (immix_block list \<times> nat) block_queue"
  obtain s where s: "(bstep Debug ?I ex_fst)\<^sup>*\<^sup>* ex_solo s" "controls ex_fst Collecting ex_mutator solo_world s"
    using solo_collecting by blast
  obtain w2 where g: "gc Debug ?I ex_sched solo_world = Some (Inr w2)" "wd_cells w2 ! 9 = Free"
    "set_state ex_block Usable \<in> set (fst (sp_usable_blocks (wd_space w2)))" using solo_gc by blast
  have r: "alloc_pre fst ex_mutator w2" "block_ready fst w2" "wd_registry w2 = wd_registry solo_world"
    using ex_ready_after_gc [OF g(1) _ g(2,3)] by simp_all
  let ?s = "at_pc ex_fst Releasing (s\<lparr>st_world := w2\<rparr>)"
  note c = controls_collect [OF s(2) g(1), unfolded barrier_step_def]
  let ?w3 = "(resume_mutators w2)\<lparr>wd_stw_count := 0\<rparr>"
  obtain s3 where path: "barrier_run Debug ?I ex_fst ?s s3" and s3_at: "controls ex_fst Running (reset ex_mutator) ?w3 s3"
    using controls_release [of ex_fst ex_mutator w2 ?s Debug ?I] c by blast
  note s3 = barrier_run_bstep [OF path] s3_at
  have "reset ex_mutator = ex_mutator" by (simp add: reset_def ex_mutator_def LINES_IN_BLOCK_def LOG_BYTES_IN_BLOCK_def LOG_BYTES_IN_LINE_def)
  with s3(2) have work: "at_work ex_fst ex_mutator ?w3 s3"
    using r(3) by (simp add: at_work_def ex_mutator_def resume_mutators_def)
  have "alloc_pre fst ex_mutator ?w3" "block_ready fst ?w3"
    using r(1,2) by (simp_all add: alloc_pre_def pool_ok_def block_ready_def resume_mutators_def)
  moreover have "\<not> take_yield (rg_globals (wd_registry ?w3) (ml_id ex_mutator))"
    using r(3) by (simp add: resume_mutators_def ex_mutator_def mutator_global_defs)
  ultimately obtain a m' w' where "alloc 3 Debug ?I no_barrier ex_layout ex_mutator ?w3 = Some (Inr (a, m', w'))"
    using ex_alloc by blast
  from alloc_run [OF work alloc_quiet_mono [OF this]] obtain t t' where
    t: "(bstep Debug ?I ex_fst)\<^sup>*\<^sup>* s3 t" "allocates Debug ex_layout ex_fst t a t'"
    by (auto simp: runs_to_alloc_def)
  then have "ex_fst \<in> arena t" by (simp add: allocates_def)
  moreover have "(bstep Debug ?I ex_fst)\<^sup>*\<^sup>* ?s t" using s3(1) t(1) by (rule rtranclp_trans)
  ultimately have run: "ex_fst \<in> arena ?s" "system_run Debug ?I ?s t" using own_run_system by blast+
  then have "ex_fst \<in> arena s" using arena_shrinks c by blast
  then show ?thesis
    using own_run_system [OF s(1)] run t(2) c s(2) unfolding controls_def by blast
qed

end
