(* ===== verification/Gcbench.thy ===== *)
theory Gcbench
  imports Gc "HOL-Library.Signed_Division"
begin

unbundle bit_operations_syntax

text \<open>
  The benchmark program \<open>src/rust_benchmarks/gcbench.rs\<close> as a client of the allocator: it
  builds complete binary trees bottom up (\<open>MakeTree\<close>) and top down (\<open>Populate\<close>). The node type
  is an argument, so that the lemmas hold for the node of \<open>mt_gcbench.rs\<close> too. What the program
  prints is added in \<open>Programs\<close>.
\<close>

section \<open>Arithmetic on i32\<close>

definition i32_wrap :: "int \<Rightarrow> int" where
  "i32_wrap v = (v + 2 ^ 31) mod 2 ^ 32 - 2 ^ 31"

definition i32_checked :: "profile \<Rightarrow> int \<Rightarrow> int res" where
  "i32_checked p v = (if - (2 ^ 31) \<le> v \<and> v < 2 ^ 31 then Inr v else overflowed p (i32_wrap v))"

definition i32_shl :: "profile \<Rightarrow> int \<Rightarrow> int \<Rightarrow> int res" where
  "i32_shl p a n = (if 0 \<le> n \<and> n < 32 then Inr (i32_wrap (a * 2 ^ nat n))
     else overflowed p (i32_wrap (a * 2 ^ nat (n mod 32))))"

definition i32_div :: "int \<Rightarrow> int \<Rightarrow> int res" where
  "i32_div a b = (if b = 0 then Inl (Panic ''attempt to divide by zero'')
     else if a = - (2 ^ 31) \<and> b = - 1 then Inl Overflow else Inr (a sdiv b))"

section \<open>Trees\<close>

definition kStretchTreeDepth :: int where "kStretchTreeDepth = 18"
definition kLongLivedTreeDepth :: int where "kLongLivedTreeDepth = 16"
definition kMinTreeDepth :: int where "kMinTreeDepth = 4"
definition kMaxTreeDepth :: int where "kMaxTreeDepth = 16"

definition TreeSize :: "profile \<Rightarrow> int \<Rightarrow> int res" where
  "TreeSize p i =
     bind_res (i32_checked p (i + 1)) (\<lambda>k.
     bind_res (i32_shl p 1 k) (\<lambda>s. i32_checked p (s - 1)))"

definition NumIters :: "profile \<Rightarrow> int \<Rightarrow> int res" where
  "NumIters p i =
     bind_res (TreeSize p kStretchTreeDepth) (\<lambda>s.
     bind_res (i32_checked p (2 * s)) (\<lambda>t.
     bind_res (TreeSize p i) (\<lambda>d. i32_div t d)))"

text \<open>
  A node type: its layout and where its two references are. \<open>gcbench.rs\<close> leaves the order of
  the fields to the compiler; \<open>mt_gcbench.rs\<close> fixes it, with a header in front.
\<close>

record node_type =
  nt_layout :: layout
  nt_left :: usize
  nt_right :: usize

definition Node :: "usize \<Rightarrow> usize \<Rightarrow> node_type" where
  "Node left right = \<lparr>nt_layout = \<lparr>ly_size = 24, ly_align = 8\<rparr>, nt_left = left, nt_right = right\<rparr>"

definition mt_Node :: node_type where
  "mt_Node = \<lparr>nt_layout = \<lparr>ly_size = 32, ly_align = 8\<rparr>, nt_left = 8, nt_right = 16\<rparr>"

definition bench_alloc :: "nat \<Rightarrow> profile \<Rightarrow> 'q block_queue \<Rightarrow> 'q step \<Rightarrow> node_type \<Rightarrow> mutator_local \<Rightarrow> 'q world
    \<Rightarrow> (address \<times> mutator_local \<times> 'q world) res option" where
  "bench_alloc fuel p I slow nt m w =
     bind_ro (alloc fuel p I slow (nt_layout nt) m w) (\<lambda>r.
     bind_ro (Some (init_object p (fst (snd r)) (snd (snd r)) (fst r) 195)) (\<lambda>w2.
       Some (Inr (fst r, fst (snd r), w2))))"

definition store_at :: "address \<Rightarrow> usize \<Rightarrow> address \<Rightarrow> 'q world \<Rightarrow> 'q world" where
  "store_at me off v w = w\<lparr>wd_mem := (wd_mem w)(as_usize me + off := as_usize v)\<rparr>"

definition load_at :: "address \<Rightarrow> usize \<Rightarrow> 'q world \<Rightarrow> address" where
  "load_at me off w = Address (wd_mem w (as_usize me + off))"

definition init_Node :: "node_type \<Rightarrow> address \<Rightarrow> address \<Rightarrow> address \<Rightarrow> 'q world \<Rightarrow> 'q world" where
  "init_Node nt me l r w = store_at me (nt_right nt) r (store_at me (nt_left nt) l w)"

function Populate :: "nat \<Rightarrow> profile \<Rightarrow> 'q block_queue \<Rightarrow> 'q step \<Rightarrow> node_type \<Rightarrow> int \<Rightarrow> address \<Rightarrow> 'q step" where
  "Populate fuel p I slow nt iDepth thisNode m w =
     (if iDepth \<le> 0 then Some (Inr (m, w))
      else bind_ro (bench_alloc fuel p I slow nt m w) (\<lambda>l.
           bind_ro (bench_alloc fuel p I slow nt (fst (snd l)) (store_at thisNode (nt_left nt) (fst l) (snd (snd l)))) (\<lambda>r.
           let w2 = store_at thisNode (nt_right nt) (fst r) (snd (snd r)) in
           bind_ro (Populate fuel p I slow nt (iDepth - 1) (load_at thisNode (nt_left nt) w2) (fst (snd r)) w2) (\<lambda>s.
             Populate fuel p I slow nt (iDepth - 1) (load_at thisNode (nt_right nt) (snd s)) (fst s) (snd s)))))"
  by pat_completeness auto
termination
  by (relation "measure (\<lambda>(fuel, p, I, slow, nt, d, a, m, w). nat d)") auto

function MakeTree :: "nat \<Rightarrow> profile \<Rightarrow> 'q block_queue \<Rightarrow> 'q step \<Rightarrow> node_type \<Rightarrow> int \<Rightarrow> mutator_local \<Rightarrow> 'q world
    \<Rightarrow> (address \<times> mutator_local \<times> 'q world) res option" where
  "MakeTree fuel p I slow nt iDepth m w =
     (if iDepth \<le> 0 then bench_alloc fuel p I slow nt m w
      else bind_ro (MakeTree fuel p I slow nt (iDepth - 1) m w) (\<lambda>left.
           bind_ro (MakeTree fuel p I slow nt (iDepth - 1) (fst (snd left)) (snd (snd left))) (\<lambda>right.
           bind_ro (bench_alloc fuel p I slow nt (fst (snd right)) (snd (snd right))) (\<lambda>result.
             Some (Inr (fst result, fst (snd result),
               init_Node nt (fst result) (fst left) (fst right) (snd (snd result))))))))"
  by pat_completeness auto
termination
  by (relation "measure (\<lambda>(fuel, p, I, slow, nt, d, m, w). nat d)") auto

declare Populate.simps [simp del] MakeTree.simps [simp del]

section \<open>The program\<close>

fun repeat_step :: "nat \<Rightarrow> 'q step \<Rightarrow> 'q step" where
  "repeat_step 0 f m w = Some (Inr (m, w))"
| "repeat_step (Suc n) f m w = bind_ro (f m w) (\<lambda>r. repeat_step n f (fst r) (snd r))"

definition TimeConstruction :: "nat \<Rightarrow> profile \<Rightarrow> 'q block_queue \<Rightarrow> 'q step \<Rightarrow> node_type \<Rightarrow> int \<Rightarrow> 'q step" where
  "TimeConstruction fuel p I slow nt depth m w =
     bind_ro (Some (NumIters p depth)) (\<lambda>iNumIters.
     bind_ro (repeat_step (nat iNumIters) (\<lambda>m w.
         bind_ro (bench_alloc fuel p I slow nt m w) (\<lambda>tempTree.
           Populate fuel p I slow nt depth (fst tempTree) (fst (snd tempTree)) (snd (snd tempTree)))) m w) (\<lambda>r.
       repeat_step (nat iNumIters) (\<lambda>m w.
         bind_ro (MakeTree fuel p I slow nt depth m w) (\<lambda>tempTree. Some (Inr (snd tempTree)))) (fst r) (snd r)))"

function depth_loop :: "nat \<Rightarrow> profile \<Rightarrow> 'q block_queue \<Rightarrow> 'q step \<Rightarrow> node_type \<Rightarrow> int \<Rightarrow> 'q step" where
  "depth_loop fuel p I slow nt d m w =
     (if d \<le> kMaxTreeDepth
      then bind_ro (TimeConstruction fuel p I slow nt d m w) (\<lambda>r. depth_loop fuel p I slow nt (d + 2) (fst r) (snd r))
      else Some (Inr (m, w)))"
  by pat_completeness auto
termination
  by (relation "measure (\<lambda>(fuel, p, I, slow, nt, d, m, w). nat (kMaxTreeDepth + 1 - d))") auto

declare depth_loop.simps [simp del]

text \<open>\<open>start\<close>, once the space and the mutator are there: the stretch tree, the long-lived tree,
  and the measurements.\<close>

definition bench_start :: "nat \<Rightarrow> profile \<Rightarrow> 'q block_queue \<Rightarrow> 'q step \<Rightarrow> node_type \<Rightarrow> mutator_local \<Rightarrow> 'q world
    \<Rightarrow> (address \<times> mutator_local \<times> 'q world) res option" where
  "bench_start fuel p I slow nt m w =
     bind_ro (MakeTree fuel p I slow nt kStretchTreeDepth m w) (\<lambda>tempTree.
     bind_ro (bench_alloc fuel p I slow nt (fst (snd tempTree)) (snd (snd tempTree))) (\<lambda>longLivedTree.
     bind_ro (Populate fuel p I slow nt kLongLivedTreeDepth (fst longLivedTree)
         (fst (snd longLivedTree)) (snd (snd longLivedTree))) (\<lambda>r.
     bind_ro (depth_loop fuel p I slow nt kMinTreeDepth (fst r) (snd r)) (\<lambda>s.
       Some (Inr (fst longLivedTree, fst s, snd s))))))"

section \<open>Sizes\<close>

lemma i32_wrap_id: "0 \<le> v \<Longrightarrow> v \<le> 2 ^ 30 \<Longrightarrow> i32_wrap v = v"
  by (simp add: i32_wrap_def)

lemma TreeSize_ok:
  assumes "0 \<le> i" "i \<le> 29"
  shows "TreeSize p i = Inr (2 ^ nat (i + 1) - 1)"
proof -
  have le: "(2 :: int) ^ nat (i + 1) \<le> 2 ^ 30" using assms by (intro power_increasing) simp_all
  moreover have "0 \<le> (2 :: int) ^ nat (i + 1)" by simp
  ultimately have "i32_wrap (2 ^ nat (i + 1)) = 2 ^ nat (i + 1)" by (intro i32_wrap_id)
  moreover have "- 2147483648 < (2 :: int) ^ nat (i + 1)" by (rule less_le_trans [of _ 0]) simp_all
  ultimately show ?thesis
    using assms le by (simp add: TreeSize_def i32_checked_def i32_shl_def)
qed

lemma NumIters_ok:
  assumes "0 \<le> i" "i \<le> 29"
  shows "NumIters p i = Inr ((2 ^ 20 - 2) div (2 ^ nat (i + 1) - 1))"
proof -
  have "(2 :: int) ^ 1 \<le> 2 ^ nat (i + 1)" using assms by (intro power_increasing) simp_all
  then have pos: "0 < (2 :: int) ^ nat (i + 1) - 1" by simp
  then have "(1048574 :: int) sdiv (2 ^ nat (i + 1) - 1) = 1048574 div (2 ^ nat (i + 1) - 1)"
    by (simp add: signed_divide_int_def)
  then show ?thesis
    using pos TreeSize_ok [OF assms] TreeSize_ok [of 18 p]
    by (simp add: NumIters_def kStretchTreeDepth_def i32_checked_def i32_div_def)
qed

section \<open>Trees in memory\<close>

text \<open>The nodes of the complete tree of depth \<open>d\<close> at an address.\<close>

fun tree_nodes :: "node_type \<Rightarrow> (usize \<Rightarrow> usize) \<Rightarrow> nat \<Rightarrow> address \<Rightarrow> address list" where
  "tree_nodes nt mem 0 a = [a]"
| "tree_nodes nt mem (Suc d) a = a #
     tree_nodes nt mem d (Address (mem (as_usize a + nt_left nt))) @
     tree_nodes nt mem d (Address (mem (as_usize a + nt_right nt)))"

lemma length_tree_nodes: "length (tree_nodes nt mem d a) + 1 = 2 ^ (d + 1)"
proof (induction d arbitrary: a)
  case (Suc d)
  from Suc [of "Address (mem (as_usize a + nt_left nt))"] Suc [of "Address (mem (as_usize a + nt_right nt))"]
  show ?case by simp
qed simp

abbreviation node_bytes :: "node_type \<Rightarrow> address \<Rightarrow> nat set" where
  "node_bytes nt a \<equiv> {addr_nat a ..< addr_nat a + unat (ly_size (nt_layout nt))}"

definition node_type_ok :: "node_type \<Rightarrow> bool" where
  "node_type_ok nt \<longleftrightarrow> layout_ok (nt_layout nt) \<and> ly_align (nt_layout nt) = 8 \<and>
     unat (nt_left nt) < unat (ly_size (nt_layout nt)) \<and> unat (nt_right nt) < unat (ly_size (nt_layout nt)) \<and>
     nt_left nt \<noteq> nt_right nt"

text \<open>A node in the space, with its byte in the alloc map.\<close>

definition node_ok :: "node_type \<Rightarrow> 'q world \<Rightarrow> address \<Rightarrow> bool" where
  "node_ok nt w a \<longleftrightarrow> 8 dvd addr_nat a \<and> sp_start (wd_space w) \<le> a \<and>
     addr_nat a + unat (ly_size (nt_layout nt)) \<le> addr_nat (sp_end (wd_space w)) \<and>
     ref_byte (wd_space w) (to_object_reference a) = 195"

definition separate :: "node_type \<Rightarrow> address list \<Rightarrow> bool" where
  "separate nt = sorted_wrt (\<lambda>a b. node_bytes nt a \<inter> node_bytes nt b = {})"

text \<open>Between two worlds only words at \<open>M\<close> and object bytes at \<open>B\<close> have changed.\<close>

definition changes :: "nat set \<Rightarrow> nat set \<Rightarrow> 'q world \<Rightarrow> 'q world \<Rightarrow> bool" where
  "changes M B w w' \<longleftrightarrow> heap_frame w w' \<and>
     (\<forall>k. unat k \<notin> M \<longrightarrow> wd_mem w' k = wd_mem w k) \<and>
     (\<forall>a. 8 dvd addr_nat a \<longrightarrow> sp_start (wd_space w) \<le> a \<longrightarrow> addr_nat a \<notin> B \<longrightarrow>
        ref_byte (wd_space w') (to_object_reference a) = ref_byte (wd_space w) (to_object_reference a))"

abbreviation fresh :: "mutator_local \<Rightarrow> 'q world \<Rightarrow> nat set" where
  "fresh m w \<equiv> Collect (byte_fresh m w)"

abbreviation data_frame :: "mutator_local \<Rightarrow> 'q world \<Rightarrow> 'q world \<Rightarrow> bool" where
  "data_frame m w w' \<equiv> changes (fresh m w) (fresh m w) w w'"

lemma changes_trans:
  assumes "changes M B w w1" and "changes M' B' w1 w2" and "M \<union> M' \<subseteq> M''" and "B \<union> B' \<subseteq> B''"
  shows "changes M'' B'' w w2"
proof -
  have "sp_start (wd_space w1) = sp_start (wd_space w)" using assms(1) by (simp add: changes_def heap_frame_def)
  moreover have "unat k \<notin> M \<and> unat k \<notin> M'" if "unat k \<notin> M''" for k :: usize using that assms(3) by auto
  moreover have "addr_nat a \<notin> B \<and> addr_nat a \<notin> B'" if "addr_nat a \<notin> B''" for a using that assms(4) by auto
  ultimately show ?thesis
    using assms(1,2) heap_frame_trans [of w w1 w2] by (simp add: changes_def)
qed

lemma data_frame_trans:
  assumes "data_frame m w w1" and "data_frame m1 w1 w2" and "\<And>x. byte_fresh m1 w1 x \<Longrightarrow> byte_fresh m w x"
  shows "data_frame m w w2"
  by (rule changes_trans [OF assms(1,2)]) (use assms(3) in auto)

text \<open>Nodes outside of what changes survive.\<close>

lemma node_word:
  assumes "node_ok nt w a" and "user_space (wd_space w)" and "unat off < unat (ly_size (nt_layout nt))"
  shows "unat (as_usize a + off) = addr_nat a + unat off" and "unat (as_usize a + off) \<in> node_bytes nt a"
proof -
  have "addr_nat a + unat off < 2 ^ 64" using assms by (simp add: node_ok_def user_space_def)
  then show "unat (as_usize a + off) = addr_nat a + unat off" by (simp add: unat_add_small)
  with assms(3) show "unat (as_usize a + off) \<in> node_bytes nt a" by simp
qed

lemma node_survives:
  assumes nt: "node_type_ok nt" and us: "user_space (wd_space w)" and ch: "changes M B w w'"
    and a: "node_ok nt w a" "node_bytes nt a \<inter> M = {}"
  shows "wd_mem w' (as_usize a + nt_left nt) = wd_mem w (as_usize a + nt_left nt)"
    and "wd_mem w' (as_usize a + nt_right nt) = wd_mem w (as_usize a + nt_right nt)"
  using nt a(2) node_word(2) [OF a(1) us, of "nt_left nt"] node_word(2) [OF a(1) us, of "nt_right nt"] ch
  by (auto simp: node_type_ok_def changes_def)

lemma tree_survives:
  assumes nt: "node_type_ok nt" and us: "user_space (wd_space w)" and ch: "changes M B w w'"
    and nodes: "\<forall>n\<in>set (tree_nodes nt (wd_mem w) d a). node_ok nt w n \<and> node_bytes nt n \<inter> M = {}"
  shows "tree_nodes nt (wd_mem w') d a = tree_nodes nt (wd_mem w) d a"
  using nodes
proof (induction d arbitrary: a)
  case (Suc d)
  have "node_ok nt w a" "node_bytes nt a \<inter> M = {}" using Suc.prems by auto
  note words = node_survives [OF nt us ch this]
  have "tree_nodes nt (wd_mem w') d b = tree_nodes nt (wd_mem w) d b"
    if "b \<in> {Address (wd_mem w (as_usize a + nt_left nt)), Address (wd_mem w (as_usize a + nt_right nt))}" for b
    using that Suc.prems by (intro Suc.IH) auto
  with words show ?case by simp
qed simp

lemma node_ok_survives:
  assumes "node_ok nt w a" and "changes M B w w'" and "addr_nat a \<notin> B"
  shows "node_ok nt w' a"
  using assms by (simp add: node_ok_def changes_def heap_frame_def)

section \<open>Building trees without a collection\<close>

text \<open>What a call leaves behind: a tree of depth \<open>d\<close> made of fresh memory.\<close>

definition built :: "('q \<Rightarrow> immix_block list) \<Rightarrow> node_type \<Rightarrow> nat \<Rightarrow> mutator_local \<Rightarrow> 'q world \<Rightarrow> address \<Rightarrow>
    mutator_local \<Rightarrow> 'q world \<Rightarrow> bool" where
  "built c nt d m w a m' w' \<longleftrightarrow> alloc_pre c m' w' \<and> data_frame m w w' \<and>
     (\<forall>x. byte_fresh m' w' x \<longrightarrow> byte_fresh m w x) \<and>
     separate nt (tree_nodes nt (wd_mem w') d a) \<and>
     (\<forall>n\<in>set (tree_nodes nt (wd_mem w') d a). node_ok nt w' n \<and>
        (\<forall>x\<in>node_bytes nt n. byte_fresh m w x \<and> \<not> byte_fresh m' w' x))"

text \<open>The bytes of the alloc map play no part in the allocator's precondition.\<close>

definition with_bytes :: "u8 list \<Rightarrow> 'q world \<Rightarrow> 'q world" where
  "with_bytes bs w = w\<lparr>wd_space := (wd_space w)\<lparr>sp_alloc_map := (sp_alloc_map (wd_space w))\<lparr>am_cells := bs\<rparr>\<rparr>\<rparr>"

lemma with_bytes_sel [simp]:
  "wd_mem (with_bytes bs w) = wd_mem w" "wd_cells (with_bytes bs w) = wd_cells w"
  "sp_start (wd_space (with_bytes bs w)) = sp_start (wd_space w)"
  "sp_end (wd_space (with_bytes bs w)) = sp_end (wd_space w)"
  "sp_total_blocks (wd_space (with_bytes bs w)) = sp_total_blocks (wd_space w)"
  "am_cells (sp_alloc_map (wd_space (with_bytes bs w))) = bs"
  "heap_frame w0 (with_bytes bs w) \<longleftrightarrow> heap_frame w0 w" "byte_fresh m (with_bytes bs w) = byte_fresh m w"
  by (simp_all add: with_bytes_def heap_frame_def byte_fresh_def fun_eq_iff)

lemma alloc_pre_bytes:
  assumes "length bs = length (am_cells (sp_alloc_map (wd_space w)))" and "alloc_pre c m w"
  shows "alloc_pre c m (with_bytes bs w)"
proof -
  have "space_ok c held (wd_space (with_bytes bs w))" if "space_ok c held (wd_space w)" for held
  proof -
    have "tables_ok (wd_space (with_bytes bs w))"
      using that assms(1) by (simp add: space_ok_def tables_ok_def with_bytes_def)
    then show ?thesis using that by (simp add: space_ok_def with_bytes_def all_blocks_def block_wf_def)
  qed
  then show ?thesis
    using assms(2) by (auto simp: alloc_pre_def pool_ok_def mut_ok_def user_space_def block_wf_def with_bytes_def
        split: option.splits)
qed

lemma init_object_effect:
  assumes "init_object p m w a e = Inr w'" and "ml_space_start m \<le> a"
  shows "w' = with_bytes ((am_cells (sp_alloc_map (wd_space w)))[(addr_nat a - addr_nat (ml_space_start m)) div 8 := e]) w"
    and "(addr_nat a - addr_nat (ml_space_start m)) div 8 < length (am_cells (sp_alloc_map (wd_space w)))"
  using assms by (auto simp: init_object_def with_bytes_def diff_ok unat_div_pointer Let_def split: if_splits)

lemma slot_inject:
  assumes "8 dvd addr_nat a" "8 dvd addr_nat b" "8 dvd addr_nat st" "st \<le> a" "st \<le> b"
    and "(addr_nat a - addr_nat st) div 8 = (addr_nat b - addr_nat st) div 8"
  shows "addr_nat a = addr_nat b"
  using assms unfolding address_le_iff by (metis dvd_diff_nat dvd_div_mult_self le_add_diff_inverse)

lemma init_Node_sel [simp]:
  "wd_space (init_Node nt a lt rt w) = wd_space w" "byte_fresh m (init_Node nt a lt rt w) = byte_fresh m w"
  "alloc_pre c m (init_Node nt a lt rt w) \<longleftrightarrow> alloc_pre c m w"
  by (simp_all add: init_Node_def store_at_def byte_fresh_def fun_eq_iff alloc_pre_def pool_ok_def)

lemma init_Node_loads:
  assumes "node_type_ok nt"
  shows "wd_mem (init_Node nt a lt rt w) (as_usize a + nt_left nt) = as_usize lt"
    "wd_mem (init_Node nt a lt rt w) (as_usize a + nt_right nt) = as_usize rt"
  using assms by (simp_all add: init_Node_def store_at_def node_type_ok_def)

lemma init_Node_frame:
  assumes nt: "node_type_ok nt" and a: "node_ok nt w1 a" and us: "user_space (wd_space w1)"
    and fr: "data_frame m w w1" and fresh: "\<forall>x\<in>node_bytes nt a. byte_fresh m w x"
  shows "data_frame m w (init_Node nt a lt rt w1)"
proof -
  have sz: "unat (nt_left nt) < unat (ly_size (nt_layout nt))" "unat (nt_right nt) < unat (ly_size (nt_layout nt))"
    using nt by (simp_all add: node_type_ok_def)
  have "wd_mem (init_Node nt a lt rt w1) k = wd_mem w1 k" if "\<not> byte_fresh m w (unat k)" for k
  proof -
    have "k \<noteq> as_usize a + off" if "unat off < unat (ly_size (nt_layout nt))" for off
      using node_word(2) [OF a us that] fresh \<open>\<not> byte_fresh m w (unat k)\<close> by auto
    with sz show ?thesis by (simp add: init_Node_def store_at_def)
  qed
  then show ?thesis using fr by (simp add: changes_def heap_frame_def)
qed

lemma store_at_sel [simp]:
  "wd_space (store_at a off v w) = wd_space w" "byte_fresh m (store_at a off v w) = byte_fresh m w"
  "alloc_pre c m (store_at a off v w) \<longleftrightarrow> alloc_pre c m w"
  "node_ok nt (store_at a off v w) b \<longleftrightarrow> node_ok nt w b"
  by (simp_all add: store_at_def byte_fresh_def fun_eq_iff alloc_pre_def pool_ok_def node_ok_def)

lemma store_changes:
  assumes "node_ok nt w a" and "user_space (wd_space w)" and "unat off < unat (ly_size (nt_layout nt))"
  shows "changes (node_bytes nt a) {} w (store_at a off v w)"
  using node_word(2) [OF assms] by (auto simp: changes_def store_at_def heap_frame_def)

text \<open>Growing a tree below a node that exists already.\<close>

definition grown :: "('q \<Rightarrow> immix_block list) \<Rightarrow> node_type \<Rightarrow> nat \<Rightarrow> mutator_local \<Rightarrow> 'q world \<Rightarrow> address \<Rightarrow>
    mutator_local \<Rightarrow> 'q world \<Rightarrow> bool" where
  "grown c nt d m w a m' w' \<longleftrightarrow> alloc_pre c m' w' \<and>
     changes (fresh m w \<union> node_bytes nt a) (fresh m w) w w' \<and> fresh m' w' \<subseteq> fresh m w \<and>
     separate nt (tree_nodes nt (wd_mem w') d a) \<and>
     (\<forall>n\<in>set (tl (tree_nodes nt (wd_mem w') d a)). node_ok nt w' n \<and>
        node_bytes nt n \<subseteq> fresh m w \<and> node_bytes nt n \<inter> fresh m' w' = {})"

text \<open>The state after a node has got its two children.\<close>

definition two_children :: "('q \<Rightarrow> immix_block list) \<Rightarrow> node_type \<Rightarrow> mutator_local \<Rightarrow> 'q world \<Rightarrow> address \<Rightarrow>
    address \<Rightarrow> address \<Rightarrow> mutator_local \<Rightarrow> 'q world \<Rightarrow> bool" where
  "two_children c nt m w a lt rt m' w' \<longleftrightarrow> alloc_pre c m' w' \<and>
     changes (fresh m w \<union> node_bytes nt a) (fresh m w) w w' \<and> fresh m' w' \<subseteq> fresh m w \<and>
     node_ok nt w' a \<and> wd_mem w' (as_usize a + nt_left nt) = as_usize lt \<and>
     wd_mem w' (as_usize a + nt_right nt) = as_usize rt \<and>
     node_ok nt w' lt \<and> node_ok nt w' rt \<and> node_bytes nt lt \<inter> node_bytes nt rt = {} \<and>
     node_bytes nt lt \<union> node_bytes nt rt \<subseteq> fresh m w \<and>
     (node_bytes nt lt \<union> node_bytes nt rt) \<inter> fresh m' w' = {}"

lemma tree_root: "tree_nodes nt mem d a = a # tl (tree_nodes nt mem d a)"
  by (cases d) simp_all

context block_queue_spec
begin

lemma bench_alloc_built:
  assumes nt: "node_type_ok nt" and pre: "alloc_pre c m w"
    and run: "bench_alloc fuel p I no_barrier nt m w = Some (Inr (a, m', w'))"
  shows "built c nt 0 m w a m' w' \<and> wd_mem w' = wd_mem w"
proof -
  have ly: "layout_ok (nt_layout nt)" "0 < unat (ly_size (nt_layout nt))" "unat (ly_align (nt_layout nt)) = 8"
    using nt by (auto simp: node_type_ok_def)
  from run obtain w1 where al: "alloc fuel p I no_barrier (nt_layout nt) m w = Some (Inr (a, m', w1))"
    and io: "init_object p m' w1 a 195 = Inr w'" by (auto simp: bench_alloc_def)
  note good = quiet.alloc_placed [OF ly(1,2) pre al]
  have pl: "8 dvd addr_nat a" "sp_start (wd_space w1) \<le> a"
    "addr_nat a + unat (ly_size (nt_layout nt)) \<le> addr_nat (sp_end (wd_space w1))"
    using good ly(3) by (simp_all add: alloc_good_def placed_def)
  have frame: "heap_frame w w1" and st: "ml_space_start m' = sp_start (wd_space w1)"
    using good by (auto simp: alloc_good_def mut_ok_def)
  then have starts: "sp_start (wd_space w1) = sp_start (wd_space w)" by (simp add: heap_frame_def)
  have tb: "tables_ok (wd_space w1)" using good pool_ok_tables by (auto simp: alloc_good_def)
  have data: "wd_mem w1 = wd_mem w" "sp_alloc_map (wd_space w1) = sp_alloc_map (wd_space w)"
    using alloc_quiet_keeps [of w fuel p I "nt_layout nt" m] al by (simp_all add: keeps_data_def)
  let ?i = "(addr_nat a - addr_nat (sp_start (wd_space w1))) div 8"
  let ?bs = "(am_cells (sp_alloc_map (wd_space w1)))[?i := 195]"
  have w': "w' = with_bytes ?bs w1" and len: "?i < length (am_cells (sp_alloc_map (wd_space w1)))"
    using init_object_effect [OF io] pl(2) st by simp_all
  have fresh: "byte_fresh m w x" if "x \<in> node_bytes nt a" for x
    using alloc_fresh [OF ly(1) pre, of fuel p] al that by (auto simp: fresh_call_def)
  have mono: "byte_fresh m w x" if "byte_fresh m' w1 x" for x
    using alloc_fresh [OF ly(1) pre, of fuel p] al that unfolding fresh_call_def by blast
  have used: "\<not> byte_fresh m' w1 x" if "x \<in> node_bytes nt a" for x
    using object_not_fresh [OF good, of x] that by simp
  have "alloc_pre c m' w1"
    using good pre user_space_frame [OF frame] by (simp add: alloc_pre_def alloc_good_def)
  then have pre': "alloc_pre c m' w'" unfolding w' by (intro alloc_pre_bytes) simp_all
  have ok: "node_ok nt w' a" using pl len by (simp add: node_ok_def w' ref_byte_def)
  have "ref_byte (wd_space w') (to_object_reference b) = ref_byte (wd_space w) (to_object_reference b)"
    if b: "8 dvd addr_nat b" "sp_start (wd_space w) \<le> b" "\<not> byte_fresh m w (addr_nat b)" for b
  proof -
    have "addr_nat b \<noteq> addr_nat a" using fresh [of "addr_nat a"] ly(2) b(3) by auto
    then have "(addr_nat b - addr_nat (sp_start (wd_space w1))) div 8 \<noteq> ?i"
      using slot_inject [OF b(1) pl(1), of "sp_start (wd_space w1)"] b(2) pl(2) tb starts
      by (auto simp: tables_ok_def intro: dvd_trans [of 8 "2 ^ 19"])
    then show ?thesis by (simp add: w' ref_byte_def starts data)
  qed
  then have "data_frame m w w'" using frame data by (simp add: changes_def w')
  then show ?thesis
    using pre' ok fresh used mono data by (simp add: built_def separate_def w')
qed

lemma built_node:
  assumes nt: "node_type_ok nt"
    and left: "built c nt d m w lt m1 w1" and right: "built c nt d m1 w1 rt m2 w2"
    and run: "bench_alloc fuel p I no_barrier nt m2 w2 = Some (Inr (a, m3, w3))"
  shows "built c nt (Suc d) m w a m3 (init_Node nt a lt rt w3)" (is "built _ _ _ _ _ _ _ ?w4")
proof -
  have pre2: "alloc_pre c m2 w2" using right by (simp add: built_def)
  note top = bench_alloc_built [OF nt pre2 run]
  have a: "node_ok nt w3 a" "\<forall>x\<in>node_bytes nt a. byte_fresh m2 w2 x \<and> \<not> byte_fresh m3 w3 x"
    using top by (simp_all add: built_def)
  have us: "user_space (wd_space w1)" "user_space (wd_space w2)" "user_space (wd_space w3)"
    using left right top by (auto simp: built_def alloc_pre_def)
  have mono: "byte_fresh m1 w1 x \<Longrightarrow> byte_fresh m w x" "byte_fresh m2 w2 x \<Longrightarrow> byte_fresh m1 w1 x"
    "byte_fresh m3 w3 x \<Longrightarrow> byte_fresh m2 w2 x" for x
    using left right top by (auto simp: built_def)
  have fr: "data_frame m w w1" "data_frame m1 w1 w2" "data_frame m2 w2 w3"
    using left right top by (simp_all add: built_def)
  have f24: "data_frame m2 w2 ?w4" using init_Node_frame [OF nt a(1) us(3) fr(3)] a(2) by blast
  have f14: "data_frame m1 w1 ?w4" by (rule data_frame_trans [OF fr(2) f24 mono(2)])
  let ?L = "tree_nodes nt (wd_mem w1) d lt" and ?R = "tree_nodes nt (wd_mem w2) d rt"
  have L: "\<forall>n\<in>set ?L. node_ok nt w1 n \<and> (\<forall>x\<in>node_bytes nt n. byte_fresh m w x \<and> \<not> byte_fresh m1 w1 x)"
    and R: "\<forall>n\<in>set ?R. node_ok nt w2 n \<and> (\<forall>x\<in>node_bytes nt n. byte_fresh m1 w1 x \<and> \<not> byte_fresh m2 w2 x)"
    and sep: "separate nt ?L" "separate nt ?R"
    using left right by (simp_all add: built_def)
  have trees: "tree_nodes nt (wd_mem ?w4) d lt = ?L" "tree_nodes nt (wd_mem ?w4) d rt = ?R"
    using L R by (intro tree_survives [OF nt us(1) f14] tree_survives [OF nt us(2) f24]; blast)+
  have nodes: "tree_nodes nt (wd_mem ?w4) (Suc d) a = a # ?L @ ?R"
    using trees by (simp add: init_Node_loads [OF nt])
  have size: "0 < unat (ly_size (nt_layout nt))" using nt by (auto simp: node_type_ok_def)
  have "node_bytes nt a \<inter> node_bytes nt n = {}" if "n \<in> set ?L \<union> set ?R" for n
    using that L R a(2) mono(2) by blast
  moreover have "node_bytes nt n \<inter> node_bytes nt n' = {}" if "n \<in> set ?L" "n' \<in> set ?R" for n n'
    using that L R by blast
  ultimately have "separate nt (a # ?L @ ?R)"
    using sep unfolding separate_def sorted_wrt.simps sorted_wrt_append by auto
  moreover have "node_ok nt ?w4 n \<and> (\<forall>x\<in>node_bytes nt n. byte_fresh m w x \<and> \<not> byte_fresh m3 w3 x)"
    if n: "n \<in> set (a # ?L @ ?R)" for n
  proof -
    consider "n = a" | "n \<in> set ?L" | "n \<in> set ?R" using n by auto
    then show ?thesis
    proof cases
      case 1
      then show ?thesis using a mono by (auto simp: node_ok_def init_Node_def store_at_def)
    next
      case 2
      then have "node_ok nt ?w4 n" using L size by (intro node_ok_survives [OF _ f14]) auto
      then show ?thesis using L 2 mono by blast
    next
      case 3
      then have "node_ok nt ?w4 n" using R size by (intro node_ok_survives [OF _ f24]) auto
      then show ?thesis using R 3 mono by blast
    qed
  qed
  moreover have "alloc_pre c m3 ?w4" using top by (simp add: built_def)
  moreover have "data_frame m w ?w4" by (rule data_frame_trans [OF fr(1) f14 mono(1)])
  ultimately show ?thesis using mono unfolding built_def nodes by simp
qed

lemma Populate_children:
  assumes nt: "node_type_ok nt" and pre: "alloc_pre c m w"
    and a: "node_ok nt w a" "node_bytes nt a \<inter> fresh m w = {}"
    and l: "bench_alloc fuel p I no_barrier nt m w = Some (Inr (lt, m1, w1))"
    and rr: "bench_alloc fuel p I no_barrier nt m1 (store_at a (nt_left nt) lt w1) = Some (Inr (rt, m2, w2))"
  shows "two_children c nt m w a lt rt m2 (store_at a (nt_right nt) rt w2)"
proof -
  let ?w1 = "store_at a (nt_left nt) lt w1" and ?w2 = "store_at a (nt_right nt) rt w2"
  have sz: "unat (nt_left nt) < unat (ly_size (nt_layout nt))" "unat (nt_right nt) < unat (ly_size (nt_layout nt))"
    "nt_left nt \<noteq> nt_right nt" "0 < unat (ly_size (nt_layout nt))"
    using nt by (auto simp: node_type_ok_def)
  note L = bench_alloc_built [OF nt pre l]
  have pre1: "alloc_pre c m1 ?w1" using L by (simp add: built_def)
  note R = bench_alloc_built [OF nt pre1 rr]
  have lt: "node_ok nt w1 lt" "node_bytes nt lt \<subseteq> fresh m w" "node_bytes nt lt \<inter> fresh m1 w1 = {}"
    and f1: "data_frame m w w1" "fresh m1 w1 \<subseteq> fresh m w"
    using L by (auto simp: built_def)
  have rt: "node_ok nt w2 rt" "node_bytes nt rt \<subseteq> fresh m1 w1" "node_bytes nt rt \<inter> fresh m2 w2 = {}"
    and f2: "changes (fresh m1 w1) (fresh m1 w1) ?w1 w2" "fresh m2 w2 \<subseteq> fresh m1 w1" and pre2: "alloc_pre c m2 w2"
    using R by (auto simp: built_def)
  have us: "user_space (wd_space w1)" "user_space (wd_space w2)" using L pre2 by (simp_all add: built_def alloc_pre_def)
  have head: "addr_nat b \<in> node_bytes nt b" for b using sz(4) by simp
  have a1: "node_ok nt w1 a" using node_ok_survives [OF a(1) f1(1)] a(2) head [of a] by blast
  have old: "addr_nat lt \<notin> fresh m1 w1" "addr_nat a \<notin> fresh m1 w1" using lt(3) a(2) f1(2) head by blast+
  have lt2: "node_ok nt w2 lt" using node_ok_survives [OF _ f2(1) old(1)] lt(1) by simp
  have a2: "node_ok nt w2 a" using node_ok_survives [OF _ f2(1) old(2)] a1 by simp
  have "changes (fresh m w \<union> node_bytes nt a) (fresh m w) w ?w1"
    by (rule changes_trans [OF f1(1) store_changes [OF a1 us(1) sz(1)]]) auto
  then have "changes (fresh m w \<union> node_bytes nt a) (fresh m w) w w2"
    by (rule changes_trans [OF _ f2(1)]) (use f1(2) in auto)
  then have ch: "changes (fresh m w \<union> node_bytes nt a) (fresh m w) w ?w2"
    by (rule changes_trans [OF _ store_changes [OF a2 us(2) sz(2)]]) auto
  have "wd_mem w2 (as_usize a + nt_left nt) = wd_mem ?w1 (as_usize a + nt_left nt)"
    using a1 us(1) a(2) f1(2) by (intro node_survives(1) [OF nt _ f2(1)]) auto
  then have "wd_mem ?w2 (as_usize a + nt_left nt) = as_usize lt" using sz(3) by (simp add: store_at_def)
  moreover have "wd_mem ?w2 (as_usize a + nt_right nt) = as_usize rt" by (simp add: store_at_def)
  moreover have "fresh m2 w2 \<subseteq> fresh m w" "node_bytes nt lt \<inter> node_bytes nt rt = {}"
    "node_bytes nt lt \<union> node_bytes nt rt \<subseteq> fresh m w"
    "(node_bytes nt lt \<union> node_bytes nt rt) \<inter> fresh m2 w2 = {}"
    using rt(2,3) lt(2,3) f1(2) f2(2) by blast+
  ultimately show ?thesis
    using ch pre2 a2 lt2 rt(1) unfolding two_children_def store_at_sel by blast
qed

lemma grown_join:
  assumes nt: "node_type_ok nt" and a: "node_bytes nt a \<inter> fresh m w = {}"
    and two: "two_children c nt m w a lt rt m2 w2"
    and gl: "grown c nt d m2 w2 lt m3 w3" and gr: "grown c nt d m3 w3 rt m4 w4"
  shows "grown c nt (Suc d) m w a m4 w4"
proof -
  let ?L = "tree_nodes nt (wd_mem w3) d lt" and ?R = "tree_nodes nt (wd_mem w4) d rt"
  have t: "changes (fresh m w \<union> node_bytes nt a) (fresh m w) w w2" "fresh m2 w2 \<subseteq> fresh m w"
    "node_ok nt w2 a" "node_ok nt w2 lt" "node_ok nt w2 rt" "node_bytes nt lt \<inter> node_bytes nt rt = {}"
    "node_bytes nt lt \<union> node_bytes nt rt \<subseteq> fresh m w" "(node_bytes nt lt \<union> node_bytes nt rt) \<inter> fresh m2 w2 = {}"
    and words: "wd_mem w2 (as_usize a + nt_left nt) = as_usize lt" "wd_mem w2 (as_usize a + nt_right nt) = as_usize rt"
    and us2: "user_space (wd_space w2)" using two by (simp_all add: two_children_def alloc_pre_def)
  have l: "changes (fresh m2 w2 \<union> node_bytes nt lt) (fresh m2 w2) w2 w3" "fresh m3 w3 \<subseteq> fresh m2 w2"
    "\<forall>n\<in>set (tl ?L). node_ok nt w3 n \<and> node_bytes nt n \<subseteq> fresh m2 w2 \<and> node_bytes nt n \<inter> fresh m3 w3 = {}"
    and sepl: "separate nt ?L" and us3: "user_space (wd_space w3)"
    using gl by (simp_all add: grown_def alloc_pre_def)
  have r': "changes (fresh m3 w3 \<union> node_bytes nt rt) (fresh m3 w3) w3 w4" "fresh m4 w4 \<subseteq> fresh m3 w3"
    "\<forall>n\<in>set (tl ?R). node_ok nt w4 n \<and> node_bytes nt n \<subseteq> fresh m3 w3 \<and> node_bytes nt n \<inter> fresh m4 w4 = {}"
    and sepr: "separate nt ?R" and pre: "alloc_pre c m4 w4"
    using gr by (simp_all add: grown_def)
  have head: "addr_nat b \<in> node_bytes nt b" for b using nt by (auto simp: node_type_ok_def)
  have out: "addr_nat b \<notin> fresh m2 w2" "addr_nat b \<notin> fresh m3 w3" if "b \<in> {a, lt, rt}" for b
    using that a t(2,8) l(2) head [of b] by blast+
  have ok3: "node_ok nt w3 b" if "b \<in> {a, lt, rt}" for b
    using that t(3-5) out(1) [OF that] by (intro node_ok_survives [OF _ l(1)]) auto
  have ok4: "node_ok nt w4 b" if "b \<in> {a, lt, rt}" for b
    using ok3 [OF that] out(2) [OF that] by (intro node_ok_survives [OF _ r'(1)]) auto
  have apart: "node_bytes nt a \<inter> (node_bytes nt lt \<union> node_bytes nt rt) = {}" using a t(7) by blast
  have Lok: "node_ok nt w3 n \<and> (n = lt \<or> node_bytes nt n \<subseteq> fresh m2 w2) \<and> node_bytes nt n \<inter> fresh m3 w3 = {}"
    if "n \<in> set ?L" for n
  proof -
    have "n = lt \<or> n \<in> set (tl ?L)" using that by (subst (asm) tree_root) auto
    then show ?thesis using l(2,3) ok3 [of lt] t(8) by blast
  qed
  have Rok: "node_ok nt w4 n \<and> (n = rt \<or> node_bytes nt n \<subseteq> fresh m3 w3) \<and> node_bytes nt n \<inter> fresh m4 w4 = {}"
    if "n \<in> set ?R" for n
  proof -
    have "n = rt \<or> n \<in> set (tl ?R)" using that by (subst (asm) tree_root) auto
    then show ?thesis using r'(2,3) ok4 [of rt] t(8) l(2) by blast
  qed
  have Lrt: "node_bytes nt n \<inter> node_bytes nt rt = {}" if "n \<in> set ?L" for n using Lok [OF that] t(6,8) by blast
  have L4: "node_ok nt w4 n" if "n \<in> set ?L" for n
  proof -
    have "addr_nat n \<notin> fresh m3 w3" using Lok [OF that] head [of n] by blast
    then show ?thesis using Lok [OF that] node_ok_survives [OF _ r'(1)] by blast
  qed
  have treeL: "tree_nodes nt (wd_mem w4) d lt = ?L"
    using Lok Lrt by (intro tree_survives [OF nt us3 r'(1)]) blast
  have "node_bytes nt a \<inter> (fresh m2 w2 \<union> node_bytes nt lt) = {}" "node_bytes nt a \<inter> (fresh m3 w3 \<union> node_bytes nt rt) = {}"
    using a t(2) l(2) apart by blast+
  then have nodes: "tree_nodes nt (wd_mem w4) (Suc d) a = a # ?L @ ?R"
    using node_survives [OF nt us2 l(1) t(3)] node_survives [OF nt us3 r'(1) ok3 [of a]] words treeL by simp
  have aL: "node_bytes nt a \<inter> node_bytes nt n = {}" if "n \<in> set ?L \<union> set ?R" for n
    using that Lok Rok apart a t(2) l(2) by blast
  have LR: "node_bytes nt n \<inter> node_bytes nt n' = {}" if "n \<in> set ?L" "n' \<in> set ?R" for n n'
    using Lok [OF that(1)] Rok [OF that(2)] Lrt [OF that(1)] by blast
  have sep: "separate nt (a # ?L @ ?R)"
    unfolding separate_def sorted_wrt.simps sorted_wrt_append set_append
    by (intro conjI ballI aL LR sepl [unfolded separate_def] sepr [unfolded separate_def])
  have "node_ok nt w4 n \<and> node_bytes nt n \<subseteq> fresh m w \<and> node_bytes nt n \<inter> fresh m4 w4 = {}"
    if "n \<in> set ?L \<union> set ?R" for n
    using that L4 Lok Rok t(2,7) l(2) r'(2) by blast
  moreover have "changes (fresh m w \<union> node_bytes nt a) (fresh m w) w w3"
    by (rule changes_trans [OF t(1) l(1)]) (use t(2,7) in blast)+
  then have "changes (fresh m w \<union> node_bytes nt a) (fresh m w) w w4"
    by (rule changes_trans [OF _ r'(1)]) (use t(2,7) l(2) in blast)+
  moreover have "fresh m4 w4 \<subseteq> fresh m w" using t(2) l(2) r'(2) by blast
  ultimately show ?thesis using pre sep unfolding grown_def nodes by simp
qed

lemma Populate_grown:
  assumes nt: "node_type_ok nt" and "alloc_pre c m w" and "node_ok nt w a" "node_bytes nt a \<inter> fresh m w = {}"
    and "Populate fuel p I no_barrier nt iDepth a m w = Some (Inr (m', w'))"
  shows "grown c nt (nat iDepth) m w a m' w'"
  using assms(2-)
proof (induction "nat iDepth" arbitrary: iDepth a m w m' w')
  case 0
  then have "m' = m" "w' = w" by (simp_all add: Populate.simps)
  then show ?case using 0 by (simp add: grown_def separate_def changes_def)
next
  case (Suc d)
  then have d: "\<not> iDepth \<le> 0" "d = nat (iDepth - 1)" by simp_all
  note runs = Suc(6) [unfolded Populate.simps [of fuel p I no_barrier nt iDepth] Let_def]
  from runs d(1) obtain lt m1 w1 rt m2 w2 where
    l: "bench_alloc fuel p I no_barrier nt m w = Some (Inr (lt, m1, w1))" and
    rr: "bench_alloc fuel p I no_barrier nt m1 (store_at a (nt_left nt) lt w1) = Some (Inr (rt, m2, w2))"
    by (auto split: prod.splits)
  let ?w2 = "store_at a (nt_right nt) rt w2"
  from runs d(1) l rr obtain m3 w3 where
    pl: "Populate fuel p I no_barrier nt (iDepth - 1) (load_at a (nt_left nt) ?w2) m2 ?w2 = Some (Inr (m3, w3))" and
    pr: "Populate fuel p I no_barrier nt (iDepth - 1) (load_at a (nt_right nt) w3) m3 w3 = Some (Inr (m', w'))"
    by auto
  note two = Populate_children [OF nt Suc(3-5) l rr]
  then have t: "alloc_pre c m2 ?w2" "fresh m2 ?w2 \<subseteq> fresh m w" "node_ok nt ?w2 a" "node_ok nt ?w2 lt" "node_ok nt ?w2 rt"
    "node_bytes nt lt \<inter> node_bytes nt rt = {}" "node_bytes nt lt \<union> node_bytes nt rt \<subseteq> fresh m w"
    "(node_bytes nt lt \<union> node_bytes nt rt) \<inter> fresh m2 ?w2 = {}"
    and words: "load_at a (nt_left nt) ?w2 = lt" "wd_mem ?w2 (as_usize a + nt_right nt) = as_usize rt"
    by (simp_all add: two_children_def load_at_def)
  have gl: "grown c nt d m2 ?w2 lt m3 w3"
    using Suc(1) [OF d(2) t(1,4) _ pl [unfolded words(1)]] t(8) d(2) by blast
  then have l3: "alloc_pre c m3 w3" "changes (fresh m2 ?w2 \<union> node_bytes nt lt) (fresh m2 ?w2) ?w2 w3"
    "fresh m3 w3 \<subseteq> fresh m2 ?w2" by (simp_all add: grown_def)
  have us: "user_space (wd_space ?w2)" using t(1) by (simp add: alloc_pre_def)
  have "node_bytes nt a \<inter> (fresh m2 ?w2 \<union> node_bytes nt lt) = {}" using Suc(5) t(2,7) by blast
  from node_survives(2) [OF nt us l3(2) t(3) this] words(2)
  have load: "load_at a (nt_right nt) w3 = rt" by (simp add: load_at_def)
  have "0 < unat (ly_size (nt_layout nt))" using nt by (auto simp: node_type_ok_def)
  then have "addr_nat rt \<in> node_bytes nt rt" by simp
  then have "addr_nat rt \<notin> fresh m2 ?w2" using t(8) by blast
  from node_ok_survives [OF t(5) l3(2) this] have rt: "node_ok nt w3 rt" .
  have "grown c nt d m3 w3 rt m' w'"
    using Suc(1) [OF d(2) l3(1) rt _ pr [unfolded load]] t(8) l3(3) d(2) by blast
  from grown_join [OF nt Suc(5) two gl this] Suc(2) show ?case by simp
qed

text \<open>A node and what \<open>Populate\<close> grows below it are a complete tree.\<close>

lemma grow_built:
  assumes nt: "node_type_ok nt" and pre: "alloc_pre c m w"
    and al: "bench_alloc fuel p I no_barrier nt m w = Some (Inr (a, m1, w1))"
    and run: "Populate fuel p I no_barrier nt iDepth a m1 w1 = Some (Inr (m', w'))"
  shows "built c nt (nat iDepth) m w a m' w'"
proof -
  note top = bench_alloc_built [OF nt pre al]
  have a: "alloc_pre c m1 w1" "node_ok nt w1 a" "node_bytes nt a \<subseteq> fresh m w" "node_bytes nt a \<inter> fresh m1 w1 = {}"
    "data_frame m w w1" "fresh m1 w1 \<subseteq> fresh m w"
    using top by (auto simp: built_def)
  from Populate_grown [OF nt a(1,2,4) run] have
    g: "alloc_pre c m' w'" "changes (fresh m1 w1 \<union> node_bytes nt a) (fresh m1 w1) w1 w'" "fresh m' w' \<subseteq> fresh m1 w1"
      "separate nt (tree_nodes nt (wd_mem w') (nat iDepth) a)"
    and nodes: "\<forall>n\<in>set (tl (tree_nodes nt (wd_mem w') (nat iDepth) a)). node_ok nt w' n \<and>
        node_bytes nt n \<subseteq> fresh m1 w1 \<and> node_bytes nt n \<inter> fresh m' w' = {}"
    by (simp_all add: grown_def)
  have "data_frame m w w'" by (rule changes_trans [OF a(5) g(2)]) (use a(3,6) in blast)+
  have "0 < unat (ly_size (nt_layout nt))" using nt by (auto simp: node_type_ok_def)
  then have "addr_nat a \<in> node_bytes nt a" by simp
  then have "addr_nat a \<notin> fresh m1 w1" using a(4) by blast
  from node_ok_survives [OF a(2) g(2) this] have ok: "node_ok nt w' a" .
  have "node_ok nt w' n \<and> node_bytes nt n \<subseteq> fresh m w \<and> node_bytes nt n \<inter> fresh m' w' = {}"
    if "n \<in> set (tree_nodes nt (wd_mem w') (nat iDepth) a)" for n
  proof -
    have "n = a \<or> n \<in> set (tl (tree_nodes nt (wd_mem w') (nat iDepth) a))" using that by (subst (asm) tree_root) auto
    then show ?thesis using ok nodes a(3,4,6) g(3) by blast
  qed
  then show ?thesis using g(1,3,4) a(6) \<open>data_frame m w w'\<close> unfolding built_def by blast
qed


lemma MakeTree_built:
  assumes nt: "node_type_ok nt" and "alloc_pre c m w"
    and "MakeTree fuel p I no_barrier nt iDepth m w = Some (Inr (a, m', w'))"
  shows "built c nt (nat iDepth) m w a m' w'"
  using assms(2,3)
proof (induction "nat iDepth" arbitrary: iDepth m w a m' w')
  case 0
  then show ?case using bench_alloc_built [OF nt 0(2), of fuel p a m' w'] by (simp add: MakeTree.simps)
next
  case (Suc d)
  then have d: "\<not> iDepth \<le> 0" "d = nat (iDepth - 1)" by simp_all
  from Suc(4) d(1) obtain lt m1 w1 rt m2 w2 w3 where
    run: "MakeTree fuel p I no_barrier nt (iDepth - 1) m w = Some (Inr (lt, m1, w1))"
      "MakeTree fuel p I no_barrier nt (iDepth - 1) m1 w1 = Some (Inr (rt, m2, w2))"
      "bench_alloc fuel p I no_barrier nt m2 w2 = Some (Inr (a, m', w3))"
    and w': "w' = init_Node nt a lt rt w3"
    by (subst (asm) MakeTree.simps) auto
  have left: "built c nt d m w lt m1 w1" using Suc(1) [OF d(2) Suc(3) run(1)] d(2) by simp
  then have "alloc_pre c m1 w1" by (simp add: built_def)
  from Suc(1) [OF d(2) this run(2)] d(2) have right: "built c nt d m1 w1 rt m2 w2" by simp
  from built_node [OF nt left right run(3)] Suc(2) w' show ?case by simp
qed

end

lemma tree_count:
  assumes "0 \<le> i" "i \<le> 29"
  shows "TreeSize p i = Inr (int (length (tree_nodes nt mem (nat i) a)))"
proof -
  have "int (length (tree_nodes nt mem (nat i) a)) + 1 = 2 ^ (nat i + 1)"
    using length_tree_nodes [of nt mem "nat i" a] by (metis of_nat_1 of_nat_add of_nat_numeral of_nat_power)
  moreover have "nat (i + 1) = nat i + 1" using assms(1) by simp
  ultimately show ?thesis using TreeSize_ok [OF assms] by simp
qed

text \<open>The byte \<open>0b1100_0011\<close> tells the trace that the references are at offsets 0 and 8.\<close>

lemma node_offsets: "ref_byte sp r = 195 \<Longrightarrow> obj_offsets sp r = [0, 8]"
  by (simp add: obj_offsets_def ref_offsets_def)

lemma node_succ:
  assumes "ref_byte sp r = 195" and "v \<in> followed sp mem r"
  shows "v = ObjectReference (mem (oref_as_usize r)) \<or> v = ObjectReference (mem (oref_as_usize r + 8))"
  using assms(2) by (auto simp: followed_def obj_fields_def node_offsets [OF assms(1)])

text \<open>The node type of \<open>mt_gcbench.rs\<close> has a header in front of its references: the trace
  follows the header and the left child, and never the right child at offset 16, unless the
  same reference is stored there too.\<close>

lemma mt_right_child_not_traced:
  assumes "node_ok mt_Node w a" and "v \<in> followed (wd_space w) mem (to_object_reference a)"
  shows "v = ObjectReference (mem (as_usize a)) \<or> v = ObjectReference (mem (as_usize a + nt_left mt_Node))"
  using node_succ [OF _ assms(2)] assms(1) by (simp add: node_ok_def mt_Node_def to_object_reference_def)

end
