(* ===== verification/Example_Tree.thy ===== *)
theory Example_Tree
  imports Example_Heap Gcbench
begin

text \<open>The smallest tree of the benchmark, built in the hole of the example mutator.\<close>

lemma mt_Node_ok: "node_type_ok mt_Node"
  by (simp add: node_type_ok_def mt_Node_def layout_ok_def) (rule exI [of _ 3], simp)

lemma ex_bench_alloc:
  assumes "n = 0 \<or> n = 32 \<or> n = 64" and "length (am_cells (sp_alloc_map (wd_space w))) = 8192"
  shows "\<exists>bs. length bs = 8192 \<and>
    bench_alloc 0 Debug (fifo_ops 0) no_barrier mt_Node (ex_bumping\<lparr>ml_cursor := Address (524288 + n)\<rparr>) w =
      Some (Inr (Address (524288 + n), ex_bumping\<lparr>ml_cursor := Address (524320 + n)\<rparr>, with_bytes bs w))"
proof -
  have ly: "nt_layout mt_Node = ex_layout" by (simp add: mt_Node_def ex_layout_def)
  show ?thesis
    using assms ex_bump [OF assms(1), of 0 "fifo_ops 0" no_barrier w]
    by (auto simp: bench_alloc_def ly init_object_def diff_def usize_sub_def ex_bumping_def address_order
        with_bytes_def POINTER_SIZE_def Let_def
        intro!: exI [of _ "(am_cells (sp_alloc_map (wd_space w)))[unat n div 8 := 195]"])
qed

lemma ex_tree:
  "\<exists>m' w'. MakeTree 0 Debug (fifo_ops 0) no_barrier mt_Node 1 ex_bumping ex_claimed = Some (Inr (Address 524352, m', w'))"
proof -
  have start: "ex_bumping = ex_bumping\<lparr>ml_cursor := Address (524288 + 0)\<rparr>"
    by (simp add: ex_bumping_def ex_start_def)
  obtain b1 where b1: "length b1 = 8192" "bench_alloc 0 Debug (fifo_ops 0) no_barrier mt_Node ex_bumping ex_claimed =
      Some (Inr (Address 524288, ex_bumping\<lparr>ml_cursor := Address 524320\<rparr>, with_bytes b1 ex_claimed))"
    using ex_bench_alloc [of 0 ex_claimed] start by auto
  obtain b2 where b2: "length b2 = 8192"
    "bench_alloc 0 Debug (fifo_ops 0) no_barrier mt_Node (ex_bumping\<lparr>ml_cursor := Address 524320\<rparr>) (with_bytes b1 ex_claimed) =
      Some (Inr (Address 524320, ex_bumping\<lparr>ml_cursor := Address 524352\<rparr>, with_bytes b2 (with_bytes b1 ex_claimed)))"
    using ex_bench_alloc [of 32 "with_bytes b1 ex_claimed"] b1(1) by auto
  obtain b3 where "bench_alloc 0 Debug (fifo_ops 0) no_barrier mt_Node (ex_bumping\<lparr>ml_cursor := Address 524352\<rparr>)
      (with_bytes b2 (with_bytes b1 ex_claimed)) =
      Some (Inr (Address 524352, ex_bumping\<lparr>ml_cursor := Address 524384\<rparr>, with_bytes b3 (with_bytes b2 (with_bytes b1 ex_claimed))))"
    using ex_bench_alloc [of 64 "with_bytes b2 (with_bytes b1 ex_claimed)"] b2(1) by auto
  with b1 b2 show ?thesis by (simp add: MakeTree.simps)
qed

lemma ex_populate:
  "\<exists>m1 w1 m' w'. bench_alloc 0 Debug (fifo_ops 0) no_barrier mt_Node ex_bumping ex_claimed = Some (Inr (Address 524288, m1, w1)) \<and>
    Populate 0 Debug (fifo_ops 0) no_barrier mt_Node 1 (Address 524288) m1 w1 = Some (Inr (m', w'))"
proof -
  have start: "ex_bumping = ex_bumping\<lparr>ml_cursor := Address (524288 + 0)\<rparr>"
    by (simp add: ex_bumping_def ex_start_def)
  obtain b1 where b1: "length b1 = 8192" "bench_alloc 0 Debug (fifo_ops 0) no_barrier mt_Node ex_bumping ex_claimed =
      Some (Inr (Address 524288, ex_bumping\<lparr>ml_cursor := Address 524320\<rparr>, with_bytes b1 ex_claimed))"
    using ex_bench_alloc [of 0 ex_claimed] start by auto
  obtain b2 where b2: "length b2 = 8192"
    "bench_alloc 0 Debug (fifo_ops 0) no_barrier mt_Node (ex_bumping\<lparr>ml_cursor := Address 524320\<rparr>) (with_bytes b1 ex_claimed) =
      Some (Inr (Address 524320, ex_bumping\<lparr>ml_cursor := Address 524352\<rparr>, with_bytes b2 (with_bytes b1 ex_claimed)))"
    using ex_bench_alloc [of 32 "with_bytes b1 ex_claimed"] b1(1) by auto
  let ?w = "store_at (Address 524288) (nt_left mt_Node) (Address 524320) (with_bytes b2 (with_bytes b1 ex_claimed))"
  obtain b3 where "bench_alloc 0 Debug (fifo_ops 0) no_barrier mt_Node (ex_bumping\<lparr>ml_cursor := Address 524352\<rparr>) ?w =
      Some (Inr (Address 524352, ex_bumping\<lparr>ml_cursor := Address 524384\<rparr>, with_bytes b3 ?w))"
    using ex_bench_alloc [of 64 ?w] b2(1) by auto
  then show ?thesis using b1(2) b2(2) by (simp add: Populate.simps)
qed

end
