(* ===== verification/Alone.thy ===== *)
theory Alone
  imports Gc
begin

text \<open>
  A mutator that has the heap to itself (\<open>solo\<close>) keeps it: every allocation, with the collections
  it triggers, comes to an end and leaves the mutator in a state from which the next one does.
  The programs that use the library are sequences of such calls.
\<close>

section \<open>Computations that end\<close>

text \<open>\<open>ends r Q\<close>: the computation is over, and a value it returns satisfies \<open>Q\<close>.\<close>

definition ends :: "'a res option \<Rightarrow> ('a \<Rightarrow> bool) \<Rightarrow> bool" where
  "ends r Q \<longleftrightarrow> (\<exists>res. r = Some res \<and> (\<forall>x. res = Inr x \<longrightarrow> Q x))"

lemma ends_simps [simp]:
  "ends (Some (Inr x)) Q \<longleftrightarrow> Q x" "ends (Some (Inl e)) Q" "\<not> ends None Q"
  by (simp_all add: ends_def)

lemma ends_bind:
  assumes "ends r P" and "\<And>x. P x \<Longrightarrow> ends (f x) Q"
  shows "ends (bind_ro r f) Q"
  using assms by (auto simp: ends_def bind_ro_def split: option.splits sum.splits)

lemma ends_pure: "(\<And>x. r = Inr x \<Longrightarrow> Q x) \<Longrightarrow> ends (Some r) Q"
  by (simp add: ends_def)

lemma ends_weaken: "ends r P \<Longrightarrow> (\<And>x. P x \<Longrightarrow> Q x) \<Longrightarrow> ends r Q"
  by (auto simp: ends_def)

section \<open>Allocation keeps a mutator alone\<close>

lemma next_hole_outside:
  assumes tb: "tables_ok (wd_space w)" and b: "ml_block m = Some b" "block_wf (wd_space w) b"
    and run: "next_hole p m (wd_cells w) = Inr (Some (m', tbl'))"
    and j: "j \<notin> block_lines b" "j < length (wd_cells w)"
  shows "tbl' ! j = wd_cells w ! j"
proof -
  have ok: "slice_ok (ib_lines b) (wd_cells w)" "sl_len (ib_lines b) = 256"
    using block_wf_slice_ok [OF tb b(2)] b(2) by (simp_all add: block_wf_def)
  from run b(1) have "ml_line m < 256"
    by (auto simp: next_hole_def LINES_IN_BLOCK_def LOG_BYTES_IN_BLOCK_def LOG_BYTES_IN_LINE_def split: if_splits)
  with run b(1) obtain n where n: "get_next_available_line p (ib_lines b) (wd_cells w) (ml_line m) = Inr (Some n)"
    "open_hole p m b (wd_cells w) n = Inr (m', tbl')"
    by (auto simp: next_hole_def block_of_def block_get_next_available_line_def split: option.splits if_splits)
  from next_available_spec [OF ok(1), of p "ml_line m"] n(1) ok(2)
  have "n < 256" "slice_line (ib_lines b) (wd_cells w) n = Free" by auto
  from open_hole_ok [OF tb b(2) this, of p m] n(2) obtain e where
    "tbl' = write_slots {sl_ptr (ib_lines b) + k |k. n \<le> k \<and> k < e} FreshAlloc (wd_cells w)" "e \<le> 256" by auto
  then show ?thesis using j ok(2) by (auto simp: nth_write_slots block_lines_def)
qed

lemma usable_apart:
  assumes ok: "space_ok c (b # held) s" and u: "u \<in> set (c (sp_usable_blocks s))"
  shows "block_lines u \<inter> block_lines b = {}"
proof -
  have "mset (map ib_id (all_blocks c (b # held) s)) = mset [0..<sp_total_blocks s]" using ok by (simp add: space_ok_def)
  then have "distinct (map ib_id (all_blocks c (b # held) s))" by (metis mset_eq_imp_distinct_iff distinct_upt)
  then have "ib_id b \<notin> ib_id ` set (c (sp_usable_blocks s))" by (simp add: all_blocks_def)
  then have ne: "ib_id u \<noteq> ib_id b" using u imageI [of u _ ib_id] by metis
  have "block_wf s u" "block_wf s b" using ok u by (simp_all add: space_ok_def all_blocks_def)
  then have "block_lines u = {256 * ib_id u ..< 256 * ib_id u + 256}" "block_lines b = {256 * ib_id b ..< 256 * ib_id b + 256}"
    by (simp_all add: block_wf_def block_lines_def)
  then show ?thesis using ne by auto
qed

lemma solo_hole:
  assumes solo: "solo c m w" and run: "next_hole p m (wd_cells w) = Inr (Some (m', tbl'))"
    and claims: "only_claims (wd_cells w) tbl'" and sel: "ml_block m' = ml_block m" "ml_id m' = ml_id m"
  shows "solo c m' (with_cells w tbl')"
proof -
  have len: "length tbl' = length (wd_cells w)" using claims by (simp add: only_claims_def)
  obtain b where b: "ml_block m = Some b"
    using run by (cases "ml_block m") (auto simp: next_hole_def block_of_def split: if_splits)
  have ok: "space_ok c [b] (wd_space w)" using solo b by (simp add: solo_def held_by_def)
  then have tb: "tables_ok (wd_space w)" "block_wf (wd_space w) b" by (simp_all add: space_ok_def all_blocks_def)
  have "\<exists>k<256. slice_line (ib_lines u) tbl' k = Free" if u: "u \<in> set (c (sp_usable_blocks (wd_space w)))" for u
  proof -
    have wf: "block_wf (wd_space w) u" using ok u by (simp add: space_ok_def all_blocks_def)
    have sl: "slice_ok (ib_lines u) (wd_cells w)" "sl_len (ib_lines u) = 256"
      using block_wf_slice_ok [OF tb(1) wf] wf by (simp_all add: block_wf_def)
    from solo u obtain k where k: "k < 256" "slice_line (ib_lines u) (wd_cells w) k = Free"
      by (auto simp: solo_def usable_free_def)
    then have j: "sl_ptr (ib_lines u) + k \<in> block_lines u" using sl(2) by (simp add: block_lines_def)
    then have "sl_ptr (ib_lines u) + k \<notin> block_lines b" using usable_apart [OF ok u] by blast
    moreover have "sl_ptr (ib_lines u) + k < length (wd_cells w)" using k(1) sl by (simp add: slice_ok_def)
    ultimately show ?thesis using next_hole_outside [OF tb(1) b tb(2) run] k by auto
  qed
  then have "usable_free c (wd_space (with_cells w tbl'))" by (simp add: usable_free_def)
  then show ?thesis
    using solo sel b by (simp add: solo_def held_by_def space_ok_with_cells [OF len]) (simp add: with_cells_def)
qed

lemma solo_take:
  assumes laws: "injector_laws I c r" and solo: "solo c m w" and none: "ml_block m = None"
    and run: "fetch_block I w = Some (Some b, w')"
  shows "solo c (take_block m b) w'"
proof -
  let ?us = "c (sp_usable_blocks (wd_space w))"
  obtain q where q: "c q = tl ?us"
    "get_next_usable_block I (wd_space w) (wd_registry w) =
      Some (if ?us = [] then (None, (wd_space w)\<lparr>sp_usable_blocks := q\<rparr>, trigger_gc (wd_registry w))
            else (Some (hd ?us), (wd_space w)\<lparr>sp_usable_blocks := q\<rparr>, wd_registry w))"
    using get_next_usable_block_ok [OF laws] by blast
  have us: "?us \<noteq> []" "b = hd ?us" "w' = w\<lparr>wd_space := (wd_space w)\<lparr>sp_usable_blocks := q\<rparr>\<rparr>"
    using run q(2) by (auto simp: fetch_block_def split: if_splits)
  then have cons: "?us = b # tl ?us" by simp
  have "space_ok c [] (wd_space w)" using solo none by (simp add: solo_def held_by_def)
  from space_ok_take [OF this cons q(1)] have sp: "space_ok c [b] ((wd_space w)\<lparr>sp_usable_blocks := q\<rparr>)" .
  have "usable_free c ((wd_space w)\<lparr>sp_usable_blocks := q\<rparr>)"
    using solo q(1) us(1) by (auto simp: solo_def usable_free_def dest: list.set_sel(2))
  then show ?thesis using solo sp us(1,3) by (simp add: solo_def held_by_def take_block_def)
qed

lemma solo_barrier:
  assumes laws: "injector_laws I c r" and solo: "solo c m w" and none: "ml_block m = None"
    and yield: "take_yield (rg_globals (wd_registry w) (ml_id m))"
    and run: "sync_barrier p I sched env m w = Some (Inr (m', w'))"
  shows "solo c m' w'"
proof -
  let ?w0 = "w\<lparr>wd_controller := int (fst (ml_id m))\<rparr>"
  from sync_barrier_stages [OF run] obtain m1 w1 w2 where
    e: "enter_barrier p I env m ?w0 = Some (Inr (m1, w1))" and g: "gc p I sched w1 = Some (Inr w2)"
    and res: "m' = reset m1" "w' = (resume_mutators w2)\<lparr>wd_stw_count := 0\<rparr>" by blast
  have w1: "m1 = m" "wd_space w1 = wd_space w" "wd_registry w1 = wd_registry w"
    using e none by (auto simp: enter_barrier_def prepare_for_gc_def return_block_def)
  have ok: "space_ok c [] (wd_space w1)" "c (sp_usable_blocks (wd_space w1)) = []"
    using solo yield none by (auto simp: solo_def held_by_def w1)
  note fr = gc_frame [OF laws ok(1) g]
  have "usable_free c (wd_space w2)" using gc_supplies [OF laws ok g] by blast
  moreover have "wd_registry w2 = wd_registry w1" by (rule gc_stages [OF g]) simp
  moreover have "space_size (wd_space w2) = space_size (wd_space w)" using fr(2) w1(2) by (simp add: heap_frame_def)
  ultimately show ?thesis
    using solo fr(1) none w1 by (simp add: solo_def res resume_mutators_def held_by_def mutator_global_defs)
qed

definition keeps_solo :: "('q \<Rightarrow> immix_block list) \<Rightarrow> (address \<times> mutator_local \<times> 'q world) res option \<Rightarrow> bool" where
  "keeps_solo c res \<longleftrightarrow> (\<forall>a m' w'. res = Some (Inr (a, m', w')) \<longrightarrow> solo c m' w')"

lemma alloc_solo_if_try:
  assumes "solo c m w" and "keeps_solo c (try_alloc_from_local fuel p I slow ly m w)"
  shows "keeps_solo c (alloc fuel p I slow ly m w)"
  using assms by (cases "bump p m ly") (auto simp: alloc.simps keeps_solo_def solo_def held_by_def)

context block_queue_spec
begin

lemma solo_calls:
  shows "(\<forall>m w. alloc_pre c m w \<longrightarrow> solo c m w \<longrightarrow>
      keeps_solo c (try_alloc_from_local fuel p I (sync_barrier p I sched env) ly m w)) \<and>
    (\<forall>m w. loop_pre c m w \<longrightarrow> solo c m w \<longrightarrow>
      keeps_solo c (alloc_from_global_loop fuel p I (sync_barrier p I sched env) ly m w))"
proof (induction fuel)
  case 0
  then show ?case by (simp add: keeps_solo_def)
next
  case (Suc fuel)
  let ?slow = "sync_barrier p I sched env"
  have alloc_ok: "keeps_solo c (alloc fuel p I ?slow ly m w)" if "alloc_pre c m w" "solo c m w" for m w
    using alloc_solo_if_try that Suc by blast
  have "keeps_solo c (try_alloc_from_local (Suc fuel) p I ?slow ly m w)" if pre: "alloc_pre c m w" "solo c m w" for m w
  proof -
    have pool: "pool_ok c m w" and m: "mut_ok (wd_space w) m" using pre by (simp_all add: alloc_pre_def)
    from next_hole_ok [OF pool m, of p] show ?thesis
    proof (elim disjE exE conjE)
      assume nh: "next_hole p m (wd_cells w) = Inr None"
      obtain m1 w1 where rb: "return_block I m w = (m1, w1)" by (cases "return_block I m w")
      have "loop_pre c m1 w1"
        using return_block_ok [OF laws pool rb] pre user_space_frame [of w w1]
        by (auto simp: loop_pre_def alloc_pre_def mut_ok_def heap_frame_def)
      then have "keeps_solo c (alloc_from_global_loop fuel p I ?slow ly m1 w1)"
        using Suc solo_return_block [OF laws pre(2) rb] by blast
      then show ?thesis using nh by (simp add: alloc_from_global.simps rb)
    next
      fix m1 tbl
      assume nh: "next_hole p m (wd_cells w) = Inr (Some (m1, tbl))"
        and h: "pool_ok c m1 (with_cells w tbl)" "mut_ok (wd_space (with_cells w tbl)) m1"
          "heap_frame w (with_cells w tbl)" "only_claims (wd_cells w) tbl"
      have "alloc_pre c m1 (with_cells w tbl)" using h pre(1) user_space_frame [OF h(3)] by (simp add: alloc_pre_def)
      moreover have "ml_block m1 = ml_block m" "ml_id m1 = ml_id m"
        using nh by (auto simp: next_hole_def open_hole_def split: option.splits if_splits)
      then have "solo c m1 (with_cells w tbl)" by (rule solo_hole [OF pre(2) nh h(4)])
      ultimately show ?thesis using alloc_ok nh by simp
    qed
  qed
  moreover have "keeps_solo c (alloc_from_global_loop (Suc fuel) p I ?slow ly m w)"
    if pre: "loop_pre c m w" "solo c m w" for m w
  proof (cases "yieldpoint ?slow m w")
    case (Some y)
    show ?thesis
    proof (cases y)
      case (Inr z)
      obtain m1 w1 where z: "z = (m1, w1)" by (cases z)
      have y: "yieldpoint ?slow m w = Some (Inr (m1, w1))" using Some Inr z by simp
      have l1: "loop_pre c m1 w1" using barrier.yieldpoint_loop_pre [OF pre(1) y] by blast
      then have pool: "pool_ok c m1 w1" and none: "ml_block m1 = None" by (simp_all add: loop_pre_def)
      have s1: "solo c m1 w1"
        using y solo_barrier [OF laws pre(2), of p sched env m1 w1] pre by (auto simp: yieldpoint_def loop_pre_def split: if_splits)
      from fetch_block_ok [OF laws pool none] obtain ob w2 where f:
        "fetch_block I w1 = Some (ob, w2)" "heap_frame w1 w2"
        "case ob of None \<Rightarrow> pool_ok c m1 w2 | Some b \<Rightarrow> pool_ok c (take_block m1 b) w2 \<and> block_wf (wd_space w2) b"
        by (auto split: option.splits)
      have us: "user_space (wd_space w2)" "ml_space_start m1 = sp_start (wd_space w2)"
        using l1 f(2) user_space_frame [OF f(2)] by (auto simp: loop_pre_def heap_frame_def)
      show ?thesis
      proof (cases ob)
        case None
        then have "loop_pre c m1 w2" "solo c m1 w2"
          using f(3) none us solo_empty_queue [OF laws s1] f(1) by (auto simp: loop_pre_def)
        then have "keeps_solo c (alloc_from_global_loop fuel p I ?slow ly m1 w2)" using Suc by blast
        then show ?thesis by (simp add: y f(1) None)
      next
        case (Some b)
        then have "alloc_pre c (take_block m1 b) w2"
          using f(3) us mut_ok_take_block [of m1 "wd_space w2" b] by (simp add: alloc_pre_def)
        then have "keeps_solo c (alloc fuel p I ?slow ly (take_block m1 b) w2)"
          using alloc_ok solo_take [OF laws s1 none] f(1) Some by blast
        then show ?thesis by (simp add: y f(1) Some)
      qed
    qed (use Some in \<open>simp add: keeps_solo_def\<close>)
  qed (simp add: keeps_solo_def)
  ultimately show ?case by blast
qed

lemma solo_alloc:
  assumes "alloc_pre c m w" and "solo c m w"
  shows "keeps_solo c (alloc fuel p I (sync_barrier p I sched env) ly m w)"
  using alloc_solo_if_try [OF assms(2)] solo_calls assms by blast

end

text \<open>Registering an object writes one byte of the alloc map.\<close>

lemma init_object_byte:
  assumes run: "init_object p m w a e = Inr w'"
  shows "\<exists>k. w' = w\<lparr>wd_space := (wd_space w)\<lparr>sp_alloc_map :=
    (sp_alloc_map (wd_space w))\<lparr>am_cells := (am_cells (sp_alloc_map (wd_space w)))[k := e]\<rparr>\<rparr>\<rparr>"
  using run by (auto simp: init_object_def Let_def split: if_splits)

lemma init_object_pre:
  assumes run: "init_object p m w a e = Inr w'" and pre: "alloc_pre c m w"
  shows "alloc_pre c m w' \<and> heap_frame w w'"
proof -
  have ok: "space_ok c held (wd_space w) \<Longrightarrow> space_ok c held (wd_space w') \<and> heap_frame w w'" for held
    using init_object_space [OF run] by blast
  then show ?thesis
    using pre init_object_byte [OF run]
    by (auto simp: alloc_pre_def pool_ok_def mut_ok_def user_space_def block_wf_def split: option.splits)
qed

text \<open>The state between two calls of a program that is alone.\<close>

definition at_rest :: "('q \<Rightarrow> immix_block list) \<Rightarrow> mutator_local \<Rightarrow> 'q world \<Rightarrow> bool" where
  "at_rest c m w \<longleftrightarrow> alloc_pre c m w \<and> solo c m w"

lemma alloc_ends:
  assumes laws: "injector_laws I c r" and ly: "layout_ok ly" "unat (ly_size ly) \<le> 256" "unat (ly_align ly) \<le> 256"
    "0 < unat (ly_size ly)" and env: "scan_ok env" "te_cpus sched = 1" and rest: "at_rest c m w"
  shows "ends (alloc 4 p I (sync_barrier p I sched env) ly m w) (\<lambda>(a, m', w'). at_rest c m' w')"
proof -
  have pre: "alloc_pre c m w" "solo c m w" using rest by (simp_all add: at_rest_def)
  have "trace_ends sched w" using env(2) by (simp add: trace_ends_def)
  then obtain res where res: "alloc 4 p I (sync_barrier p I sched env) ly m w = Some res"
    using alloc_returns_collecting [OF laws ly(1-3) pre(1)] pre(2) env(1) by blast
  have "at_rest c m' w'" if x: "res = Inr (a, m', w')" for a m' w'
  proof -
    have "alloc_good c ly w (a, m', w')"
      using alloc_good_collecting [OF laws ly(1,4) pre(1)] res x by blast
    then have "alloc_pre c m' w'"
      using pre(1) user_space_frame [of w w'] by (simp add: alloc_good_def alloc_pre_def)
    moreover have "solo c m' w'"
      using block_queue_spec.solo_alloc [OF block_queue_specI [OF laws] pre] res x unfolding keeps_solo_def by blast
    ultimately show ?thesis by (simp add: at_rest_def)
  qed
  then show ?thesis using res by (auto simp: ends_def)
qed

lemma at_rest_mem: "at_rest c m w \<Longrightarrow> at_rest c m (w\<lparr>wd_mem := mem\<rparr>)"
  by (simp add: at_rest_def alloc_pre_def pool_ok_def solo_def)

end
