(* ===== verification/Text.thy ===== *)
theory Text
  imports Gc
begin

unbundle bit_operations_syntax

text \<open>
  What the program writes: the \<open>Display\<close> and \<open>Debug\<close> text of spaces, blocks, line tables and
  mutators (\<open>immix_space.rs\<close>, \<open>line_mark.rs\<close>, \<open>immix_mutator.rs\<close>), and \<open>print_object\<close>. A text that
  is written is a string, a program's output a list of lines. The address of the line mark
  table, which the allocator chooses, is an argument.
\<close>

section \<open>Line tables, blocks and spaces\<close>

text \<open>The derived \<open>Debug\<close> of the two enums.\<close>

fun line_mark_Debug :: "line_mark \<Rightarrow> string" where
  "line_mark_Debug Free = ''Free''"
| "line_mark_Debug Live = ''Live''"
| "line_mark_Debug FreshAlloc = ''FreshAlloc''"
| "line_mark_Debug ConservLive = ''ConservLive''"
| "line_mark_Debug PrevLive = ''PrevLive''"

fun block_mark_Debug :: "block_mark \<Rightarrow> string" where
  "block_mark_Debug Usable = ''Usable''"
| "block_mark_Debug Full = ''Full''"

text \<open>\<open>table\<close> is the address of the line mark table; a mark is one byte.\<close>

definition line_mark_table_Debug :: "usize \<Rightarrow> string" where
  "line_mark_table_Debug table = pointer_str table"

definition line_mark_slice_Debug :: "usize \<Rightarrow> line_mark_slice \<Rightarrow> string" where
  "line_mark_slice_Debug table self = pointer_str (table + of_nat (sl_ptr self))"

definition newline :: string where
  "newline = [char_of (10 :: nat)]"

text \<open>\<open>{:#X}\<close> of an \<open>Address\<close> is its \<open>UpperHex\<close>, which does not pass the flag on.\<close>

definition space_Display :: "usize \<Rightarrow> 'q immix_space \<Rightarrow> string" where
  "space_Display table self =
     ''ImmixSpace'' @ newline @
     ''range='' @ address_UpperHex (sp_start self) @ '' ~ '' @ address_UpperHex (sp_end self) @ newline @
     ''t_ptr='' @ line_mark_table_Debug table @ newline @
     ''done'' @ newline"

fun block_marks :: "profile \<Rightarrow> line_mark_slice \<Rightarrow> line_mark list \<Rightarrow> nat list \<Rightarrow> string res" where
  "block_marks p sl tbl [] = Inr []"
| "block_marks p sl tbl (i # is) =
     bind_res (sl_get p sl tbl i) (\<lambda>m.
     bind_res (block_marks p sl tbl is) (\<lambda>rest. Inr (line_mark_Debug m @ '','' @ rest)))"

definition block_Display :: "profile \<Rightarrow> usize \<Rightarrow> immix_block \<Rightarrow> line_mark list \<Rightarrow> string res" where
  "block_Display p table self tbl =
     bind_res (block_marks p (ib_lines self) tbl [0..<LINES_IN_BLOCK]) (\<lambda>marks.
       Inr (''ImmixBlock#'' @ dec_str (ib_id self) @ ''(state='' @ block_mark_Debug (ib_state self) @
         '', address='' @ address_UpperHex (ib_start self) @
         '', line_table='' @ line_mark_slice_Debug table (ib_lines self) @
         ''['' @ marks @ '']''))"

section \<open>Mutators and objects\<close>

definition mutator_Display :: "profile \<Rightarrow> usize \<Rightarrow> mutator_local \<Rightarrow> line_mark list \<Rightarrow> string res" where
  "mutator_Display p table self tbl =
     (if to_ptr (ml_cursor self) = 0 then Inr ''Mutator (not initialized)''
      else bind_res (block_of self) (\<lambda>b.
           bind_res (block_Display p table b tbl) (\<lambda>block.
             Inr (''Mutator:'' @ newline @
               ''cursor= '' @ address_UpperHex (ml_cursor self) @ newline @
               ''limit = '' @ address_UpperHex (ml_limit self) @ newline @
               ''line  = '' @ dec_str (ml_line self) @ newline @
               ''block = '' @ block))))"

definition word_UpperHex :: "usize \<Rightarrow> string" where
  "word_UpperHex v = ''0x'' @ hex_str (unat v)"

text \<open>The loop of \<open>print_object_static\<close>: the lines for the words from \<open>cur_addr\<close> on.\<close>

partial_function (option) print_words ::
  "profile \<Rightarrow> (usize \<Rightarrow> usize) \<Rightarrow> address \<Rightarrow> usize \<Rightarrow> address \<Rightarrow> string list \<Rightarrow> string list res option" where
  "print_words p mem obj len cur_addr out =
     (case addr_plus p obj len of
        Inl e \<Rightarrow> Some (Inl e)
      | Inr end_addr \<Rightarrow>
          if cur_addr < end_addr then
            (if 8 dvd addr_nat cur_addr then
               (case addr_plus p cur_addr 8 of
                  Inl e \<Rightarrow> Some (Inl e)
                | Inr next \<Rightarrow> print_words p mem obj len next
                    (out @ [''Address: '' @ address_UpperHex cur_addr @ ''   '' @ word_UpperHex (mem (as_usize cur_addr))]))
             else Some (Inl (UB ''misaligned read of an object'')))
          else Some (Inr out))"

definition print_object :: "profile \<Rightarrow> (usize \<Rightarrow> usize) \<Rightarrow> address \<Rightarrow> usize \<Rightarrow> string list res option" where
  "print_object p mem obj len =
     bind_ro (print_words p mem obj len obj
         [''===Object '' @ address_UpperHex obj @ '' size: '' @ dec_str (unat len) @ '' bytes===''])
       (\<lambda>out. Some (Inr (out @ [''----'', ''=========''])))"

section \<open>When there is a text\<close>

lemma block_marks_ok:
  "slice_ok sl tbl \<Longrightarrow> \<forall>i\<in>set is. i < sl_len sl \<Longrightarrow>
     block_marks p sl tbl is = Inr (concat (map (\<lambda>i. line_mark_Debug (slice_line sl tbl i) @ '','') is))"
  by (induction "is") (simp_all add: sl_get_def slice_ok_def)

lemma block_text:
  assumes "tables_ok s" and "block_wf s b"
  shows "\<exists>t. block_Display p table b (sp_cells s) = Inr t"
proof -
  have "slice_ok (ib_lines b) (sp_cells s)" "sl_len (ib_lines b) = 256"
    using block_wf_slice_ok [OF assms] assms(2) by (simp_all add: block_wf_def)
  then show ?thesis
    by (simp add: block_Display_def block_marks_ok LINES_IN_BLOCK_def LOG_BYTES_IN_BLOCK_def LOG_BYTES_IN_LINE_def)
qed

text \<open>Without a block a mutator has a text only while its cursor is null.\<close>

lemma mutator_text_cases:
  "mutator_Display p table m tbl =
     (if ml_cursor m = null_address then Inr ''Mutator (not initialized)''
      else if ml_block m = None then Inl (UnwrapFailed ''None'')
      else bind_res (block_Display p table (the (ml_block m)) tbl) (\<lambda>block.
             Inr (''Mutator:'' @ newline @
               ''cursor= '' @ address_UpperHex (ml_cursor m) @ newline @
               ''limit = '' @ address_UpperHex (ml_limit m) @ newline @
               ''line  = '' @ dec_str (ml_line m) @ newline @
               ''block = '' @ block)))"
proof -
  have "ml_cursor m = null_address \<longleftrightarrow> to_ptr (ml_cursor m) = 0"
    by (cases "ml_cursor m") (simp add: null_address_def to_ptr_def)
  then show ?thesis by (auto simp: mutator_Display_def block_of_def split: option.split)
qed

lemma mutator_text:
  assumes tb: "tables_ok s" and m: "mut_ok s m" and low: "sp_start s \<noteq> null_address"
  shows "ml_block m = None \<longleftrightarrow> mutator_Display p table m (sp_cells s) = Inr ''Mutator (not initialized)''"
    and "\<exists>t. mutator_Display p table m (sp_cells s) = Inr t"
    and "ml_block m = Some b \<Longrightarrow> mutator_Display p table (fst (prepare_for_gc I m w)) tbl = Inl (UnwrapFailed ''None'')"
proof -
  have cur: "ml_block m = None \<longleftrightarrow> ml_cursor m = null_address"
  proof (cases "ml_block m")
    case None
    then show ?thesis using m by (simp add: mut_ok_def)
  next
    case (Some b)
    then have b: "block_wf s b" "ib_start b \<le> ml_cursor m" using m by (simp_all add: mut_ok_def)
    have "0 < addr_nat (sp_start s)"
      using low addr_nat_inject [of "sp_start s" null_address] by (simp add: null_address_def)
    then have "0 < addr_nat (ml_cursor m)"
      using b(2) block_start_nat(1) [OF tb b(1)] by (simp add: address_le_iff)
    then show ?thesis using Some by (auto simp: null_address_def)
  qed
  have ok: "block_wf s b" if "ml_block m = Some b" for b using m that by (simp add: mut_ok_def)
  show "\<exists>t. mutator_Display p table m (sp_cells s) = Inr t"
    using cur block_text [OF tb ok, of _ p table] by (cases "ml_block m") (auto simp: mutator_text_cases)
  show "ml_block m = None \<longleftrightarrow> mutator_Display p table m (sp_cells s) = Inr ''Mutator (not initialized)''"
    using cur block_text [OF tb ok, of _ p table] by (cases "ml_block m") (auto simp: mutator_text_cases)
  show "mutator_Display p table (fst (prepare_for_gc I m w)) tbl = Inl (UnwrapFailed ''None'')" if "ml_block m = Some b"
    using that cur by (simp add: mutator_text_cases prepare_for_gc_def return_block_def)
qed

text \<open>The line for the \<open>k\<close>-th word of an object.\<close>

definition word_line :: "(usize \<Rightarrow> usize) \<Rightarrow> address \<Rightarrow> nat \<Rightarrow> string" where
  "word_line mem obj k = ''Address: '' @ hex_str (addr_nat obj + 8 * k) @ ''   0x'' @
     hex_str (unat (mem (as_usize obj + of_nat (8 * k))))"

lemma print_words_ok:
  assumes al: "8 dvd addr_nat obj" and top: "addr_nat obj + unat len + 8 < 2 ^ 64" and k: "k \<le> (unat len + 7) div 8"
  shows "print_words p mem obj len (Address (as_usize obj + of_nat (8 * k))) out =
    Some (Inr (out @ map (word_line mem obj) [k..<(unat len + 7) div 8]))"
  using k
proof (induction k arbitrary: out rule: inc_induct)
  case base
  let ?n = "(unat len + 7) div 8"
  have n: "unat len \<le> 8 * ?n" "8 * ?n \<le> unat len + 7" by simp_all
  then have "unat (of_nat (8 * ?n) :: usize) = 8 * ?n" using top by (intro unat_of_nat_small) simp
  then have "addr_nat (Address (as_usize obj + of_nat (8 * ?n))) = addr_nat obj + 8 * ?n"
    using n top by (simp add: unat_add_small)
  moreover obtain e where "addr_plus p obj len = Inr e" "addr_nat e = addr_nat obj + unat len"
    using addr_plus_ok [of obj len p] top by auto
  ultimately show ?case using n(1) by (subst print_words.simps) (simp add: address_less_iff)
next
  case (step k)
  let ?cur = "Address (as_usize obj + of_nat (8 * k))"
  have k: "8 * k < unat len" using step(2) by simp
  then have "unat (of_nat (8 * k) :: usize) = 8 * k" using top by (intro unat_of_nat_small) simp
  then have cur: "addr_nat ?cur = addr_nat obj + 8 * k" using k top by (simp add: unat_add_small)
  obtain e where e: "addr_plus p obj len = Inr e" "addr_nat e = addr_nat obj + unat len"
    using addr_plus_ok [of obj len p] top by auto
  have next_ok: "addr_plus p ?cur 8 = Inr (Address (as_usize obj + of_nat (8 * Suc k)))"
  proof -
    have "usize_add p (as_usize ?cur) 8 = Inr (as_usize ?cur + 8)" using cur k top by (intro usize_add_ok) simp
    then show ?thesis by (simp add: addr_plus_def algebra_simps)
  qed
  have "8 dvd addr_nat ?cur" unfolding cur using al by simp
  then have "print_words p mem obj len ?cur out = print_words p mem obj len (Address (as_usize obj + of_nat (8 * Suc k)))
      (out @ [''Address: '' @ address_UpperHex ?cur @ ''   '' @ word_UpperHex (mem (as_usize ?cur))])"
    using cur k e next_ok by (subst print_words.simps) (simp add: address_less_iff)
  also have "\<dots> = Some (Inr (out @ map (word_line mem obj) (k # [Suc k..<(unat len + 7) div 8])))"
    unfolding step.IH using cur by (simp add: word_line_def address_UpperHex_def word_UpperHex_def)
  finally show ?case using step(2) by (simp add: upt_conv_Cons)
qed

lemma print_object_ok:
  assumes "8 dvd addr_nat obj" and "addr_nat obj + unat len + 8 < 2 ^ 64"
  shows "print_object p mem obj len = Some (Inr
    ([''===Object '' @ address_UpperHex obj @ '' size: '' @ dec_str (unat len) @ '' bytes===''] @
     map (word_line mem obj) [0..<(unat len + 7) div 8] @ [''----'', ''========='']))"
  using print_words_ok [OF assms, of 0] by (simp add: print_object_def)

end
