(* ===== verification/Programs.thy ===== *)
theory Programs
  imports Gcbench Alone Text
begin

unbundle bit_operations_syntax

text \<open>
  The programs under \<open>src/rust_benchmarks\<close>: \<open>main\<close> with its reading of \<open>HEAP_SIZE\<close>, and the
  benchmarks it selects, each from the creation of its space on. What a program prints is a
  list of lines; the durations it measures are arguments, texts already. The lines that the sweeps
  of a debug build print in between are not in this list but in the field \<open>wd_printed\<close> of the world;
  standard output is an interleaving of the two. A program that panics has no output here. \<open>mt_gcbench\<close> runs one thread per processor; here are its node type, its
  arithmetic, the body of one thread by itself and \<open>start\<close>, and in \<open>Threads\<close> the threads together.
\<close>

section \<open>Arithmetic on usize\<close>

definition usize_mul :: "profile \<Rightarrow> usize \<Rightarrow> usize \<Rightarrow> usize res" where
  "usize_mul p a b = (if unat a * unat b < 2 ^ 64 then Inr (a * b) else overflowed p (a * b))"

definition usize_shl :: "profile \<Rightarrow> usize \<Rightarrow> usize \<Rightarrow> usize res" where
  "usize_shl p a n = (if unat n < 64 then Inr (push_bit (unat n) a) else overflowed p (push_bit (unat n mod 64) a))"

definition usize_div :: "usize \<Rightarrow> usize \<Rightarrow> usize res" where
  "usize_div a b = (if b = 0 then Inl (Panic ''attempt to divide by zero'') else Inr (a div b))"

text \<open>\<open>usize::pow\<close>.\<close>

fun usize_pow :: "profile \<Rightarrow> usize \<Rightarrow> nat \<Rightarrow> usize res" where
  "usize_pow p a 0 = Inr 1"
| "usize_pow p a (Suc n) = bind_res (usize_pow p a n) (\<lambda>v. usize_mul p v a)"

section \<open>Start of a program\<close>

text \<open>\<open>Layout::from_size_align(size, align).unwrap()\<close>.\<close>

definition layout_from_size_align :: "usize \<Rightarrow> usize \<Rightarrow> layout res" where
  "layout_from_size_align sz align =
     (if align \<noteq> 0 \<and> align AND (align - 1) = 0 \<and> unat sz + unat align \<le> 2 ^ 63
      then Inr \<lparr>ly_size = sz, ly_align = align\<rparr> else Inl (UnwrapFailed ''LayoutError''))"

text \<open>The statics of a program that starts, with its memory.\<close>

definition initial_world :: "'q immix_space \<Rightarrow> (usize \<Rightarrow> usize) \<Rightarrow> 'q world" where
  "initial_world sp mem = \<lparr>wd_space = sp, wd_registry = empty_registry, wd_mem = mem,
     wd_controller = NO_CONTROLLER, wd_stw_count = 0, wd_roots = [], wd_gc_count = 0, wd_printed = []\<rparr>"

text \<open>\<open>Arc::new(ImmixSpace::new(space_size))\<close> and the first \<open>ImmixMutatorLocal::new\<close>: \<open>mmap\<close> is the
  operating system, \<open>idx\<close> the first index of the arena.\<close>

definition with_mutator :: "profile \<Rightarrow> 'q block_queue \<Rightarrow> (usize \<Rightarrow> usize option) \<Rightarrow> index \<Rightarrow> (usize \<Rightarrow> usize) \<Rightarrow> usize \<Rightarrow>
    (mutator_local \<times> 'q world) res option" where
  "with_mutator p I mmap idx mem sz =
     bind_ro (space_new p I mmap sz) (\<lambda>sp. Some (Inr (mutator_new idx (initial_world sp mem))))"

text \<open>What a program leaves: its own output and the state, with the output of the sweeps.\<close>

type_synonym 'q outcome = "(string list \<times> mutator_local \<times> 'q world) res option"

definition trying_one_text :: "usize \<Rightarrow> usize \<Rightarrow> string" where
  "trying_one_text sz align = ''Trying to allocate 1 object of (size '' @ dec_str (unat sz) @ '', align '' @ dec_str (unat align) @ ''). ''"

definition considering_text :: "usize \<Rightarrow> string" where
  "considering_text sz = ''Considering header size of 0, an object should be '' @ dec_str (unat sz) @ ''. ''"

definition time_used_text :: "string \<Rightarrow> string" where
  "time_used_text elapsed = ''time used: '' @ elapsed"

section \<open>exhaust.rs\<close>

definition OBJECT_SIZE :: usize where "OBJECT_SIZE = 24"
definition OBJECT_ALIGN :: usize where "OBJECT_ALIGN = 8"
definition ALLOCATION_TIMES :: usize where "ALLOCATION_TIMES = 50000000"

definition alloc_object :: "nat \<Rightarrow> profile \<Rightarrow> 'q block_queue \<Rightarrow> 'q step \<Rightarrow> mutator_local \<Rightarrow> 'q world
    \<Rightarrow> (address \<times> mutator_local \<times> 'q world) res option" where
  "alloc_object fuel p I slow m w =
     bind_ro (Some (layout_from_size_align OBJECT_SIZE OBJECT_ALIGN)) (\<lambda>ly. alloc fuel p I slow ly m w)"

definition exhaust_alloc_loop :: "nat \<Rightarrow> profile \<Rightarrow> 'q block_queue \<Rightarrow> 'q step \<Rightarrow> string \<Rightarrow> mutator_local \<Rightarrow> 'q world \<Rightarrow> 'q outcome" where
  "exhaust_alloc_loop fuel p I slow elapsed m w =
     bind_ro (repeat_step (unat ALLOCATION_TIMES) (\<lambda>m w.
         bind_ro (alloc_object fuel p I slow m w) (\<lambda>(res, m1, w1).
         bind_ro (Some (init_object p m1 w1 res 195)) (\<lambda>w2. Some (Inr (m1, w2))))) m w) (\<lambda>(m', w').
       Some (Inr ([time_used_text elapsed], m', w')))"

definition exhaust_alloc :: "nat \<Rightarrow> profile \<Rightarrow> 'q block_queue \<Rightarrow> 'q step \<Rightarrow> (usize \<Rightarrow> usize option) \<Rightarrow> index \<Rightarrow>
    (usize \<Rightarrow> usize) \<Rightarrow> string \<Rightarrow> usize \<Rightarrow> 'q outcome" where
  "exhaust_alloc fuel p I slow mmap idx mem elapsed sz =
     bind_ro (with_mutator p I mmap idx mem sz) (\<lambda>(m, w).
     bind_ro (Some (usize_mul p ALLOCATION_TIMES OBJECT_SIZE)) (\<lambda>bytes.
     bind_ro (exhaust_alloc_loop fuel p I slow elapsed m w) (\<lambda>(out, m', w').
       Some (Inr (
         [''Trying to allocate '' @ dec_str (unat ALLOCATION_TIMES) @ '' objects of (size '' @ dec_str (unat OBJECT_SIZE) @
            '', align '' @ dec_str (unat OBJECT_ALIGN) @ ''). '',
          considering_text OBJECT_SIZE,
          ''This would take '' @ dec_str (unat bytes) @ '' bytes of '' @ dec_str (unat sz) @ '' bytes heap''] @
         out, m', w')))))"

section \<open>obj_init.rs\<close>

definition INIT_TIMES :: usize where "INIT_TIMES = ALLOCATION_TIMES"

text \<open>The loop that allocates, with the vector it fills.\<close>

fun alloc_objects :: "nat \<Rightarrow> nat \<Rightarrow> profile \<Rightarrow> 'q block_queue \<Rightarrow> 'q step \<Rightarrow> address list \<Rightarrow> mutator_local \<Rightarrow> 'q world
    \<Rightarrow> (address list \<times> mutator_local \<times> 'q world) res option" where
  "alloc_objects 0 fuel p I slow objs m w = Some (Inr (objs, m, w))"
| "alloc_objects (Suc n) fuel p I slow objs m w =
     bind_ro (alloc_object fuel p I slow m w) (\<lambda>(res, m1, w1).
       alloc_objects n fuel p I slow (objs @ [res]) m1 w1)"

fun init_objects :: "profile \<Rightarrow> address list \<Rightarrow> mutator_local \<Rightarrow> 'q world \<Rightarrow> 'q world res" where
  "init_objects p [] m w = Inr w"
| "init_objects p (obj # objs) m w = bind_res (init_object_no_inline p m w obj 195) (init_objects p objs m)"

definition init_loop :: "profile \<Rightarrow> string \<Rightarrow> address list \<Rightarrow> mutator_local \<Rightarrow> 'q world \<Rightarrow> (string list \<times> 'q world) res" where
  "init_loop p elapsed objs m w =
     bind_res (init_objects p objs m w) (\<lambda>w'. Inr ([''Start init objects'', time_used_text elapsed], w'))"

definition alloc_init :: "nat \<Rightarrow> profile \<Rightarrow> 'q block_queue \<Rightarrow> 'q step \<Rightarrow> (usize \<Rightarrow> usize option) \<Rightarrow> index \<Rightarrow>
    (usize \<Rightarrow> usize) \<Rightarrow> string \<Rightarrow> usize \<Rightarrow> 'q outcome" where
  "alloc_init fuel p I slow mmap idx mem elapsed sz =
     bind_ro (with_mutator p I mmap idx mem sz) (\<lambda>(m, w).
     bind_ro (Some (usize_mul p INIT_TIMES OBJECT_SIZE)) (\<lambda>bytes.
     bind_ro (alloc_objects (unat INIT_TIMES) fuel p I slow [] m w) (\<lambda>(objs, m1, w1).
     bind_ro (Some (init_loop p elapsed objs m1 w1)) (\<lambda>(out, w2).
       Some (Inr (
         [trying_one_text OBJECT_SIZE OBJECT_ALIGN, considering_text OBJECT_SIZE,
          ''Trying to allocate '' @ dec_str (unat INIT_TIMES) @ '' objects, which will take roughly '' @
            dec_str (unat bytes) @ '' bytes''] @ out, m1, w2))))))"

section \<open>trace.rs\<close>

definition TRACE_TIMES :: usize where "TRACE_TIMES = ALLOCATION_TIMES"

text \<open>\<open>{:?}\<close> of a vector of references.\<close>

fun commas :: "string list \<Rightarrow> string" where
  "commas [] = []"
| "commas [t] = t"
| "commas (t # ts) = t @ '', '' @ commas ts"

definition roots_Debug :: "object_reference list \<Rightarrow> string" where
  "roots_Debug roots = ''['' @ commas (map oref_Debug roots) @ '']''"

text \<open>The loop that links each object to the next one, through its first field.\<close>

fun link_objects :: "nat \<Rightarrow> nat \<Rightarrow> profile \<Rightarrow> 'q block_queue \<Rightarrow> 'q step \<Rightarrow> address \<Rightarrow> 'q step" where
  "link_objects 0 fuel p I slow prev m w = Some (Inr (m, w))"
| "link_objects (Suc n) fuel p I slow prev m w =
     bind_ro (alloc_object fuel p I slow m w) (\<lambda>(res, m1, w1).
     bind_ro (Some (init_object p m1 w1 res 193)) (\<lambda>w2.
       link_objects n fuel p I slow res m1 (store_at prev 0 res w2)))"

definition trace_list_loop :: "string \<Rightarrow> address \<Rightarrow> string list" where
  "trace_list_loop elapsed root =
     [''Start tracing'', roots_Debug [to_object_reference root], time_used_text elapsed]"

definition alloc_trace :: "nat \<Rightarrow> profile \<Rightarrow> 'q block_queue \<Rightarrow> 'q step \<Rightarrow> (usize \<Rightarrow> usize option) \<Rightarrow> index \<Rightarrow>
    (usize \<Rightarrow> usize) \<Rightarrow> string \<Rightarrow> usize \<Rightarrow> 'q outcome" where
  "alloc_trace fuel p I slow mmap idx mem elapsed sz =
     bind_ro (with_mutator p I mmap idx mem sz) (\<lambda>(m, w).
     bind_ro (Some (usize_mul p TRACE_TIMES OBJECT_SIZE)) (\<lambda>bytes.
     bind_ro (alloc_object fuel p I slow m w) (\<lambda>(root, m1, w1).
     bind_ro (Some (init_object p m1 w1 root 193)) (\<lambda>w2.
     bind_ro (Some (usize_sub p TRACE_TIMES 1)) (\<lambda>times.
     bind_ro (link_objects (unat times) fuel p I slow root m1 w2) (\<lambda>(m3, w3).
       Some (Inr (
         [trying_one_text OBJECT_SIZE OBJECT_ALIGN, considering_text OBJECT_SIZE,
          ''Trying to allocate '' @ dec_str (unat TRACE_TIMES) @ '' objects, which will take roughly '' @
            dec_str (unat bytes) @ '' bytes''] @ trace_list_loop elapsed root, m3, w3))))))))"

section \<open>mt_trace.rs\<close>

definition K :: nat where "K = 4"
definition TREE_DEPTH :: nat where "TREE_DEPTH = 10"
definition TREE_COUNT :: usize where "TREE_COUNT = 50"
definition K_OBJECT_SIZE :: usize where "K_OBJECT_SIZE = of_nat K * 8"
definition K_OBJECT_ALIGN :: usize where "K_OBJECT_ALIGN = 8"

definition alloc_k_ary_tree :: "nat \<Rightarrow> profile \<Rightarrow> 'q block_queue \<Rightarrow> 'q step \<Rightarrow> mutator_local \<Rightarrow> 'q world
    \<Rightarrow> (address \<times> mutator_local \<times> 'q world) res option" where
  "alloc_k_ary_tree fuel p I slow m w =
     bind_ro (Some (layout_from_size_align K_OBJECT_SIZE K_OBJECT_ALIGN)) (\<lambda>ly.
     bind_ro (alloc fuel p I slow ly m w) (\<lambda>(addr, m1, w1).
     bind_ro (Some (init_object p m1 w1 addr 207)) (\<lambda>w2. Some (Inr (addr, m1, w2)))))"

text \<open>The loop that pops the children into the fields from \<open>cursor\<close> on.\<close>

fun store_children :: "nat \<Rightarrow> profile \<Rightarrow> address list \<Rightarrow> address \<Rightarrow> 'q world \<Rightarrow> 'q world res" where
  "store_children 0 p children cursor w = Inr w"
| "store_children (Suc n) p children cursor w =
     bind_res (guard_res (UnwrapFailed ''None'') (children \<noteq> [])) (\<lambda>_.
     bind_res (addr_plus p cursor 8) (\<lambda>cursor'.
       store_children n p (butlast children) cursor' (store_at cursor 0 (last children) w)))"

function (sequential) make_tree :: "nat \<Rightarrow> profile \<Rightarrow> 'q block_queue \<Rightarrow> 'q step \<Rightarrow> nat \<Rightarrow> mutator_local \<Rightarrow> 'q world
      \<Rightarrow> (address \<times> mutator_local \<times> 'q world) res option"
  and make_children :: "nat \<Rightarrow> nat \<Rightarrow> profile \<Rightarrow> 'q block_queue \<Rightarrow> 'q step \<Rightarrow> nat \<Rightarrow> address list \<Rightarrow> mutator_local \<Rightarrow> 'q world
      \<Rightarrow> (address list \<times> mutator_local \<times> 'q world) res option"
where
  "make_tree fuel p I slow 0 m w = alloc_k_ary_tree fuel p I slow m w"
| "make_tree fuel p I slow (Suc depth) m w =
     bind_ro (make_children K fuel p I slow depth [] m w) (\<lambda>c.
     bind_ro (alloc_k_ary_tree fuel p I slow (fst (snd c)) (snd (snd c))) (\<lambda>r.
     bind_ro (Some (store_children K p (fst c) (fst r) (snd (snd r)))) (\<lambda>w'.
       Some (Inr (fst r, fst (snd r), w')))))"
| "make_children 0 fuel p I slow depth children m w = Some (Inr (children, m, w))"
| "make_children (Suc n) fuel p I slow depth children m w =
     bind_ro (make_tree fuel p I slow depth m w) (\<lambda>t.
       make_children n fuel p I slow depth (children @ [fst t]) (fst (snd t)) (snd (snd t)))"
  by pat_completeness auto
termination
  by (relation "measures [\<lambda>x. case x of Inl (fuel, p, I, slow, d, m, w) \<Rightarrow> d | Inr (n, fuel, p, I, slow, d, cs, m, w) \<Rightarrow> d,
      \<lambda>x. case x of Inl y \<Rightarrow> 0 | Inr (n, y) \<Rightarrow> Suc n]") auto

fun make_trees :: "nat \<Rightarrow> nat \<Rightarrow> profile \<Rightarrow> 'q block_queue \<Rightarrow> 'q step \<Rightarrow> object_reference list \<Rightarrow> mutator_local \<Rightarrow> 'q world
    \<Rightarrow> (object_reference list \<times> mutator_local \<times> 'q world) res option" where
  "make_trees 0 fuel p I slow roots m w = Some (Inr (roots, m, w))"
| "make_trees (Suc n) fuel p I slow roots m w =
     bind_ro (make_tree fuel p I slow TREE_DEPTH m w) (\<lambda>(t, m1, w1).
       make_trees n fuel p I slow (roots @ [to_object_reference t]) m1 w1)"

text \<open>The number of objects the program announces, and their bytes.\<close>

definition announced_objects :: "profile \<Rightarrow> usize res" where
  "announced_objects p = bind_res (usize_pow p (of_nat K) TREE_DEPTH) (usize_mul p TREE_COUNT)"

definition mt_alloc_trace :: "nat \<Rightarrow> profile \<Rightarrow> 'q block_queue \<Rightarrow> 'q step \<Rightarrow> (usize \<Rightarrow> usize option) \<Rightarrow> index \<Rightarrow>
    (usize \<Rightarrow> usize) \<Rightarrow> string \<Rightarrow> usize \<Rightarrow> 'q outcome" where
  "mt_alloc_trace fuel p I slow mmap idx mem elapsed sz =
     bind_ro (with_mutator p I mmap idx mem sz) (\<lambda>(m, w).
     bind_ro (Some (announced_objects p)) (\<lambda>objects.
     bind_ro (Some (usize_mul p objects K_OBJECT_SIZE)) (\<lambda>bytes.
     bind_ro (make_trees (unat TREE_COUNT) fuel p I slow [] m w) (\<lambda>(roots, m1, w1).
       Some (Inr (
         [trying_one_text K_OBJECT_SIZE 8, considering_text K_OBJECT_SIZE,
          ''Trying to allocate '' @ dec_str (unat TREE_COUNT) @ '' trees of depth '' @ dec_str TREE_DEPTH @
            '', which is '' @ dec_str (unat objects) @ '' objects ('' @ dec_str (unat bytes) @ '' bytes)'',
          ''Start tracing'', roots_Debug roots, time_used_text elapsed], m1, w1))))))"

section \<open>gcbench.rs\<close>

definition kArraySize :: int where "kArraySize = 500000"

text \<open>\<open>2 * (size_of::<Node>() as i32) * TreeSize(kLongLivedTreeDepth) + (size_of::<Array>() as i32)\<close>\<close>

definition live_storage :: "profile \<Rightarrow> int res" where
  "live_storage p =
     bind_res (TreeSize p kLongLivedTreeDepth) (\<lambda>n.
     bind_res (i32_checked p (2 * 24)) (\<lambda>s.
     bind_res (i32_checked p (s * n)) (\<lambda>t. i32_checked p (t + 8 * kArraySize))))"

definition int_str :: "int \<Rightarrow> string" where
  "int_str v = (if v < 0 then ''-'' @ dec_str (nat (- v)) else dec_str (nat v))"

definition tab :: string where "tab = [char_of (9 :: nat)]"

text \<open>What \<open>TimeConstruction\<close> prints, for the two durations it measures.\<close>

definition construction_text :: "int \<Rightarrow> int \<Rightarrow> string \<Rightarrow> string \<Rightarrow> string list" where
  "construction_text iNumIters depth top_down bottom_up =
     [''creating '' @ int_str iNumIters @ '' trees of depth '' @ int_str depth,
      tab @ ''Top down construction took '' @ top_down,
      tab @ ''Buttom up construction took '' @ bottom_up]"

text \<open>The lines of all measurements; \<open>durations\<close> gives the two durations of a depth.\<close>

fun measured_text :: "profile \<Rightarrow> (int \<Rightarrow> string \<times> string) \<Rightarrow> int list \<Rightarrow> string list res" where
  "measured_text p durations [] = Inr []"
| "measured_text p durations (d # ds) =
     bind_res (NumIters p d) (\<lambda>n.
     bind_res (measured_text p durations ds) (\<lambda>rest.
       Inr (construction_text n d (fst (durations d)) (snd (durations d)) @ rest)))"

definition bench_depths :: "int list" where
  "bench_depths = [4, 6, 8, 10, 12, 14, 16]"

definition gcbench_start :: "nat \<Rightarrow> profile \<Rightarrow> 'q block_queue \<Rightarrow> 'q step \<Rightarrow> (usize \<Rightarrow> usize option) \<Rightarrow> index \<Rightarrow>
    (usize \<Rightarrow> usize) \<Rightarrow> node_type \<Rightarrow> (int \<Rightarrow> string \<times> string) \<Rightarrow> string \<Rightarrow> usize \<Rightarrow> 'q outcome" where
  "gcbench_start fuel p I slow mmap idx mem nt durations elapsed sz =
     bind_ro (with_mutator p I mmap idx mem sz) (\<lambda>(m, w).
     bind_ro (Some (live_storage p)) (\<lambda>peak.
     bind_ro (bench_start fuel p I slow nt m w) (\<lambda>(longLivedTree, m', w').
     bind_ro (Some (measured_text p durations bench_depths)) (\<lambda>measured.
       Some (Inr (
         [''Garbage Collector Test'', '' Live storage will peak at '' @ int_str peak @ '' bytes.'', [],
          '' Stretching memory with a binary tree or depth '' @ int_str kStretchTreeDepth,
          '' Creating a long-lived binary tree of depth '' @ int_str kLongLivedTreeDepth,
          '' Creating a long-lived array of '' @ int_str kArraySize @ '' doubles''] @ measured @
         (if longLivedTree = null_address then [''Failed(long lived tree wrong)''] else []) @
         [''Completed in '' @ elapsed, ''Finished with '' @ dec_str (unat (gc_count w')) @ '' collections''], m', w'))))))"

section \<open>mt_gcbench.rs\<close>

definition mt_kStretchTreeDepth :: nat where "mt_kStretchTreeDepth = 18"
definition mt_kArraySize :: nat where "mt_kArraySize = 500000"
definition mt_kLongLivedTreeDepth :: nat where "mt_kLongLivedTreeDepth = 16"
definition mt_kMinTreeDepth :: nat where "mt_kMinTreeDepth = 4"
definition mt_kMaxTreeDepth :: nat where "mt_kMaxTreeDepth = 21"

definition mt_TreeSize :: "profile \<Rightarrow> usize \<Rightarrow> usize res" where
  "mt_TreeSize p i =
     bind_res (usize_add p i 1) (\<lambda>k.
     bind_res (usize_shl p 1 k) (\<lambda>s. usize_sub p s 1))"

definition mt_NumIters :: "profile \<Rightarrow> usize \<Rightarrow> usize res" where
  "mt_NumIters p i =
     bind_res (mt_TreeSize p (of_nat mt_kMaxTreeDepth)) (\<lambda>s.
     bind_res (usize_mul p 20 s) (\<lambda>t.
     bind_res (mt_TreeSize p i) (\<lambda>d. usize_div t d)))"

definition mt_alloc :: "nat \<Rightarrow> profile \<Rightarrow> 'q block_queue \<Rightarrow> 'q step \<Rightarrow> mutator_local \<Rightarrow> 'q world
    \<Rightarrow> (address \<times> mutator_local \<times> 'q world) res option" where
  "mt_alloc fuel p I slow m w =
     bind_ro (alloc fuel p I slow (nt_layout mt_Node) m w) (\<lambda>(addr, m1, w1).
     bind_ro (Some (init_object p m1 w1 addr 195)) (\<lambda>w2. Some (Inr (addr, m1, w2))))"

definition mt_init_Node :: "address \<Rightarrow> address \<Rightarrow> address \<Rightarrow> 'q world \<Rightarrow> 'q world" where
  "mt_init_Node me l r w = store_at me (nt_right mt_Node) r (store_at me (nt_left mt_Node) l w)"

fun mt_Populate :: "nat \<Rightarrow> profile \<Rightarrow> 'q block_queue \<Rightarrow> 'q step \<Rightarrow> nat \<Rightarrow> address \<Rightarrow> 'q step" where
  "mt_Populate fuel p I slow 0 thisNode m w = Some (Inr (m, w))"
| "mt_Populate fuel p I slow (Suc iDepth) thisNode m w =
     bind_ro (mt_alloc fuel p I slow m w) (\<lambda>(l, m1, w1).
     bind_ro (mt_alloc fuel p I slow m1 (store_at thisNode (nt_left mt_Node) l w1)) (\<lambda>(r, m2, w2).
     let w3 = store_at thisNode (nt_right mt_Node) r w2 in
     bind_ro (mt_Populate fuel p I slow iDepth (load_at thisNode (nt_left mt_Node) w3) m2 w3) (\<lambda>(m4, w4).
       mt_Populate fuel p I slow iDepth (load_at thisNode (nt_right mt_Node) w4) m4 w4)))"

fun mt_MakeTree :: "nat \<Rightarrow> profile \<Rightarrow> 'q block_queue \<Rightarrow> 'q step \<Rightarrow> nat \<Rightarrow> mutator_local \<Rightarrow> 'q world
    \<Rightarrow> (address \<times> mutator_local \<times> 'q world) res option" where
  "mt_MakeTree fuel p I slow 0 m w = mt_alloc fuel p I slow m w"
| "mt_MakeTree fuel p I slow (Suc iDepth) m w =
     bind_ro (mt_MakeTree fuel p I slow iDepth m w) (\<lambda>(left, m1, w1).
     bind_ro (mt_MakeTree fuel p I slow iDepth m1 w1) (\<lambda>(right, m2, w2).
     bind_ro (mt_alloc fuel p I slow m2 w2) (\<lambda>(result, m3, w3).
       Some (Inr (result, m3, mt_init_Node result left right w3)))))"

definition mt_TimeConstruction :: "nat \<Rightarrow> profile \<Rightarrow> 'q block_queue \<Rightarrow> 'q step \<Rightarrow> nat \<Rightarrow> 'q step" where
  "mt_TimeConstruction fuel p I slow depth m w =
     bind_ro (Some (mt_NumIters p (of_nat depth))) (\<lambda>iNumIters.
     bind_ro (repeat_step (unat iNumIters) (\<lambda>m w.
         bind_ro (mt_alloc fuel p I slow m w) (\<lambda>(tempTree, m1, w1).
           mt_Populate fuel p I slow depth tempTree m1 w1)) m w) (\<lambda>(m2, w2).
       repeat_step (unat iNumIters) (\<lambda>m w.
         bind_ro (mt_MakeTree fuel p I slow depth m w) (\<lambda>(tempTree, m3, w3). Some (Inr (m3, w3)))) m2 w2))"

function mt_depth_loop :: "nat \<Rightarrow> profile \<Rightarrow> 'q block_queue \<Rightarrow> 'q step \<Rightarrow> nat \<Rightarrow> 'q step" where
  "mt_depth_loop fuel p I slow d m w =
     (if d \<le> mt_kMaxTreeDepth
      then bind_ro (mt_TimeConstruction fuel p I slow d m w) (\<lambda>(m1, w1). mt_depth_loop fuel p I slow (d + 2) m1 w1)
      else Some (Inr (m, w)))"
  by pat_completeness auto
termination
  by (relation "measure (\<lambda>(fuel, p, I, slow, d, m, w). mt_kMaxTreeDepth + 1 - d)") auto

declare mt_depth_loop.simps [simp del]

fun mt_measured_text :: "profile \<Rightarrow> (nat \<Rightarrow> string \<times> string) \<Rightarrow> nat list \<Rightarrow> string list res" where
  "mt_measured_text p durations [] = Inr []"
| "mt_measured_text p durations (d # ds) =
     bind_res (mt_NumIters p (of_nat d)) (\<lambda>n.
     bind_res (mt_measured_text p durations ds) (\<lambda>rest.
       Inr (construction_text (int (unat n)) (int d) (fst (durations d)) (snd (durations d)) @ rest)))"

definition mt_bench_depths :: "nat list" where
  "mt_bench_depths = [4, 6, 8, 10, 12, 14, 16, 18, 20]"

text \<open>What \<open>destroy\<close> prints in a build with debug assertions.\<close>

definition destroy_text :: "profile \<Rightarrow> 'q world \<Rightarrow> string list" where
  "destroy_text p w = (if p = Debug
     then [''destroy mutator. Now live mutators = '' @ dec_str (length (rg_arena (wd_registry w)))] else [])"

text \<open>The body of a thread: \<open>set_low_water_mark\<close> is in the environment of the barrier \<open>slow\<close>.\<close>

definition run_one_test :: "nat \<Rightarrow> profile \<Rightarrow> 'q block_queue \<Rightarrow> 'q step \<Rightarrow> (nat \<Rightarrow> string \<times> string) \<Rightarrow> index \<Rightarrow> 'q world \<Rightarrow> 'q outcome" where
  "run_one_test fuel p I slow durations idx w =
     (let (m1, w1) = mutator_new idx w in
      bind_ro (mt_alloc fuel p I slow m1 w1) (\<lambda>(longLivedTree, m2, w2).
      bind_ro (mt_Populate fuel p I slow mt_kLongLivedTreeDepth longLivedTree m2 w2) (\<lambda>(m3, w3).
      bind_ro (mt_depth_loop fuel p I slow mt_kMinTreeDepth m3 w3) (\<lambda>(m4, w4).
      bind_ro (Some (mt_measured_text p durations mt_bench_depths)) (\<lambda>measured.
        let (m5, w5) = destroy I m4 w4 in
        Some (Inr (['' Creating a long-lived binary tree of depth '' @ dec_str mt_kLongLivedTreeDepth] @ measured @
          destroy_text p w5, m5, w5)))))))"

text \<open>\<open>size_of::<Node>() * n_threads * TreeSize(kLongLivedTreeDepth) + size_of::<Node>() * n_threads *
  TreeSize(kMaxTreeDepth)\<close>\<close>

definition peak_capacity :: "profile \<Rightarrow> usize \<Rightarrow> usize res" where
  "peak_capacity p n_threads =
     bind_res (usize_mul p (ly_size (nt_layout mt_Node)) n_threads) (\<lambda>s.
     bind_res (mt_TreeSize p (of_nat mt_kLongLivedTreeDepth)) (\<lambda>a.
     bind_res (usize_mul p s a) (\<lambda>x.
     bind_res (mt_TreeSize p (of_nat mt_kMaxTreeDepth)) (\<lambda>b.
     bind_res (usize_mul p s b) (\<lambda>y. usize_add p x y)))))"

text \<open>What \<open>start\<close> prints before it spawns the threads.\<close>

definition mt_header :: "usize \<Rightarrow> string list" where
  "mt_header peak =
     [''Garbage Collector Test'',
      '' Live storage will peak at '' @ dec_str (unat peak) @ '' bytes ('' @ dec_str (unat (drop_bit 20 peak)) @ '' MB).'', [],
      '' Stretching memory with a binary tree or depth '' @ dec_str mt_kStretchTreeDepth,
      '' Creating a long-lived array of '' @ dec_str mt_kArraySize @ '' doubles'']"

text \<open>\<open>start\<close>: \<open>run\<close> stands for the threads from their creation to the last \<open>join\<close>, with the lines they
  print; it gives the error of a thread that panics. What it can be is \<open>threads_give\<close> of
  \<open>Threads\<close>. The lines of the sweeps are in the world.\<close>

definition mt_gcbench_start :: "profile \<Rightarrow> 'q block_queue \<Rightarrow> (usize \<Rightarrow> usize option) \<Rightarrow> (usize \<Rightarrow> usize) \<Rightarrow>
    ('q world \<Rightarrow> (string list \<times> 'q world) res option) \<Rightarrow> usize \<Rightarrow> string \<Rightarrow> usize \<Rightarrow> (string list \<times> 'q world) res option" where
  "mt_gcbench_start p I mmap mem run n_threads elapsed sz =
     bind_ro (space_new p I mmap sz) (\<lambda>sp.
     bind_ro (Some (peak_capacity p n_threads)) (\<lambda>peak.
     bind_ro (run (initial_world sp mem)) (\<lambda>(out, w').
       Some (Inr (mt_header peak @ out @
         [''Completed in '' @ elapsed, ''Finished with '' @ dec_str (unat (gc_count w')) @ '' collections''], w')))))"

section \<open>main.rs\<close>

text \<open>\<open>str::parse::<usize>\<close>: a sign is allowed, digits are required, the value has to fit.\<close>

definition parse_usize :: "string \<Rightarrow> usize option" where
  "parse_usize s =
     (let ds = (case s of [] \<Rightarrow> [] | ch # rest \<Rightarrow> if ch = CHR ''+'' then rest else s) in
      if ds \<noteq> [] \<and> list_all is_digit ds \<and> dec_val ds < 2 ^ 64 then Some (of_nat (dec_val ds)) else None)"

definition default_heap :: usize where
  "default_heap = push_bit 30 1"

text \<open>\<open>immix_space_size\<close>, for the value of \<open>HEAP_SIZE\<close> if there is one.\<close>

definition heap_size :: "string option \<Rightarrow> usize res" where
  "heap_size var =
     (case var of
        Some val \<Rightarrow>
          if val \<noteq> [] \<and> last val = CHR ''M''
          then (case parse_usize (butlast val) of
                  None \<Rightarrow> Inl (UnwrapFailed ''ParseIntError'')
                | Some n \<Rightarrow> Inr (push_bit 20 n))
          else Inr default_heap
      | None \<Rightarrow> Inr default_heap)"

definition heap_text :: "string option \<Rightarrow> usize \<Rightarrow> string list" where
  "heap_text var sz =
     (let bytes = dec_str (unat sz) in
      case var of
        Some val \<Rightarrow>
          if val \<noteq> [] \<and> last val = CHR ''M''
          then [''heap is '' @ bytes @ '' bytes (immix: '' @ bytes @ '' bytes) . '']
          else [''unknown heap size variable: '' @ val @ '', ignore'', ''using default heap size: '' @ bytes @ '' bytes. '']
      | None \<Rightarrow> [''using default heap size: '' @ bytes @ '' bytes ('' @ dec_str (unat (drop_bit 20 sz)) @ '' MB). ''])"

record features =
  ft_exhaust :: bool
  ft_initobj :: bool
  ft_gcbench :: bool
  ft_mt_gcbench :: bool
  ft_mark :: bool
  ft_trace :: bool
  ft_mt_trace :: bool

definition forget :: "'q outcome \<Rightarrow> (string list \<times> 'q world) res option" where
  "forget r = bind_ro r (\<lambda>(out, m, w). Some (Inr (out, w)))"

text \<open>The benchmark the features select; without one the program ends with \<open>idle\<close>, the world it
  started in.\<close>

definition selected :: "nat \<Rightarrow> profile \<Rightarrow> 'q block_queue \<Rightarrow> 'q step \<Rightarrow> (usize \<Rightarrow> usize option) \<Rightarrow> index \<Rightarrow>
    (usize \<Rightarrow> usize) \<Rightarrow> node_type \<Rightarrow> (int \<Rightarrow> string \<times> string) \<Rightarrow> ('q world \<Rightarrow> (string list \<times> 'q world) res option) \<Rightarrow> usize \<Rightarrow> string \<Rightarrow> 'q world \<Rightarrow>
    features \<Rightarrow> usize \<Rightarrow> (string list \<times> 'q world) res option" where
  "selected fuel p I slow mmap idx mem nt durations run cpus elapsed idle ft sz =
     (if ft_exhaust ft then forget (exhaust_alloc fuel p I slow mmap idx mem elapsed sz)
      else if ft_initobj ft then forget (alloc_init fuel p I slow mmap idx mem elapsed sz)
      else if ft_gcbench ft then forget (gcbench_start fuel p I slow mmap idx mem nt durations elapsed sz)
      else if ft_mt_gcbench ft then mt_gcbench_start p I mmap mem run cpus elapsed sz
      else if ft_mark ft then Some (Inr ([], idle))
      else if ft_trace ft then forget (alloc_trace fuel p I slow mmap idx mem elapsed sz)
      else if ft_mt_trace ft then forget (mt_alloc_trace fuel p I slow mmap idx mem elapsed sz)
      else Some (Inr ([''unknown features: build with '' @ [char_of (39 :: nat)] @ ''cargo build --release --features '' @ [char_of (34 :: nat)] @ ''exhaust'' @ [char_of (34 :: nat)]], idle)))"

definition main_program :: "nat \<Rightarrow> profile \<Rightarrow> 'q block_queue \<Rightarrow> 'q step \<Rightarrow> (usize \<Rightarrow> usize option) \<Rightarrow> index \<Rightarrow>
    (usize \<Rightarrow> usize) \<Rightarrow> node_type \<Rightarrow> (int \<Rightarrow> string \<times> string) \<Rightarrow> ('q world \<Rightarrow> (string list \<times> 'q world) res option) \<Rightarrow> usize \<Rightarrow> string \<Rightarrow> 'q world \<Rightarrow>
    features \<Rightarrow> string option \<Rightarrow> (string list \<times> 'q world) res option" where
  "main_program fuel p I slow mmap idx mem nt durations run cpus elapsed idle ft var =
     bind_ro (Some (heap_size var)) (\<lambda>sz.
     bind_ro (selected fuel p I slow mmap idx mem nt durations run cpus elapsed idle ft sz) (\<lambda>(out, w).
       Some (Inr (heap_text var sz @
         [''The current machine has '' @ dec_str (unat cpus) @ '' cpus!'', ''Program compiled in 64x mode!''] @ out, w))))"

end
