(* ===== verification/Thread_Programs.thy ===== *)
theory Thread_Programs
  imports Programs
begin

text \<open>
  The thread of \<open>mt_gcbench.rs\<close> as a program that calls the library: what it does next depends on
  the addresses that \<open>alloc\<close> returns and on the words it reads. Run from its first call to its last
  without a pause (\<open>exec\<close>) it is the sequential \<open>run_one_test\<close>; \<open>Threads\<close> runs it side by side
  with others.
\<close>

section \<open>Programs\<close>

text \<open>\<open>Finish\<close> is \<open>mutator.destroy()\<close>, with which the body of a thread ends; \<open>Abort\<close> is a panic.\<close>

datatype thread_prog =
    Alloc layout "address \<Rightarrow> thread_prog"
  | Init address u8 thread_prog
  | Store address usize address thread_prog
  | Load address usize "address \<Rightarrow> thread_prog"
  | Print "string list" thread_prog
  | Abort rust_error
  | Finish

section \<open>mt_gcbench.rs\<close>

definition p_alloc :: "(address \<Rightarrow> thread_prog) \<Rightarrow> thread_prog" where
  "p_alloc k = Alloc (nt_layout mt_Node) (\<lambda>addr. Init addr 195 (k addr))"

definition p_init_Node :: "address \<Rightarrow> address \<Rightarrow> address \<Rightarrow> thread_prog \<Rightarrow> thread_prog" where
  "p_init_Node me l r k = Store me (nt_left mt_Node) l (Store me (nt_right mt_Node) r k)"

fun p_Populate :: "nat \<Rightarrow> address \<Rightarrow> thread_prog \<Rightarrow> thread_prog" where
  "p_Populate 0 thisNode k = k"
| "p_Populate (Suc iDepth) thisNode k =
     p_alloc (\<lambda>l. Store thisNode (nt_left mt_Node) l (
     p_alloc (\<lambda>r. Store thisNode (nt_right mt_Node) r (
     Load thisNode (nt_left mt_Node) (\<lambda>left. p_Populate iDepth left (
     Load thisNode (nt_right mt_Node) (\<lambda>right. p_Populate iDepth right k)))))))"

fun p_MakeTree :: "nat \<Rightarrow> (address \<Rightarrow> thread_prog) \<Rightarrow> thread_prog" where
  "p_MakeTree 0 k = p_alloc k"
| "p_MakeTree (Suc iDepth) k =
     p_MakeTree iDepth (\<lambda>left. p_MakeTree iDepth (\<lambda>right.
     p_alloc (\<lambda>result. p_init_Node result left right (k result))))"

primrec p_repeat :: "nat \<Rightarrow> (thread_prog \<Rightarrow> thread_prog) \<Rightarrow> thread_prog \<Rightarrow> thread_prog" where
  "p_repeat 0 f k = k"
| "p_repeat (Suc n) f k = f (p_repeat n f k)"

definition p_TimeConstruction :: "profile \<Rightarrow> (nat \<Rightarrow> string \<times> string) \<Rightarrow> nat \<Rightarrow> thread_prog \<Rightarrow> thread_prog" where
  "p_TimeConstruction p durations depth k =
     (case mt_NumIters p (of_nat depth) of
        Inl e \<Rightarrow> Abort e
      | Inr iNumIters \<Rightarrow>
          Print [''creating '' @ dec_str (unat iNumIters) @ '' trees of depth '' @ dec_str depth] (
          p_repeat (unat iNumIters) (\<lambda>k. p_alloc (\<lambda>tempTree. p_Populate depth tempTree k)) (
          Print [tab @ ''Top down construction took '' @ fst (durations depth)] (
          p_repeat (unat iNumIters) (\<lambda>k. p_MakeTree depth (\<lambda>tempTree. k)) (
          Print [tab @ ''Buttom up construction took '' @ snd (durations depth)] k)))))"

function p_depth_loop :: "profile \<Rightarrow> (nat \<Rightarrow> string \<times> string) \<Rightarrow> nat \<Rightarrow> thread_prog \<Rightarrow> thread_prog" where
  "p_depth_loop p durations d k =
     (if d \<le> mt_kMaxTreeDepth then p_TimeConstruction p durations d (p_depth_loop p durations (d + 2) k) else k)"
  by pat_completeness auto
termination
  by (relation "measure (\<lambda>(p, durations, d, k). mt_kMaxTreeDepth + 1 - d)") auto

declare p_depth_loop.simps [simp del]

text \<open>\<open>run_one_test\<close> after \<open>ImmixMutatorLocal::new\<close>.\<close>

definition thread_body :: "profile \<Rightarrow> (nat \<Rightarrow> string \<times> string) \<Rightarrow> thread_prog" where
  "thread_body p durations =
     Print ['' Creating a long-lived binary tree of depth '' @ dec_str mt_kLongLivedTreeDepth] (
     p_alloc (\<lambda>longLivedTree. p_Populate mt_kLongLivedTreeDepth longLivedTree (
     p_depth_loop p durations mt_kMinTreeDepth Finish)))"

section \<open>A program by itself\<close>

primrec exec :: "nat \<Rightarrow> profile \<Rightarrow> 'q block_queue \<Rightarrow> 'q step \<Rightarrow> thread_prog \<Rightarrow> mutator_local \<Rightarrow> 'q world \<Rightarrow> 'q outcome" where
  "exec fuel p I slow (Alloc ly k) m w =
     bind_ro (alloc fuel p I slow ly m w) (\<lambda>r. exec fuel p I slow (k (fst r)) (fst (snd r)) (snd (snd r)))"
| "exec fuel p I slow (Init addr encode k) m w =
     bind_ro (Some (init_object p m w addr encode)) (exec fuel p I slow k m)"
| "exec fuel p I slow (Store obj off v k) m w = exec fuel p I slow k m (store_at obj off v w)"
| "exec fuel p I slow (Load obj off k) m w = exec fuel p I slow (k (load_at obj off w)) m w"
| "exec fuel p I slow (Print out k) m w =
     bind_ro (exec fuel p I slow k m w) (\<lambda>r. Some (Inr (out @ fst r, snd r)))"
| "exec fuel p I slow (Abort e) m w = Some (Inl e)"
| "exec fuel p I slow Finish m w =
     (let (m', w') = destroy I m w in Some (Inr (destroy_text p w', m', w')))"

lemma bind_ro_assoc: "bind_ro (bind_ro r f) g = bind_ro r (\<lambda>x. bind_ro (f x) g)"
  by (simp add: bind_ro_def split: option.splits sum.splits)

lemma exec_alloc:
  "exec fuel p I slow (p_alloc k) m w =
     bind_ro (mt_alloc fuel p I slow m w) (\<lambda>r. exec fuel p I slow (k (fst r)) (fst (snd r)) (snd (snd r)))"
  by (simp add: p_alloc_def mt_alloc_def bind_ro_assoc split_def)

lemma exec_Populate:
  "exec fuel p I slow (p_Populate d a k) m w =
     bind_ro (mt_Populate fuel p I slow d a m w) (\<lambda>r. exec fuel p I slow k (fst r) (snd r))"
  by (induction d arbitrary: a k m w) (simp_all add: exec_alloc bind_ro_assoc split_def Let_def)

lemma exec_MakeTree:
  "exec fuel p I slow (p_MakeTree d k) m w =
     bind_ro (mt_MakeTree fuel p I slow d m w) (\<lambda>r. exec fuel p I slow (k (fst r)) (fst (snd r)) (snd (snd r)))"
  by (induction d arbitrary: k m w)
    (simp_all add: exec_alloc bind_ro_assoc split_def p_init_Node_def mt_init_Node_def)

lemma exec_repeat:
  assumes "\<And>k m w. exec fuel p I slow (f k) m w = bind_ro (g m w) (\<lambda>r. exec fuel p I slow k (fst r) (snd r))"
  shows "exec fuel p I slow (p_repeat n f k) m w =
    bind_ro (repeat_step n g m w) (\<lambda>r. exec fuel p I slow k (fst r) (snd r))"
  by (induction n arbitrary: m w) (simp_all add: assms bind_ro_assoc)

text \<open>Lines put in front of what follows.\<close>

definition with_text :: "string list res \<Rightarrow> 'q outcome \<Rightarrow> 'q outcome" where
  "with_text out r = bind_ro (Some out) (\<lambda>l. bind_ro r (\<lambda>x. Some (Inr (l @ fst x, snd x))))"

definition depth_text :: "profile \<Rightarrow> (nat \<Rightarrow> string \<times> string) \<Rightarrow> nat \<Rightarrow> string list res" where
  "depth_text p durations d = bind_res (mt_NumIters p (of_nat d)) (\<lambda>n.
     Inr (construction_text (int (unat n)) (int d) (fst (durations d)) (snd (durations d))))"

definition depths_from :: "nat \<Rightarrow> nat list" where
  "depths_from d = map (\<lambda>j. d + 2 * j) [0..<(mt_kMaxTreeDepth + 2 - d) div 2]"

lemma depths_from_step: "d \<le> mt_kMaxTreeDepth \<Longrightarrow> depths_from d = d # depths_from (d + 2)"
proof -
  assume "d \<le> mt_kMaxTreeDepth"
  then have "(mt_kMaxTreeDepth + 2 - d) div 2 = Suc ((mt_kMaxTreeDepth + 2 - (d + 2)) div 2)"
    by (simp add: mt_kMaxTreeDepth_def)
  then show ?thesis by (simp add: depths_from_def upt_conv_Cons map_Suc_upt [symmetric] comp_def del: upt_Suc)
qed

lemma depths_from_end: "\<not> d \<le> mt_kMaxTreeDepth \<Longrightarrow> depths_from d = []"
  by (simp add: depths_from_def)

lemma depths_from_min: "depths_from mt_kMinTreeDepth = mt_bench_depths"
  by (simp add: depths_from_def mt_kMinTreeDepth_def mt_kMaxTreeDepth_def mt_bench_depths_def upt_rec)

lemma with_text_measured:
  "with_text (mt_measured_text p durations (d # ds)) r =
     with_text (depth_text p durations d) (with_text (mt_measured_text p durations ds) r)"
  by (cases "mt_NumIters p (of_nat d)"; cases "mt_measured_text p durations ds"; cases r; cases "the r")
    (simp_all add: with_text_def depth_text_def)

lemma exec_TimeConstruction:
  "exec fuel p I slow (p_TimeConstruction p durations d k) m w =
     bind_ro (mt_TimeConstruction fuel p I slow d m w) (\<lambda>r. with_text (depth_text p durations d) (exec fuel p I slow k (fst r) (snd r)))"
proof (cases "mt_NumIters p (of_nat d)")
  case (Inr n)
  have populate: "exec fuel p I slow (p_repeat (unat n) (\<lambda>k. p_alloc (\<lambda>t. p_Populate d t k)) k) m w =
      bind_ro (repeat_step (unat n) (\<lambda>m w. bind_ro (mt_alloc fuel p I slow m w)
        (\<lambda>(t, m1, w1). mt_Populate fuel p I slow d t m1 w1)) m w) (\<lambda>r. exec fuel p I slow k (fst r) (snd r))" for k m w
    by (rule exec_repeat) (simp add: exec_alloc exec_Populate bind_ro_assoc split_def)
  have make: "exec fuel p I slow (p_repeat (unat n) (\<lambda>k. p_MakeTree d (\<lambda>t. k)) k) m w =
      bind_ro (repeat_step (unat n) (\<lambda>m w. bind_ro (mt_MakeTree fuel p I slow d m w)
        (\<lambda>(t, m1, w1). Some (Inr (m1, w1)))) m w) (\<lambda>r. exec fuel p I slow k (fst r) (snd r))" for k m w
    by (rule exec_repeat) (simp add: exec_MakeTree bind_ro_assoc split_def)
  show ?thesis
    by (simp add: p_TimeConstruction_def mt_TimeConstruction_def with_text_def depth_text_def Inr populate make
        bind_ro_assoc split_def construction_text_def int_str_def)
qed (simp add: p_TimeConstruction_def mt_TimeConstruction_def)

lemma with_text_later:
  "with_text (Inr t) (bind_ro r f) = bind_ro r (\<lambda>x. with_text (Inr t) (f x))"
  by (simp add: with_text_def bind_ro_assoc)

lemma time_text:
  "bind_ro (mt_TimeConstruction fuel p I slow d m w) (\<lambda>r. with_text (depth_text p durations d) (bind_ro (f r) g)) =
   bind_ro (mt_TimeConstruction fuel p I slow d m w) (\<lambda>r. bind_ro (f r) (\<lambda>x. with_text (depth_text p durations d) (g x)))"
  by (cases "mt_NumIters p (of_nat d)") (simp_all add: mt_TimeConstruction_def with_text_later depth_text_def)

lemma exec_depth_loop:
  "exec fuel p I slow (p_depth_loop p durations d k) m w =
     bind_ro (mt_depth_loop fuel p I slow d m w) (\<lambda>r.
       with_text (mt_measured_text p durations (depths_from d)) (exec fuel p I slow k (fst r) (snd r)))"
proof (induction "mt_kMaxTreeDepth + 1 - d" arbitrary: d m w rule: less_induct)
  case less
  show ?case
  proof (cases "d \<le> mt_kMaxTreeDepth")
    case True
    have IH: "exec fuel p I slow (p_depth_loop p durations (d + 2) k) m w =
      bind_ro (mt_depth_loop fuel p I slow (d + 2) m w) (\<lambda>r.
        with_text (mt_measured_text p durations (depths_from (d + 2))) (exec fuel p I slow k (fst r) (snd r)))" for m w
      by (rule less) (use True in simp)
    show ?thesis
      unfolding p_depth_loop.simps [of p durations d] mt_depth_loop.simps [of fuel p I slow d] depths_from_step [OF True]
      by (simp only: True if_True exec_TimeConstruction IH time_text bind_ro_assoc with_text_measured split_def)
  next
    case False
    have "bind_ro r (\<lambda>x. Some (Inr ([] @ fst x, snd x))) = r" for r :: "'a outcome"
      by (simp add: bind_ro_def split: option.splits sum.splits)
    with False show ?thesis
      by (simp add: p_depth_loop.simps [of p durations d] mt_depth_loop.simps [of fuel p I slow d] depths_from_end
          with_text_def)
  qed
qed

text \<open>The thread by itself is \<open>run_one_test\<close>.\<close>

lemma exec_thread_body:
  "exec fuel p I slow (thread_body p durations) (fst (mutator_new idx w)) (snd (mutator_new idx w)) =
     run_one_test fuel p I slow durations idx w"
  by (simp add: thread_body_def run_one_test_def exec_alloc exec_Populate exec_depth_loop depths_from_min with_text_def
      bind_ro_assoc split_def Let_def)

end
