(* ===== verification/Threads.thy ===== *)
theory Threads
  imports Thread_Programs Shared_Heap
begin

text \<open>
  \<open>start\<close> of \<open>mt_gcbench.rs\<close> with its threads: the main thread spawns one thread per processor and joins
  them, each thread creates a mutator, at any time, and runs its program. A call of \<open>alloc\<close> is cut into the
  steps between which other threads can come in, and inside \<open>sync_barrier\<close> a thread makes the
  steps of \<open>Stop_World\<close>.
\<close>

declare split_paired_All [simp del] split_paired_Ex [simp del]

section \<open>States\<close>

text \<open>Where a thread stands; the layout and the function are those of the call of \<open>alloc\<close> it is in.\<close>

datatype place =
    Unborn
  | Born \<comment> \<open>before \<open>ImmixMutatorLocal::new\<close>\<close>
  | At thread_prog
  | Trying layout "address \<Rightarrow> thread_prog" \<comment> \<open>\<open>try_alloc_from_local\<close>\<close>
  | Handing layout "address \<Rightarrow> thread_prog" \<comment> \<open>\<open>alloc_from_global\<close>, before \<open>return_block\<close>\<close>
  | Yielding layout "address \<Rightarrow> thread_prog" \<comment> \<open>before \<open>yieldpoint\<close>\<close>
  | Stopped layout "address \<Rightarrow> thread_prog" \<comment> \<open>in \<open>sync_barrier\<close>\<close>
  | Fetching layout "address \<Rightarrow> thread_prog" \<comment> \<open>before \<open>get_next_usable_block\<close>\<close>
  | Over
  | Failed rust_error

datatype main_pc = Spawning nat | Joining nat | Joined | Aborted rust_error

text \<open>\<open>th_out\<close> is what has been printed, with the thread that printed it.\<close>

record 'q threads =
  th_stw :: "'q stw"
  th_place :: "nat \<Rightarrow> place"
  th_index :: "nat \<Rightarrow> index"
  th_out :: "(nat \<times> string) list"
  th_main :: main_pc

abbreviation th_world :: "'q threads \<Rightarrow> 'q world" where
  "th_world T \<equiv> st_world (th_stw T)"

abbreviation th_mut :: "'q threads \<Rightarrow> nat \<Rightarrow> mutator_local" where
  "th_mut T t \<equiv> st_local (th_stw T) (th_index T t)"

abbreviation th_pc :: "'q threads \<Rightarrow> nat \<Rightarrow> barrier_pc" where
  "th_pc T t \<equiv> st_pc (th_stw T) (th_index T t)"

definition goes :: "nat \<Rightarrow> place \<Rightarrow> 'q threads \<Rightarrow> 'q threads" where
  "goes t pl T = T\<lparr>th_place := (th_place T)(t := pl)\<rparr>"

text \<open>A thread changes its mutator and the world.\<close>

definition does :: "nat \<Rightarrow> mutator_local \<Rightarrow> 'q world \<Rightarrow> 'q threads \<Rightarrow> 'q threads" where
  "does t m w T = T\<lparr>th_stw := (th_stw T)\<lparr>st_world := w, st_local := (st_local (th_stw T))(th_index T t := m)\<rparr>\<rparr>"

definition prints :: "nat \<Rightarrow> string list \<Rightarrow> 'q threads \<Rightarrow> 'q threads" where
  "prints t out T = T\<lparr>th_out := th_out T @ map (Pair t) out\<rparr>"

lemma threads_sel [simp]:
  "th_stw (goes t pl T) = th_stw T" "th_place (goes t pl T) = (th_place T)(t := pl)" "th_index (goes t pl T) = th_index T"
  "th_out (goes t pl T) = th_out T" "th_main (goes t pl T) = th_main T"
  "th_stw (does t m w T) = (th_stw T)\<lparr>st_world := w, st_local := (st_local (th_stw T))(th_index T t := m)\<rparr>"
  "th_place (does t m w T) = th_place T" "th_index (does t m w T) = th_index T"
  "th_out (does t m w T) = th_out T" "th_main (does t m w T) = th_main T"
  "th_stw (prints t out T) = th_stw T" "th_place (prints t out T) = th_place T" "th_index (prints t out T) = th_index T"
  "th_out (prints t out T) = th_out T @ map (Pair t) out" "th_main (prints t out T) = th_main T"
  by (simp_all add: goes_def does_def prints_def)

section \<open>Steps\<close>

text \<open>Back from a step inside \<open>sync_barrier\<close>: a thread that runs again asks for a block.\<close>

definition after_barrier :: "layout \<Rightarrow> (address \<Rightarrow> thread_prog) \<Rightarrow> barrier_pc \<Rightarrow> place" where
  "after_barrier ly k pc = (case pc of Running \<Rightarrow> Fetching ly k | Crashed e \<Rightarrow> Failed e | _ \<Rightarrow> Stopped ly k)"

inductive thread_step :: "profile \<Rightarrow> 'q block_queue \<Rightarrow> thread_prog \<Rightarrow> nat \<Rightarrow> 'q threads \<Rightarrow> 'q threads \<Rightarrow> bool"
  for p I body t where
  new: "th_place T t = Born \<Longrightarrow> fresh_index (wd_registry (th_world T)) idx \<Longrightarrow> mutator_new idx (th_world T) = (m, w) \<Longrightarrow>
    thread_step p I body t T (goes t (At body) (T\<lparr>th_index := (th_index T)(t := idx),
      th_stw := (th_stw T)\<lparr>st_world := w, st_local := (st_local (th_stw T))(idx := m), st_pc := (st_pc (th_stw T))(idx := Running)\<rparr>\<rparr>))"
| bump: "th_place T t = At (Alloc ly k) \<Longrightarrow> bump p (th_mut T t) ly = Inr (a, e) \<Longrightarrow> e \<le> ml_limit (th_mut T t) \<Longrightarrow>
    thread_step p I body t T (goes t (At (k a)) (does t ((th_mut T t)\<lparr>ml_cursor := e\<rparr>) (th_world T) T))"
| no_room: "th_place T t = At (Alloc ly k) \<Longrightarrow> bump p (th_mut T t) ly = Inr (a, e) \<Longrightarrow> \<not> e \<le> ml_limit (th_mut T t) \<Longrightarrow>
    thread_step p I body t T (goes t (Trying ly k) T)"
| bump_fails: "th_place T t = At (Alloc ly k) \<Longrightarrow> bump p (th_mut T t) ly = Inl err \<Longrightarrow>
    thread_step p I body t T (goes t (Failed err) T)"
| hole: "th_place T t = Trying ly k \<Longrightarrow> next_hole p (th_mut T t) (wd_cells (th_world T)) = Inr (Some h) \<Longrightarrow>
    thread_step p I body t T (goes t (At (Alloc ly k)) (does t (fst h) (with_cells (th_world T) (snd h)) T))"
| no_hole: "th_place T t = Trying ly k \<Longrightarrow> next_hole p (th_mut T t) (wd_cells (th_world T)) = Inr None \<Longrightarrow>
    thread_step p I body t T (goes t (Handing ly k) T)"
| hole_fails: "th_place T t = Trying ly k \<Longrightarrow> next_hole p (th_mut T t) (wd_cells (th_world T)) = Inl err \<Longrightarrow>
    thread_step p I body t T (goes t (Failed err) T)"
| hand: "th_place T t = Handing ly k \<Longrightarrow> return_block I (th_mut T t) (th_world T) = (m, w) \<Longrightarrow>
    thread_step p I body t T (goes t (Yielding ly k) (does t m w T))"
| go_on: "th_place T t = Yielding ly k \<Longrightarrow> \<not> take_yield (rg_globals (wd_registry (th_world T)) (th_index T t)) \<Longrightarrow>
    thread_step p I body t T (goes t (Fetching ly k) T)"
| stop: "th_place T t = Yielding ly k \<Longrightarrow> bstep p I (th_index T t) (th_stw T) S \<Longrightarrow> st_pc S (th_index T t) \<noteq> Running \<Longrightarrow>
    thread_step p I body t T (goes t (Stopped ly k) (T\<lparr>th_stw := S\<rparr>))"
| barrier: "th_place T t = Stopped ly k \<Longrightarrow> bstep p I (th_index T t) (th_stw T) S \<Longrightarrow>
    thread_step p I body t T (goes t (after_barrier ly k (st_pc S (th_index T t))) (T\<lparr>th_stw := S\<rparr>))"
| fetch: "th_place T t = Fetching ly k \<Longrightarrow> fetch_block I (th_world T) = Some (Some b, w) \<Longrightarrow>
    thread_step p I body t T (goes t (At (Alloc ly k)) (does t (take_block (th_mut T t) b) w T))"
| no_block: "th_place T t = Fetching ly k \<Longrightarrow> fetch_block I (th_world T) = Some (None, w) \<Longrightarrow>
    thread_step p I body t T (goes t (Yielding ly k) (does t (th_mut T t) w T))"
| init: "th_place T t = At (Init addr encode k) \<Longrightarrow> init_object p (th_mut T t) (th_world T) addr encode = Inr w \<Longrightarrow>
    thread_step p I body t T (goes t (At k) (does t (th_mut T t) w T))"
| init_fails: "th_place T t = At (Init addr encode k) \<Longrightarrow> init_object p (th_mut T t) (th_world T) addr encode = Inl err \<Longrightarrow>
    thread_step p I body t T (goes t (Failed err) T)"
| store: "th_place T t = At (Store obj off v k) \<Longrightarrow>
    thread_step p I body t T (goes t (At k) (does t (th_mut T t) (store_at obj off v (th_world T)) T))"
| load: "th_place T t = At (Load obj off k) \<Longrightarrow>
    thread_step p I body t T (goes t (At (k (load_at obj off (th_world T)))) T)"
| println: "th_place T t = At (Print out k) \<Longrightarrow> thread_step p I body t T (goes t (At k) (prints t out T))"
| abort: "th_place T t = At (Abort err) \<Longrightarrow> thread_step p I body t T (goes t (Failed err) T)"
| finish: "th_place T t = At Finish \<Longrightarrow> destroy I (th_mut T t) (th_world T) = (m, w) \<Longrightarrow>
    thread_step p I body t T (goes t Over (prints t (destroy_text p w) (does t m w T)))"

text \<open>The main thread of \<open>n\<close> threads: \<open>thread::spawn\<close>, and \<open>join().unwrap()\<close>, which panics when the
  thread has panicked.\<close>

inductive main_step :: "nat \<Rightarrow> 'q threads \<Rightarrow> 'q threads \<Rightarrow> bool" for n where
  spawn: "th_main T = Spawning i \<Longrightarrow> i < n \<Longrightarrow> main_step n T (goes i Born (T\<lparr>th_main := Spawning (Suc i)\<rparr>))"
| spawned: "th_main T = Spawning n \<Longrightarrow> main_step n T (T\<lparr>th_main := Joining 0\<rparr>)"
| join: "th_main T = Joining i \<Longrightarrow> i < n \<Longrightarrow> th_place T i = Over \<Longrightarrow> main_step n T (T\<lparr>th_main := Joining (Suc i)\<rparr>)"
| join_fails: "th_main T = Joining i \<Longrightarrow> i < n \<Longrightarrow> th_place T i = Failed err \<Longrightarrow>
    main_step n T (T\<lparr>th_main := Aborted (UnwrapFailed ''Any'')\<rparr>)"
| joined: "th_main T = Joining n \<Longrightarrow> main_step n T (T\<lparr>th_main := Joined\<rparr>)"

inductive threads_step :: "profile \<Rightarrow> 'q block_queue \<Rightarrow> thread_prog \<Rightarrow> nat \<Rightarrow> 'q threads \<Rightarrow> 'q threads \<Rightarrow> bool"
  for p I body n where
  main: "main_step n T T' \<Longrightarrow> threads_step p I body n T T'"
| thread: "t < n \<Longrightarrow> thread_step p I body t T T' \<Longrightarrow> threads_step p I body n T T'"

abbreviation threads_run :: "profile \<Rightarrow> 'q block_queue \<Rightarrow> thread_prog \<Rightarrow> nat \<Rightarrow> 'q threads \<Rightarrow> 'q threads \<Rightarrow> bool" where
  "threads_run p I body n \<equiv> (threads_step p I body n)\<^sup>*\<^sup>*"

text \<open>Before the first \<open>spawn\<close>: no mutator, and the space of the program.\<close>

definition threads_start :: "'q world \<Rightarrow> 'q threads \<Rightarrow> bool" where
  "threads_start w T \<longleftrightarrow> th_world T = w \<and> st_lock (th_stw T) = None \<and> (\<forall>t. th_place T t = Unborn) \<and>
     th_out T = [] \<and> th_main T = Spawning 0"

text \<open>What a program can print, and the world it leaves, when all \<open>n\<close> threads have been joined.\<close>

definition threads_give :: "profile \<Rightarrow> 'q block_queue \<Rightarrow> thread_prog \<Rightarrow> nat \<Rightarrow> 'q world \<Rightarrow> string list \<times> 'q world \<Rightarrow> bool" where
  "threads_give p I body n w x \<longleftrightarrow> (\<exists>T0 T. threads_start w T0 \<and> threads_run p I body n T0 T \<and> th_main T = Joined \<and>
     x = (map snd (th_out T), th_world T))"

section \<open>Threads and mutators\<close>

text \<open>A program asks for layouts the type \<open>Layout\<close> admits.\<close>

primrec layouts_ok :: "thread_prog \<Rightarrow> bool" where
  "layouts_ok (Alloc ly k) \<longleftrightarrow> layout_ok ly \<and> (\<forall>a. layouts_ok (k a))"
| "layouts_ok (Init addr encode k) \<longleftrightarrow> layouts_ok k"
| "layouts_ok (Store obj off v k) \<longleftrightarrow> layouts_ok k"
| "layouts_ok (Load obj off k) \<longleftrightarrow> (\<forall>a. layouts_ok (k a))"
| "layouts_ok (Print out k) \<longleftrightarrow> layouts_ok k"
| "layouts_ok (Abort e) \<longleftrightarrow> True"
| "layouts_ok Finish \<longleftrightarrow> True"

text \<open>A thread whose mutator is registered, and how its place fits what the mutator does.\<close>

fun holding :: "place \<Rightarrow> bool" where
  "holding Unborn = False" | "holding Born = False" | "holding Over = False" | "holding _ = True"

definition works :: "'q stw \<Rightarrow> index \<Rightarrow> thread_prog \<Rightarrow> bool" where
  "works s i pr \<longleftrightarrow> i \<in> arena s \<and> st_pc s i = Running \<and> layouts_ok pr"

fun seat :: "'q stw \<Rightarrow> index \<Rightarrow> place \<Rightarrow> bool" where
  "seat s i (At pr) \<longleftrightarrow> works s i pr"
| "seat s i (Trying ly k) \<longleftrightarrow> works s i (Alloc ly k)"
| "seat s i (Handing ly k) \<longleftrightarrow> works s i (Alloc ly k)"
| "seat s i (Yielding ly k) \<longleftrightarrow> works s i (Alloc ly k) \<and> ml_block (st_local s i) = None"
| "seat s i (Fetching ly k) \<longleftrightarrow> works s i (Alloc ly k) \<and> ml_block (st_local s i) = None"
| "seat s i (Stopped ly k) \<longleftrightarrow> i \<in> arena s \<and> st_pc s i \<noteq> Running \<and> \<not> crashed (st_pc s i) \<and>
     layouts_ok (Alloc ly k) \<and> ml_block (st_local s i) = None"
| "seat s i (Failed e) \<longleftrightarrow> i \<in> arena s"
| "seat s i pl \<longleftrightarrow> True"

lemma seat_arena: "seat s i pl \<Longrightarrow> holding pl \<Longrightarrow> i \<in> arena s"
  by (cases pl) (simp_all add: works_def)

text \<open>What a step of one mutator does to another.\<close>

lemma bstep_other:
  assumes st: "bstep p I i s s'" and j: "j \<noteq> i" and id: "ml_id (st_local s i) = i"
  shows "st_local s' j = st_local s j" and "j \<in> arena s' \<longleftrightarrow> j \<in> arena s"
    and "st_pc s' j = st_pc s j \<or> st_pc s j = Parked \<and> st_pc s' j = Waking"
proof -
  show "st_local s' j = st_local s j" using st j by cases (auto split: option.splits)
  show "st_pc s' j = st_pc s j \<or> st_pc s j = Parked \<and> st_pc s' j = Waking" using st j by cases (auto split: option.splits)
  show "j \<in> arena s' \<longleftrightarrow> j \<in> arena s" using st
  proof cases
    case (work m' w')
    then show ?thesis using mutator_op_barrier [OF work(3)] by (simp add: barrier_frame_def)
  next
    case (leave m' w')
    then show ?thesis using destroy_barrier [OF leave(3)] j id by auto
  next
    case (prepare seen m' w')
    then show ?thesis
      using return_block_barrier [of I "st_local s i" "st_world s" m' w'] by (simp add: prepare_for_gc_def)
  next
    case (collect sched w')
    then show ?thesis using gc_barrier [OF collect(3)] by simp
  qed simp_all
qed

lemma seat_other:
  assumes "bstep p I i s s'" and "j \<noteq> i" and "ml_id (st_local s i) = i" and "seat s j pl"
  shows "seat s' j pl"
  using assms(4) bstep_other [OF assms(1-3)] by (cases pl) (auto simp: works_def)

lemma seat_created:
  assumes "seat s j pl" and "holding pl \<Longrightarrow> j \<noteq> idx"
  shows "seat (s\<lparr>st_world := (st_world s)\<lparr>wd_registry := register (wd_registry (st_world s)) idx g\<rparr>,
    st_local := (st_local s)(idx := m), st_pc := (st_pc s)(idx := Running)\<rparr>) j pl"
  using assms by (cases pl) (auto simp: works_def register_def)

lemma barrier_no_block:
  assumes "bstep p I i s s'" and "st_pc s i \<noteq> Running" and "ml_block (st_local s i) = None"
  shows "ml_block (st_local s' i) = None"
  using assms by cases (auto simp: prepare_for_gc_def reset_def dest: return_block_barrier)

lemma barrier_seat:
  assumes st: "bstep p I i s s'" and reg: "reg_inv s" and seat: "seat s i (Stopped ly k)"
  shows "seat s' i (after_barrier ly k (st_pc s' i))"
proof -
  have i: "i \<in> arena s" "st_pc s i \<noteq> Running" "ml_block (st_local s i) = None" "layouts_ok (Alloc ly k)"
    using seat by simp_all
  have "arena s' = arena s" using arena_step [OF reg i(1) st] i(2) by blast
  then show ?thesis
    using barrier_no_block [OF st i(2,3)] i by (cases "st_pc s' i") (auto simp: after_barrier_def works_def)
qed

lemma stop_seat:
  assumes st: "bstep p I i s s'" and pc: "st_pc s' i \<noteq> Running" and seat: "seat s i (Yielding ly k)"
  shows "seat s' i (Stopped ly k)"
  using st pc seat by cases (auto simp: works_def)

text \<open>A step of a thread is a step of its mutator, unless it creates it or only changes place.\<close>

lemma work_step:
  assumes "works (th_stw T) (th_index T t) pr" and "mutator_op p I (th_mut T t) (th_world T) m w"
  shows "bstep p I (th_index T t) (th_stw T) (th_stw (does t m w T))"
    and "works (th_stw (does t m w T)) (th_index T t) pr"
proof -
  show "bstep p I (th_index T t) (th_stw T) (th_stw (does t m w T))"
    using bstep.work [of "th_stw T" "th_index T t" p I m w] assms by (simp add: works_def)
  show "works (th_stw (does t m w T)) (th_index T t) pr"
    using assms mutator_op_barrier [OF assms(2)] by (simp add: works_def barrier_frame_def)
qed

lemma works_sub: "works s i pr \<Longrightarrow> layouts_ok pr' \<Longrightarrow> works s i pr'"
  by (simp add: works_def)

definition own_step :: "profile \<Rightarrow> 'q block_queue \<Rightarrow> nat \<Rightarrow> 'q threads \<Rightarrow> 'q threads \<Rightarrow> bool" where
  "own_step p I t T T' \<longleftrightarrow> th_index T' = th_index T \<and> holding (th_place T t) \<and>
     (th_stw T' = th_stw T \<or> bstep p I (th_index T t) (th_stw T) (th_stw T')) \<and>
     (holding (th_place T' t) \<or> th_index T t \<notin> arena (th_stw T')) \<and> seat (th_stw T') (th_index T t) (th_place T' t)"

definition birth :: "thread_prog \<Rightarrow> nat \<Rightarrow> 'q threads \<Rightarrow> 'q threads \<Rightarrow> bool" where
  "birth body t T T' \<longleftrightarrow> th_place T t = Born \<and> (\<exists>idx. fresh_index (wd_registry (th_world T)) idx \<and>
     th_index T' = (th_index T)(t := idx) \<and> th_place T' t = At body \<and>
     th_stw T' = (th_stw T)\<lparr>st_world := snd (mutator_new idx (th_world T)),
       st_local := (st_local (th_stw T))(idx := fst (mutator_new idx (th_world T))), st_pc := (st_pc (th_stw T))(idx := Running)\<rparr>)"

lemma thread_step_frame:
  assumes "thread_step p I body t T T'"
  shows "th_main T' = th_main T" and "u \<noteq> t \<Longrightarrow> th_place T' u = th_place T u"
    and "u \<noteq> t \<Longrightarrow> th_index T' u = th_index T u"
  using assms by (cases; simp)+

lemma own_work:
  assumes "works (th_stw T) (th_index T t) pr" and "holding (th_place T t)"
    and "mutator_op p I (th_mut T t) (th_world T) m w"
    and "holding pl" and "seat (th_stw (does t m w T)) (th_index T t) pl"
  shows "own_step p I t T (goes t pl (does t m w T))"
  using work_step(1) [OF assms(1,3)] assms by (simp add: own_step_def)

lemma thread_step_kind:
  assumes st: "thread_step p I body t T T'" and reg: "reg_inv (th_stw T)"
    and seat: "seat (th_stw T) (th_index T t) (th_place T t)"
  shows "own_step p I t T T' \<or> birth body t T T'"
  using st
proof cases
  case (new idx m w)
  then have "birth body t T T'" by (auto simp: birth_def)
  then show ?thesis ..
next
  case (bump ly k a e)
  then have w: "works (th_stw T) (th_index T t) (Alloc ly k)" using seat by simp
  then have op: "mutator_op p I (th_mut T t) (th_world T) ((th_mut T t)\<lparr>ml_cursor := e\<rparr>) (th_world T)"
    using mutator_op.bump [OF _ bump(3)] bump(4) by (simp add: works_def)
  have "own_step p I t T T'" unfolding bump(1)
    by (rule own_work [OF w _ op]) (use bump(2) work_step(2) [OF w op] in \<open>simp_all add: works_def\<close>)
  then show ?thesis ..
next
  case (hole ly k h)
  then have w: "works (th_stw T) (th_index T t) (Alloc ly k)" using seat by simp
  note op = mutator_op.hole [OF hole(3)]
  have "own_step p I t T T'" unfolding hole(1)
    by (rule own_work [OF w _ op]) (use hole(2) work_step(2) [OF w op] in simp_all)
  then show ?thesis ..
next
  case (hand ly k m w)
  then have w: "works (th_stw T) (th_index T t) (Alloc ly k)" using seat by simp
  note op = mutator_op.give_back [OF hand(3)]
  have "own_step p I t T T'" unfolding hand(1)
    by (rule own_work [OF w _ op])
      (use hand(2) work_step(2) [OF w op] return_block_barrier [OF hand(3)] in simp_all)
  then show ?thesis ..
next
  case (stop ly k S)
  then have "own_step p I t T T'" using stop_seat [OF stop(3,4), of ly k] seat by (simp add: own_step_def)
  then show ?thesis ..
next
  case (barrier ly k S)
  then have "holding (after_barrier ly k (st_pc S (th_index T t)))" by (simp add: after_barrier_def split: barrier_pc.splits)
  then have "own_step p I t T T'" using barrier barrier_seat [OF barrier(3) reg, of ly k] seat by (simp add: own_step_def)
  then show ?thesis ..
next
  case (fetch ly k b w)
  then have w: "works (th_stw T) (th_index T t) (Alloc ly k)" and none: "ml_block (th_mut T t) = None" using seat by simp_all
  note op = mutator_op.fetch [OF none fetch(3)]
  have "own_step p I t T T'" unfolding fetch(1)
    by (rule own_work [OF w _ op]) (use fetch(2) work_step(2) [OF w op] in simp_all)
  then show ?thesis ..
next
  case (no_block ly k w)
  then have w: "works (th_stw T) (th_index T t) (Alloc ly k)" and none: "ml_block (th_mut T t) = None" using seat by simp_all
  note op = mutator_op.fetch_none [OF no_block(3)]
  have "own_step p I t T T'" unfolding no_block(1)
    by (rule own_work [OF w _ op]) (use no_block(2) none work_step(2) [OF w op] in simp_all)
  then show ?thesis ..
next
  case (init addr encode k w)
  then have w: "works (th_stw T) (th_index T t) (Init addr encode k)" using seat by simp
  note op = mutator_op.init [OF init(3)]
  have "own_step p I t T T'" unfolding init(1)
    by (rule own_work [OF w _ op]) (use init(2) work_step(2) [OF w op] in \<open>simp_all add: works_def\<close>)
  then show ?thesis ..
next
  case (store obj off v k)
  then have w: "works (th_stw T) (th_index T t) (Store obj off v k)" using seat by simp
  have op: "mutator_op p I (th_mut T t) (th_world T) (th_mut T t) (store_at obj off v (th_world T))"
    unfolding store_at_def by (rule mutator_op.store)
  have "own_step p I t T T'" unfolding store(1)
    by (rule own_work [OF w _ op]) (use store(2) work_step(2) [OF w op] in \<open>simp_all add: works_def\<close>)
  then show ?thesis ..
next
  case (finish m w)
  then have w: "works (th_stw T) (th_index T t) Finish" using seat by simp
  then have id: "ml_id (th_mut T t) = th_index T t" using reg by (simp add: reg_inv_def works_def)
  have "bstep p I (th_index T t) (th_stw T) ((th_stw T)\<lparr>st_world := w, st_local := (st_local (th_stw T))(th_index T t := m)\<rparr>)"
    using w by (intro bstep.leave finish(3)) (simp add: works_def)
  then have "own_step p I t T T'" using finish destroy_barrier [OF finish(3)] id by (simp add: own_step_def)
  then show ?thesis ..
qed (use seat in \<open>auto simp: own_step_def works_def\<close>)

section \<open>The threads are a run of the protocol\<close>

definition threads_inv :: "nat \<Rightarrow> 'q threads \<Rightarrow> bool" where
  "threads_inv n T \<longleftrightarrow> reg_inv (th_stw T) \<and>
     (\<forall>t<n. seat (th_stw T) (th_index T t) (th_place T t)) \<and>
     (\<forall>t<n. \<forall>u<n. t \<noteq> u \<longrightarrow> holding (th_place T t) \<longrightarrow> holding (th_place T u) \<longrightarrow> th_index T t \<noteq> th_index T u) \<and>
     (\<forall>i\<in>arena (th_stw T). \<exists>t<n. holding (th_place T t) \<and> th_index T t = i)"

text \<open>What the main thread knows: the threads are spawned and joined in order.\<close>

definition main_inv :: "nat \<Rightarrow> 'q threads \<Rightarrow> bool" where
  "main_inv n T \<longleftrightarrow> (case th_main T of
     Spawning i \<Rightarrow> i \<le> n \<and> (\<forall>t<n. i \<le> t \<longrightarrow> th_place T t = Unborn)
   | Joining i \<Rightarrow> i \<le> n \<and> (\<forall>t<i. th_place T t = Over)
   | Joined \<Rightarrow> \<forall>t<n. th_place T t = Over
   | Aborted e \<Rightarrow> \<exists>t<n. \<exists>e. th_place T t = Failed e)"

lemma threads_inv_arena:
  assumes "threads_inv n T" and "t < n" and "\<not> holding (th_place T t)"
  shows "Suc (length (rg_arena (wd_registry (th_world T)))) \<le> n"
proof -
  have "i \<in> th_index T ` ({..<n} - {t})" if i: "i \<in> arena (th_stw T)" for i
  proof -
    obtain u where "u < n" "holding (th_place T u)" "th_index T u = i" using i assms(1) unfolding threads_inv_def by blast
    then show ?thesis using assms(3) by (intro image_eqI [of _ _ u]) auto
  qed
  then have "arena (th_stw T) \<subseteq> th_index T ` ({..<n} - {t})" by blast
  then have "card (arena (th_stw T)) \<le> card ({..<n} - {t})" by (rule surj_card_le [rotated]) simp
  also have "card ({..<n} - {t}) = n - 1" using assms(2) by simp
  finally have "card (arena (th_stw T)) \<le> n - 1" .
  moreover have "distinct (rg_arena (wd_registry (th_world T)))"
    using assms(1) by (simp add: threads_inv_def reg_inv_def registry_ok_distinct)
  ultimately show ?thesis using assms(2) by (simp add: distinct_card)
qed

lemma threads_inv_bij:
  assumes inv: "threads_inv n T"
  shows "bij_betw (th_index T) {t. t < n \<and> holding (th_place T t)} (arena (th_stw T))"
proof -
  let ?H = "{t. t < n \<and> holding (th_place T t)}"
  have "inj_on (th_index T) ?H" using inv unfolding threads_inv_def inj_on_def by blast
  moreover have "th_index T ` ?H \<subseteq> arena (th_stw T)"
  proof
    fix i assume "i \<in> th_index T ` ?H"
    then obtain t where t: "i = th_index T t" "t < n" "holding (th_place T t)" by blast
    then have "seat (th_stw T) (th_index T t) (th_place T t)" using inv by (simp add: threads_inv_def)
    then show "i \<in> arena (th_stw T)" using seat_arena t(1,3) by simp
  qed
  moreover have "arena (th_stw T) \<subseteq> th_index T ` ?H"
  proof
    fix i assume "i \<in> arena (th_stw T)"
    then obtain t where "t < n" "holding (th_place T t)" "th_index T t = i" using inv unfolding threads_inv_def by blast
    then show "i \<in> th_index T ` ?H" by (intro image_eqI [of _ _ t]) simp_all
  qed
  ultimately show ?thesis unfolding bij_betw_def by blast
qed

lemma threads_inv_own:
  assumes inv: "threads_inv n T" and t: "t < n" and own: "own_step p I t T T'"
    and frame: "\<And>u. u \<noteq> t \<Longrightarrow> th_place T' u = th_place T u"
  shows "threads_inv n T'"
proof -
  let ?i = "th_index T t"
  have ix: "th_index T' = th_index T" and holds: "holding (th_place T t)"
    and keep: "holding (th_place T' t) \<or> ?i \<notin> arena (th_stw T')" and seat: "seat (th_stw T') ?i (th_place T' t)"
    and st: "th_stw T' = th_stw T \<or> bstep p I ?i (th_stw T) (th_stw T')"
    using own by (simp_all add: own_step_def)
  have reg: "reg_inv (th_stw T)" and seats: "\<And>u. u < n \<Longrightarrow> seat (th_stw T) (th_index T u) (th_place T u)"
    and apart: "\<And>u. u < n \<Longrightarrow> u \<noteq> t \<Longrightarrow> holding (th_place T u) \<Longrightarrow> th_index T u \<noteq> ?i"
    and inside: "\<And>i. i \<in> arena (th_stw T) \<Longrightarrow> \<exists>u<n. holding (th_place T u) \<and> th_index T u = i"
    using inv t holds by (auto simp: threads_inv_def)
  have i: "?i \<in> arena (th_stw T)" using seat_arena [OF seats [OF t] holds] .
  then have id: "ml_id (st_local (th_stw T) ?i) = ?i" using reg by (simp add: reg_inv_def)
  have "reg_inv (th_stw T')" using st reg reg_inv_step [OF reg i] by auto
  moreover have "seat (th_stw T') (th_index T' u) (th_place T' u)" if u: "u < n" for u
  proof (cases "u = t")
    case False
    show ?thesis
    proof (cases "holding (th_place T u)")
      case True
      then show ?thesis using st seats [OF u] seat_other [OF _ apart [OF u False True] id] frame [OF False] ix by auto
    next
      case False': False
      then show ?thesis using frame [OF False] by (cases "th_place T u") simp_all
    qed
  qed (use seat ix in simp)
  moreover have "\<exists>u<n. holding (th_place T' u) \<and> th_index T' u = j" if j: "j \<in> arena (th_stw T')" for j
  proof -
    have "arena (th_stw T') \<subseteq> arena (th_stw T)" using st
    proof
      assume "bstep p I ?i (th_stw T) (th_stw T')"
      then show ?thesis by (rule arena_shrinks)
    qed simp
    then obtain u where u: "u < n" "holding (th_place T u)" "th_index T u = j" using inside j by blast
    then have "holding (th_place T' u)" using keep j frame [of u] by (cases "u = t") auto
    then show ?thesis using u ix by metis
  qed
  moreover have "th_index T' u \<noteq> th_index T' v"
    if "u < n" "v < n" "u \<noteq> v" "holding (th_place T' u)" "holding (th_place T' v)" for u v
  proof -
    have "holding (th_place T u)" "holding (th_place T v)"
      using that(4,5) frame [of u] frame [of v] holds by (cases "u = t"; cases "v = t"; simp)+
    then show ?thesis using inv that(1-3) ix by (simp add: threads_inv_def)
  qed
  ultimately show ?thesis unfolding threads_inv_def by blast
qed

lemma threads_inv_birth:
  assumes inv: "threads_inv n T" and t: "t < n" and n: "n < 2 ^ 64" and birth: "birth body t T T'" and body: "layouts_ok body"
    and frame: "\<And>u. u \<noteq> t \<Longrightarrow> th_place T' u = th_place T u"
  shows "threads_inv n T' \<and> open_step p I (th_stw T) (th_stw T')"
proof -
  let ?w = "th_world T"
  obtain idx where place: "th_place T t = Born" and fresh: "fresh_index (wd_registry ?w) idx"
    and ix: "th_index T' = (th_index T)(t := idx)" and pl: "th_place T' t = At body"
    and S: "th_stw T' = (th_stw T)\<lparr>st_world := snd (mutator_new idx ?w),
       st_local := (st_local (th_stw T))(idx := fst (mutator_new idx ?w)), st_pc := (st_pc (th_stw T))(idx := Running)\<rparr>"
    using birth by (auto simp: birth_def)
  have S': "th_stw T' = (th_stw T)\<lparr>st_world := ?w\<lparr>wd_registry := register (wd_registry ?w) idx mg_new\<rparr>,
       st_local := (st_local (th_stw T))(idx := fst (mutator_new idx ?w)), st_pc := (st_pc (th_stw T))(idx := Running)\<rparr>"
    by (simp add: S mutator_new_def)
  have new: "idx \<notin> arena (th_stw T)" using fresh by (auto simp: fresh_index_def)
  have ar: "arena (th_stw T') = insert idx (arena (th_stw T))" by (auto simp: S' register_def)
  have seats: "\<And>u. u < n \<Longrightarrow> seat (th_stw T) (th_index T u) (th_place T u)" using inv by (simp add: threads_inv_def)
  have other: "th_index T u \<noteq> idx" if "u < n" "holding (th_place T u)" for u
    using seat_arena [OF seats [OF that(1)] that(2)] new by auto
  have "Suc (length (rg_arena (wd_registry ?w))) < 2 ^ 64"
    using threads_inv_arena [OF inv t] place n by simp
  then have "registry_ok (register (wd_registry ?w) idx mg_new)"
    using inv registry_ok_register [OF _ fresh] by (simp add: threads_inv_def reg_inv_def)
  then have "reg_inv (th_stw T')" using inv by (auto simp: threads_inv_def reg_inv_def S' register_def mutator_new_def)
  moreover have "seat (th_stw T') (th_index T' u) (th_place T' u)" if u: "u < n" for u
  proof (cases "u = t")
    case True
    then show ?thesis using pl ix body ar by (simp add: works_def S')
  next
    case False
    then show ?thesis
      using seat_created [OF seats [OF u], of idx "fst (mutator_new idx ?w)" mg_new] other [OF u] frame [OF False] ix by (simp add: S')
  qed
  moreover have "\<exists>u<n. holding (th_place T' u) \<and> th_index T' u = j" if j: "j \<in> arena (th_stw T')" for j
  proof (cases "j = idx")
    case True
    then show ?thesis using t pl ix by (intro exI [of _ t]) simp
  next
    case False
    then obtain u where u: "u < n" "holding (th_place T u)" "th_index T u = j"
      using j ar inv unfolding threads_inv_def by blast
    then have "u \<noteq> t" using place by auto
    then show ?thesis using u frame [of u] ix by (intro exI [of _ u]) simp
  qed
  moreover have "th_index T' u \<noteq> th_index T' v"
    if "u < n" "v < n" "u \<noteq> v" "holding (th_place T' u)" "holding (th_place T' v)" for u v
  proof -
    have old: "holding (th_place T x)" if "x \<noteq> t" "holding (th_place T' x)" for x using that frame [of x] by simp
    show ?thesis
    proof (cases "u = t \<or> v = t")
      case True
      then show ?thesis using that other [of u] other [of v] old ix by auto
    next
      case False
      then have "th_index T u \<noteq> th_index T v" using inv that old unfolding threads_inv_def by blast
      then show ?thesis using False ix by simp
    qed
  qed
  moreover have "open_step p I (th_stw T) (th_stw T')"
    unfolding S by (rule open_step.create [OF fresh]) simp
  ultimately show ?thesis unfolding threads_inv_def by blast
qed

lemma thread_step_from:
  assumes "thread_step p I body t T T'"
  shows "th_place T t \<noteq> Unborn" and "th_place T t \<noteq> Over" and "th_place T t \<noteq> Failed e"
  using assms by (cases; simp)+

lemma main_inv_thread:
  assumes "main_inv n T" and st: "thread_step p I body t T T'"
  shows "main_inv n T'"
proof -
  have same: "th_place T' u = th_place T u" if "th_place T u \<in> {Unborn, Over} \<union> range Failed" for u
    using that thread_step_from [OF st] thread_step_frame(2) [OF st, of u] by (cases "u = t") auto
  show ?thesis
    using assms(1) same thread_step_frame(1) [OF st] unfolding main_inv_def by (auto split: main_pc.splits)
qed

lemma main_inv_main:
  assumes "main_inv n T" and "main_step n T T'"
  shows "main_inv n T'"
  using assms(2,1) by cases (auto simp: main_inv_def less_Suc_eq)

text \<open>The main thread leaves the mutators alone.\<close>

lemma main_step_frame:
  assumes "main_step n T T'" and "main_inv n T"
  shows "th_stw T' = th_stw T" and "th_index T' = th_index T" and "th_out T' = th_out T"
    and "th_place T' u = th_place T u \<or> th_place T u = Unborn \<and> th_place T' u = Born"
  using assms by (cases; auto simp: main_inv_def)+

lemma threads_inv_main:
  assumes st: "main_step n T T'" and main: "main_inv n T" and inv: "threads_inv n T"
  shows "threads_inv n T'"
proof -
  note frame = main_step_frame [OF st main]
  have holds: "holding (th_place T' u) = holding (th_place T u)" for u using frame(4) [of u] by auto
  have seats: "seat s i (th_place T' u) = seat s i (th_place T u)" for u s i using frame(4) [of u] by auto
  show ?thesis using inv unfolding threads_inv_def frame(1,2) holds seats .
qed

lemma threads_step_inv:
  assumes inv: "threads_inv n T" and main: "main_inv n T" and n: "n < 2 ^ 64" and body: "layouts_ok body"
    and st: "threads_step p I body n T T'"
  shows "threads_inv n T' \<and> main_inv n T' \<and> open_run p I (th_stw T) (th_stw T')"
  using st
proof cases
  case main: main
  then show ?thesis
    using threads_inv_main [OF main assms(2) inv] main_inv_main [OF assms(2) main] main_step_frame(1) [OF main assms(2)] by simp
next
  case (thread t)
  note frame = thread_step_frame(2) [OF thread(2)]
  have seat: "seat (th_stw T) (th_index T t) (th_place T t)" and reg: "reg_inv (th_stw T)"
    using inv thread(1) by (simp_all add: threads_inv_def)
  have "threads_inv n T' \<and> open_run p I (th_stw T) (th_stw T')"
    using thread_step_kind [OF thread(2) reg seat]
  proof
    assume own: "own_step p I t T T'"
    then have "th_index T t \<in> arena (th_stw T)" using seat_arena [OF seat] by (simp add: own_step_def)
    then have "open_run p I (th_stw T) (th_stw T')" using own open_step.move unfolding own_step_def by fastforce
    then show ?thesis using threads_inv_own [OF inv thread(1) own frame] by blast
  next
    assume "birth body t T T'"
    from threads_inv_birth [OF inv thread(1) n this body frame, of p I] show ?thesis by blast
  qed
  then show ?thesis using main_inv_thread [OF main thread(2)] by simp
qed

lemma threads_inv_start:
  assumes "threads_start w T" and "wd_registry w = empty_registry"
  shows "threads_inv n T \<and> main_inv n T"
  using assms registry_ok_empty
  by (auto simp: threads_start_def threads_inv_def main_inv_def reg_inv_def empty_registry_def)

lemma threads_run_inv:
  assumes start: "threads_start w T0" "wd_registry w = empty_registry" and n: "n < 2 ^ 64" and body: "layouts_ok body"
    and run: "threads_run p I body n T0 T"
  shows "threads_inv n T \<and> main_inv n T \<and> open_run p I (th_stw T0) (th_stw T)"
  using run
proof induction
  case base
  then show ?case using threads_inv_start [OF start] by simp
next
  case (step T U)
  then show ?case using threads_step_inv [OF _ _ n body step(2)] rtranclp_trans [of "open_step p I"] by blast
qed

section \<open>What a thread prints\<close>

text \<open>\<open>says p pr out\<close>: \<open>out\<close> is what the program \<open>pr\<close> can print until it ends normally.\<close>

primrec says :: "profile \<Rightarrow> thread_prog \<Rightarrow> string list \<Rightarrow> bool" where
  "says p (Alloc ly k) out \<longleftrightarrow> (\<exists>a. says p (k a) out)"
| "says p (Init addr encode k) out \<longleftrightarrow> says p k out"
| "says p (Store obj off v k) out \<longleftrightarrow> says p k out"
| "says p (Load obj off k) out \<longleftrightarrow> (\<exists>a. says p (k a) out)"
| "says p (Print l k) out \<longleftrightarrow> (\<exists>rest. out = l @ rest \<and> says p k rest)"
| "says p (Abort e) out \<longleftrightarrow> False"
| "says p Finish out \<longleftrightarrow> (\<exists>live. out = (if p = Debug then [''destroy mutator. Now live mutators = '' @ dec_str live] else []))"

fun pending :: "profile \<Rightarrow> thread_prog \<Rightarrow> place \<Rightarrow> string list \<Rightarrow> bool" where
  "pending p body (At pr) out \<longleftrightarrow> says p pr out"
| "pending p body (Trying ly k) out \<longleftrightarrow> says p (Alloc ly k) out"
| "pending p body (Handing ly k) out \<longleftrightarrow> says p (Alloc ly k) out"
| "pending p body (Yielding ly k) out \<longleftrightarrow> says p (Alloc ly k) out"
| "pending p body (Stopped ly k) out \<longleftrightarrow> says p (Alloc ly k) out"
| "pending p body (Fetching ly k) out \<longleftrightarrow> says p (Alloc ly k) out"
| "pending p body Over out \<longleftrightarrow> out = []"
| "pending p body (Failed e) out \<longleftrightarrow> False"
| "pending p body pl out \<longleftrightarrow> says p body out"

abbreviation lines_of :: "nat \<Rightarrow> 'q threads \<Rightarrow> string list" where
  "lines_of t T \<equiv> map snd (filter (\<lambda>x. fst x = t) (th_out T))"

lemma thread_step_says:
  assumes "thread_step p I body t T T'"
  shows "\<exists>out. th_out T' = th_out T @ map (Pair t) out \<and>
    (\<forall>rest. pending p body (th_place T' t) rest \<longrightarrow> pending p body (th_place T t) (out @ rest))"
  using assms
proof cases
  case (println l k)
  then show ?thesis by (intro exI [of _ l]) simp
next
  case (finish m w)
  then show ?thesis by (intro exI [of _ "destroy_text p w"]) (auto simp: destroy_text_def)
next
  case (barrier ly k S)
  then show ?thesis by (intro exI [of _ "[]"]) (simp add: after_barrier_def split: barrier_pc.splits)
qed (rule exI [of _ "[]"], auto)+

lemma threads_run_says:
  assumes start: "threads_start w T0" "wd_registry w = empty_registry" and n: "n < 2 ^ 64" and body: "layouts_ok body"
    and run: "threads_run p I body n T0 T" and t: "t < n" and pend: "pending p body (th_place T t) rest"
  shows "says p body (lines_of t T @ rest)"
  using run pend
proof (induction arbitrary: rest)
  case base
  then show ?case using start(1) by (simp add: threads_start_def)
next
  case (step T U)
  have main: "main_inv n T" using threads_run_inv [OF start n body step(1)] by simp
  from step(2) show ?case
  proof cases
    case m: main
    have "pending p body (th_place T t) rest" using main_step_frame(4) [OF m main, of t] step.prems by auto
    from step.IH [OF this] main_step_frame(3) [OF m main] show ?thesis by simp
  next
    case (thread u)
    obtain out where out: "th_out U = th_out T @ map (Pair u) out"
      "\<And>rest. pending p body (th_place U u) rest \<Longrightarrow> pending p body (th_place T u) (out @ rest)"
      using thread_step_says [OF thread(2)] by blast
    show ?thesis
    proof (cases "u = t")
      case True
      then have "says p body (lines_of t T @ out @ rest)" using step.IH out(2) step.prems by blast
      then show ?thesis using True out(1) by (simp add: filter_map comp_def)
    next
      case False
      then have "says p body (lines_of t T @ rest)" using step.IH step.prems thread_step_frame(2) [OF thread(2), of t] by simp
      moreover have "lines_of t U = lines_of t T" using out(1) False by (simp add: filter_map comp_def)
      ultimately show ?thesis by simp
    qed
  qed
qed

section \<open>The threads of mt\_gcbench\<close>

lemma layouts_ok_alloc: "layouts_ok (p_alloc k) \<longleftrightarrow> (\<forall>a. layouts_ok (k a))"
proof -
  have "layout_ok (nt_layout mt_Node)"
    unfolding layout_ok_def by (rule conjI, rule exI [of _ 3]) (simp_all add: mt_Node_def)
  then show ?thesis by (simp add: p_alloc_def)
qed

lemma layouts_ok_Populate: "layouts_ok k \<Longrightarrow> layouts_ok (p_Populate d a k)"
  by (induction d arbitrary: a k) (simp_all add: layouts_ok_alloc)

lemma layouts_ok_MakeTree: "(\<And>a. layouts_ok (k a)) \<Longrightarrow> layouts_ok (p_MakeTree d k)"
  by (induction d arbitrary: k) (simp_all add: layouts_ok_alloc p_init_Node_def)

lemma layouts_ok_repeat: "(\<And>k. layouts_ok k \<Longrightarrow> layouts_ok (f k)) \<Longrightarrow> layouts_ok k \<Longrightarrow> layouts_ok (p_repeat n f k)"
  by (induction n) simp_all

lemma layouts_ok_Time: "layouts_ok k \<Longrightarrow> layouts_ok (p_TimeConstruction p durations d k)"
  by (auto simp: p_TimeConstruction_def layouts_ok_alloc intro!: layouts_ok_repeat layouts_ok_Populate layouts_ok_MakeTree
      split: sum.splits)

lemma layouts_ok_loop: "layouts_ok k \<Longrightarrow> layouts_ok (p_depth_loop p durations d k)"
proof (induction "mt_kMaxTreeDepth + 1 - d" arbitrary: d rule: less_induct)
  case less
  show ?case
  proof (cases "d \<le> mt_kMaxTreeDepth")
    case True
    then show ?thesis
      using less layouts_ok_Time [of "p_depth_loop p durations (d + 2) k"] by (simp add: p_depth_loop.simps [of p durations d])
  next
    case False
    then show ?thesis using less.prems by (simp add: p_depth_loop.simps [of p durations d])
  qed
qed

lemma layouts_ok_thread_body: "layouts_ok (thread_body p durations)"
  by (simp add: thread_body_def layouts_ok_alloc layouts_ok_Populate layouts_ok_loop)

text \<open>What it prints does not depend on the heap.\<close>

lemma says_alloc: "says p (p_alloc k) out \<longleftrightarrow> (\<exists>a. says p (k a) out)"
  by (simp add: p_alloc_def)

lemma says_Populate: "says p (p_Populate d a k) out \<Longrightarrow> says p k out"
proof (induction d arbitrary: a k out)
  case (Suc d)
  from Suc.prems obtain l r where "says p (p_Populate d l (Load a (nt_right mt_Node) (\<lambda>r. p_Populate d r k))) out"
    by (auto simp: says_alloc)
  from Suc.IH [OF this] obtain r where "says p (p_Populate d r k) out" by auto
  then show ?case by (rule Suc.IH)
qed simp

lemma says_MakeTree: "says p (p_MakeTree d k) out \<Longrightarrow> \<exists>a. says p (k a) out"
proof (induction d arbitrary: k out)
  case (Suc d)
  from Suc.prems have "says p (p_MakeTree d (\<lambda>l. p_MakeTree d (\<lambda>r. p_alloc (\<lambda>x. p_init_Node x l r (k x))))) out" by simp
  from Suc.IH [OF this] obtain l where "says p (p_MakeTree d (\<lambda>r. p_alloc (\<lambda>x. p_init_Node x l r (k x)))) out" by blast
  from Suc.IH [OF this] show ?case by (auto simp: says_alloc p_init_Node_def)
qed (simp add: says_alloc)

lemma says_repeat: "(\<And>k out. says p (f k) out \<Longrightarrow> says p k out) \<Longrightarrow> says p (p_repeat n f k) out \<Longrightarrow> says p k out"
  by (induction n) auto

lemma says_Time:
  assumes "says p (p_TimeConstruction p durations d k) out"
  shows "\<exists>ls rest. depth_text p durations d = Inr ls \<and> out = ls @ rest \<and> says p k rest"
proof (cases "mt_NumIters p (of_nat d)")
  case (Inr n)
  have populate: "says p k out" if "says p (p_repeat (unat n) (\<lambda>k. p_alloc (\<lambda>t. p_Populate d t k)) k) out" for k out
    by (rule says_repeat [OF _ that]) (auto simp: says_alloc dest: says_Populate)
  have make: "says p k out" if "says p (p_repeat (unat n) (\<lambda>k. p_MakeTree d (\<lambda>t. k)) k) out" for k out
    by (rule says_repeat [OF _ that]) (auto dest: says_MakeTree)
  from assms Inr show ?thesis
    by (auto simp: p_TimeConstruction_def depth_text_def construction_text_def int_str_def dest!: populate make)
qed (use assms in \<open>simp add: p_TimeConstruction_def\<close>)

lemma says_loop:
  "says p (p_depth_loop p durations d k) out \<Longrightarrow>
     \<exists>ls rest. mt_measured_text p durations (depths_from d) = Inr ls \<and> out = ls @ rest \<and> says p k rest"
proof (induction "mt_kMaxTreeDepth + 1 - d" arbitrary: d out rule: less_induct)
  case less
  show ?case
  proof (cases "d \<le> mt_kMaxTreeDepth")
    case True
    then have "says p (p_TimeConstruction p durations d (p_depth_loop p durations (d + 2) k)) out"
      using less.prems by (simp add: p_depth_loop.simps [of p durations d])
    from says_Time [OF this] obtain ls rest where first: "depth_text p durations d = Inr ls" "out = ls @ rest"
      "says p (p_depth_loop p durations (d + 2) k) rest" by blast
    have "mt_kMaxTreeDepth + 1 - (d + 2) < mt_kMaxTreeDepth + 1 - d" using True by simp
    from less.hyps [OF this first(3)] show ?thesis
      using first(1,2) depths_from_step [OF True] by (cases "mt_NumIters p (of_nat d)") (auto simp: depth_text_def)
  next
    case False
    then show ?thesis using less.prems by (simp add: p_depth_loop.simps [of p durations d] depths_from_end)
  qed
qed

lemma says_thread_body:
  assumes "says p (thread_body p durations) out"
  shows "\<exists>measured live. mt_measured_text p durations mt_bench_depths = Inr measured \<and>
    out = ['' Creating a long-lived binary tree of depth 16''] @ measured @
      (if p = Debug then [''destroy mutator. Now live mutators = '' @ dec_str live] else [])"
proof -
  have depth: "dec_str mt_kLongLivedTreeDepth = ''16''"
    by (simp add: mt_kLongLivedTreeDepth_def dec_str.simps dec_digit_def char_of_def bit_0)
  from assms obtain a rest where "out = ['' Creating a long-lived binary tree of depth '' @ dec_str mt_kLongLivedTreeDepth] @ rest"
    "says p (p_Populate mt_kLongLivedTreeDepth a (p_depth_loop p durations mt_kMinTreeDepth Finish)) rest"
    by (auto simp: thread_body_def says_alloc)
  then have out: "out = ['' Creating a long-lived binary tree of depth 16''] @ rest"
    and loop: "says p (p_depth_loop p durations mt_kMinTreeDepth Finish) rest"
    by (auto simp: depth dest: says_Populate)
  from says_loop [OF loop] show ?thesis unfolding out depths_from_min by auto
qed

section \<open>When all threads have been joined\<close>

lemma threads_joined:
  assumes laws: "injector_laws I c r" and start: "threads_start w T0" "wd_registry w = empty_registry"
    and w: "space_ok c [] (wd_space w)" "user_space (wd_space w)" "wd_controller w = NO_CONTROLLER" "wd_stw_count w = 0"
    and n: "n < 2 ^ 64" and body: "layouts_ok body"
    and run: "threads_run p I body n T0 T" and joined: "th_main T = Joined"
  shows "arena (th_stw T) = {}" and "rg_n_mutators (wd_registry (th_world T)) = 0"
    and "space_ok c [] (wd_space (th_world T))" and "wd_gc_count w = 0 \<Longrightarrow> wd_printed w = [] \<Longrightarrow> reported p (th_world T)"
    and "t < n \<Longrightarrow> th_place T t = Over \<and> says p body (lines_of t T)"
proof -
  note inv = threads_run_inv [OF start n body run]
  have over: "th_place T t = Over" if "t < n" for t using inv joined that by (simp add: main_inv_def)
  show ar: "arena (th_stw T) = {}"
  proof (rule ccontr)
    assume "arena (th_stw T) \<noteq> {}"
    then obtain i where "i \<in> arena (th_stw T)" by (metis ex_in_conv)
    moreover from inv have "\<forall>i\<in>arena (th_stw T). \<exists>t<n. holding (th_place T t) \<and> th_index T t = i"
      using inv by (simp add: threads_inv_def)
    ultimately obtain t where "t < n" "holding (th_place T t)" by blast
    then show False using over by auto
  qed
  then show "rg_n_mutators (wd_registry (th_world T)) = 0"
    using inv by (simp add: threads_inv_def reg_inv_def registry_ok_def unat_eq_0)
  have "fresh_start c (th_stw T0)"
    using start w registry_ok_empty by (simp add: fresh_start_def stw_start_def threads_start_def empty_registry_def)
  then have own: "own_inv c (th_stw T0)" by (rule own_inv_start)
  show "reported p (th_world T)" if "wd_gc_count w = 0" "wd_printed w = []"
  proof -
    have "reported p (th_world T0)" using start(1) that by (auto simp: threads_start_def reported_def intro!: exI [of _ "[]"])
    then show ?thesis using open_run_reported [OF laws own] inv by blast
  qed
  have "own_inv c (th_stw T)" using own_inv_run [OF laws own] inv by blast
  then show "space_ok c [] (wd_space (th_world T))" using ar by (simp add: own_inv_def held_blocks_def)
  show "th_place T t = Over \<and> says p body (lines_of t T)" if t: "t < n"
    using threads_run_says [OF start n body run t, of "[]"] over [OF t] by simp
qed

lemma threads_run_tags:
  assumes "threads_run p I body n T0 T" and "threads_start w T0" and "wd_registry w = empty_registry" and "n < 2 ^ 64" and "layouts_ok body"
  shows "\<forall>x\<in>set (th_out T). fst x < n"
  using assms(1)
proof induction
  case base
  then show ?case using assms(2) by (simp add: threads_start_def)
next
  case (step T U)
  have main: "main_inv n T" using threads_run_inv [OF assms(2-5) step(1)] by simp
  from step(2) show ?case
  proof cases
    case m: main
    then show ?thesis using main_step_frame(3) [OF m main] step.IH by simp
  next
    case (thread t)
    then show ?thesis using thread_step_says [OF thread(2)] step.IH by auto
  qed
qed

lemma threads_give_clean:
  assumes "injector_laws I c r" and "wd_registry w = empty_registry" and "space_ok c [] (wd_space w)"
    and "user_space (wd_space w)" and "wd_controller w = NO_CONTROLLER" and "wd_stw_count w = 0"
    and log: "wd_gc_count w = 0" "wd_printed w = []"
    and n: "n < 2 ^ 64" and give: "threads_give p I (thread_body p durations) n w (out, w')"
  shows "rg_arena (wd_registry w') = [] \<and> rg_n_mutators (wd_registry w') = 0 \<and> space_ok c [] (wd_space w') \<and> reported p w' \<and>
    (\<exists>tagged. out = map snd tagged \<and> (\<forall>x\<in>set tagged. fst x < n) \<and>
      (\<forall>t<n. says p (thread_body p durations) (map snd (filter (\<lambda>x. fst x = t) tagged))))"
proof -
  obtain T0 T where T: "threads_start w T0" "threads_run p I (thread_body p durations) n T0 T" "th_main T = Joined"
    "out = map snd (th_out T)" "w' = th_world T" using give by (auto simp: threads_give_def)
  note j = threads_joined [OF assms(1) T(1) assms(2-6) n layouts_ok_thread_body T(2,3)]
  have "rg_arena (wd_registry w') = []" using j(1) T(5) by simp
  then show ?thesis
    using j(2,3,5) j(4) [OF log] T(4,5) threads_run_tags [OF T(2,1) assms(2) n layouts_ok_thread_body] by (intro conjI exI [of _ "th_out T"]) simp_all
qed

end
