(* ===== verification/Program_Runs.thy ===== *)
theory Program_Runs
  imports Programs
begin

text \<open>
  What the programs of \<open>Programs\<close> do: a program of one thread comes to an end whatever its heap
  size, the reading of \<open>HEAP_SIZE\<close> is inverse to decimal printing up to 64 bits, and the tree
  builders of the two \<open>gcbench\<close> programs are the same functions.
\<close>

section \<open>Programs of one thread end\<close>

definition small_layout :: "layout \<Rightarrow> bool" where
  "small_layout ly \<longleftrightarrow> layout_ok ly \<and> 0 < unat (ly_size ly) \<and> unat (ly_size ly) \<le> 256 \<and> unat (ly_align ly) \<le> 256"

lemma small_layouts [simp]:
  "small_layout (nt_layout (Node l r))" "small_layout (nt_layout mt_Node)"
  "layout_from_size_align OBJECT_SIZE OBJECT_ALIGN = Inr ly \<Longrightarrow> small_layout ly"
  "layout_from_size_align K_OBJECT_SIZE K_OBJECT_ALIGN = Inr ly' \<Longrightarrow> small_layout ly'"
proof -
  have "\<exists>k<64. (8 :: usize) = 2 ^ k" by (intro exI [of _ 3]) simp
  then show "small_layout (nt_layout (Node l r))" "small_layout (nt_layout mt_Node)"
    "layout_from_size_align OBJECT_SIZE OBJECT_ALIGN = Inr ly \<Longrightarrow> small_layout ly"
    "layout_from_size_align K_OBJECT_SIZE K_OBJECT_ALIGN = Inr ly' \<Longrightarrow> small_layout ly'"
    by (auto simp: small_layout_def layout_ok_def Node_def mt_Node_def layout_from_size_align_def OBJECT_SIZE_def
      OBJECT_ALIGN_def K_OBJECT_SIZE_def K_OBJECT_ALIGN_def K_def split: if_splits)
qed

text \<open>What a client program needs of the allocator: a state in which a small allocation comes to an
  end, kept by the allocation, by the initialisation of an object and by writes to objects.\<close>

abbreviation idles :: "(mutator_local \<Rightarrow> 'q world \<Rightarrow> bool) \<Rightarrow> mutator_local \<times> 'q world \<Rightarrow> bool" where
  "idles P x \<equiv> P (fst x) (snd x)"

locale lone_client =
  fixes p :: profile and I :: "'q block_queue" and slow :: "'q step" and fuel :: nat
    and P :: "mutator_local \<Rightarrow> 'q world \<Rightarrow> bool"
  assumes alloc_ends_P: "small_layout ly \<Longrightarrow> P m w \<Longrightarrow> ends (alloc fuel p I slow ly m w) (\<lambda>x. idles P (snd x))"
    and init_keeps: "P m w \<Longrightarrow> init_object p m w a e = Inr w' \<Longrightarrow> P m w'"
    and mem_keeps: "P m w \<Longrightarrow> P m (w\<lparr>wd_mem := mem\<rparr>)"
begin

lemma store_keeps: "P m w \<Longrightarrow> P m (store_at a off v w)"
  by (simp add: store_at_def mem_keeps)

lemma alloc_init_ends:
  assumes ly: "\<And>l. ly = Inr l \<Longrightarrow> small_layout l" and P: "P m w"
  shows "ends (bind_ro (Some ly) (\<lambda>ly. bind_ro (alloc fuel p I slow ly m w) (\<lambda>r.
    bind_ro (Some (init_object p (fst (snd r)) (snd (snd r)) (fst r) e)) (\<lambda>w2. Some (Inr (fst r, fst (snd r), w2))))))
    (\<lambda>x. idles P (snd x))"
  by (rule ends_bind [OF ends_pure [of _ small_layout, OF ly]], assumption,
      rule ends_bind [OF alloc_ends_P [OF _ P]], assumption, rule ends_bind [OF ends_pure [OF init_keeps]])
    auto

lemma bench_alloc_ends:
  assumes "small_layout (nt_layout nt)" and "P m w"
  shows "ends (bench_alloc fuel p I slow nt m w) (\<lambda>x. idles P (snd x))"
  using alloc_init_ends [of "Inr (nt_layout nt)" m w 195] assms by (simp add: bench_alloc_def)

lemma repeat_ends:
  assumes "\<And>m w. P m w \<Longrightarrow> ends (f m w) (idles P)" and "P m w"
  shows "ends (repeat_step n f m w) (idles P)"
  using assms(2)
proof (induction n arbitrary: m w)
  case (Suc n)
  show ?case by (simp, rule ends_bind [OF assms(1) [OF Suc.prems]], rule Suc.IH)
qed simp

lemma Populate_ends:
  assumes "small_layout (nt_layout nt)" and "P m w"
  shows "ends (Populate fuel p I slow nt d a m w) (idles P)"
  using assms(2)
proof (induction "nat d" arbitrary: d a m w)
  case 0
  then show ?case by (simp add: Populate.simps [of fuel p I slow nt d])
next
  case (Suc n)
  have IH: "P m w \<Longrightarrow> ends (Populate fuel p I slow nt (d - 1) a m w) (idles P)" for a m w
    using Suc.hyps(1) [of "d - 1"] Suc.hyps(2) by simp
  have d: "\<not> d \<le> 0" using Suc.hyps(2) by simp
  show ?case
    by (simp add: d Populate.simps [of fuel p I slow nt d] Let_def)
      (intro ends_bind [OF bench_alloc_ends [OF assms(1)]] ends_bind [OF IH] IH store_keeps; simp add: Suc.prems store_keeps)
qed

lemma MakeTree_ends:
  assumes "small_layout (nt_layout nt)" and "P m w"
  shows "ends (MakeTree fuel p I slow nt d m w) (\<lambda>x. idles P (snd x))"
  using assms(2)
proof (induction "nat d" arbitrary: d m w)
  case 0
  then show ?case using bench_alloc_ends [OF assms(1)] by (simp add: MakeTree.simps [of fuel p I slow nt d])
next
  case (Suc n)
  have IH: "P m w \<Longrightarrow> ends (MakeTree fuel p I slow nt (d - 1) m w) (\<lambda>x. idles P (snd x))" for m w
    using Suc.hyps(1) [of "d - 1"] Suc.hyps(2) by simp
  have d: "\<not> d \<le> 0" using Suc.hyps(2) by simp
  show ?case
    by (simp add: d MakeTree.simps [of fuel p I slow nt d])
      (intro ends_bind [OF IH] ends_bind [OF bench_alloc_ends [OF assms(1)]]; simp add: Suc.prems init_Node_def store_keeps)
qed

lemma TimeConstruction_ends:
  assumes nt: "small_layout (nt_layout nt)" and "P m w"
  shows "ends (TimeConstruction fuel p I slow nt d m w) (idles P)"
proof -
  have top_down: "ends (bind_ro (bench_alloc fuel p I slow nt m w) (\<lambda>t. Populate fuel p I slow nt d (fst t) (fst (snd t)) (snd (snd t))))
      (idles P)" if "P m w" for m w
    by (intro ends_bind [OF bench_alloc_ends [OF nt that]] Populate_ends [OF nt])
  have bottom_up: "ends (bind_ro (MakeTree fuel p I slow nt d m w) (\<lambda>t. Some (Inr (snd t)))) (idles P)" if "P m w" for m w
    by (rule ends_bind [OF MakeTree_ends [OF nt that]]) simp
  show ?thesis unfolding TimeConstruction_def
    by (rule ends_bind [OF ends_pure [of _ "\<lambda>_. True", OF TrueI]],
        rule ends_bind [OF repeat_ends [OF top_down assms(2)]], assumption, rule repeat_ends [OF bottom_up])
qed

lemma depth_loop_ends:
  assumes nt: "small_layout (nt_layout nt)" and "P m w"
  shows "ends (depth_loop fuel p I slow nt d m w) (idles P)"
  using assms(2)
proof (induction "nat (kMaxTreeDepth + 1 - d)" arbitrary: d m w rule: less_induct)
  case less
  show ?case
  proof (cases "d \<le> kMaxTreeDepth")
    case True
    then have IH: "P m w \<Longrightarrow> ends (depth_loop fuel p I slow nt (d + 2) m w) (idles P)" for m w by (intro less.hyps) auto
    show ?thesis
      using True by (simp add: depth_loop.simps [of fuel p I slow nt d])
        (rule ends_bind [OF TimeConstruction_ends [OF nt less.prems] IH])
  qed (use less.prems in \<open>simp add: depth_loop.simps [of fuel p I slow nt d]\<close>)
qed

lemma bench_start_ends:
  assumes nt: "small_layout (nt_layout nt)" and "P m w"
  shows "ends (bench_start fuel p I slow nt m w) (\<lambda>x. idles P (snd x))"
  unfolding bench_start_def
  by (intro ends_bind [OF MakeTree_ends [OF nt assms(2)]] ends_bind [OF bench_alloc_ends [OF nt]]
      ends_bind [OF Populate_ends [OF nt]] ends_bind [OF depth_loop_ends [OF nt]]; simp)

lemma alloc_object_ends:
  assumes "P m w"
  shows "ends (alloc_object fuel p I slow m w) (\<lambda>x. idles P (snd x))"
  unfolding alloc_object_def
  by (rule ends_bind [OF ends_pure [of _ small_layout]], simp, rule alloc_ends_P [OF _ assms])

lemma init_object_ends: "P m w \<Longrightarrow> ends (Some (init_object p m w a e)) (P m)"
  by (rule ends_pure) (rule init_keeps)

lemma exhaust_loop_ends:
  assumes "P m w"
  shows "ends (exhaust_alloc_loop fuel p I slow elapsed m w) (\<lambda>x. idles P (snd x))"
proof -
  have "ends (bind_ro (alloc_object fuel p I slow m w) (\<lambda>(res, m1, w1).
      bind_ro (Some (init_object p m1 w1 res 195)) (\<lambda>w2. Some (Inr (m1, w2))))) (idles P)" if "P m w" for m w
    unfolding split_def by (intro ends_bind [OF alloc_object_ends [OF that]] ends_bind [OF init_object_ends]; simp)
  from repeat_ends [OF this assms] show ?thesis
    unfolding exhaust_alloc_loop_def by (rule ends_bind) auto
qed

lemma alloc_objects_ends:
  "P m w \<Longrightarrow> ends (alloc_objects n fuel p I slow objs m w) (\<lambda>x. idles P (snd x))"
proof (induction n arbitrary: objs m w)
  case (Suc n)
  show ?case by (simp add: split_def, rule ends_bind [OF alloc_object_ends [OF Suc.prems]], rule Suc.IH)
qed simp

lemma init_objects_keeps: "P m w \<Longrightarrow> init_objects p objs m w = Inr w' \<Longrightarrow> P m w'"
proof (induction objs arbitrary: w)
  case (Cons obj objs)
  then show ?case
    by (cases "init_object p m w obj 195") (auto simp: init_object_no_inline_def dest: init_keeps)
qed simp

lemma init_loop_ends:
  assumes "P m w"
  shows "ends (Some (init_loop p elapsed objs m w)) (\<lambda>x. P m (snd x))"
proof (rule ends_pure)
  show "P m (snd x)" if "init_loop p elapsed objs m w = Inr x" for x
    using that init_objects_keeps [OF assms] by (cases "init_objects p objs m w") (auto simp: init_loop_def)
qed

lemma link_objects_ends:
  "P m w \<Longrightarrow> ends (link_objects n fuel p I slow prev m w) (idles P)"
proof (induction n arbitrary: prev m w)
  case (Suc n)
  show ?case
    by (simp add: split_def, intro ends_bind [OF alloc_object_ends [OF Suc.prems]] ends_bind [OF init_object_ends],
        assumption, intro Suc.IH store_keeps)
qed simp

lemma alloc_k_ary_tree_ends:
  assumes "P m w"
  shows "ends (alloc_k_ary_tree fuel p I slow m w) (\<lambda>x. idles P (snd x))"
  unfolding alloc_k_ary_tree_def split_def by (rule alloc_init_ends [OF _ assms]) simp

lemma store_children_keeps: "P m w \<Longrightarrow> store_children n p children cursor w = Inr w' \<Longrightarrow> P m w'"
proof (induction n arbitrary: children cursor w)
  case (Suc n)
  then show ?case
    by (cases "addr_plus p cursor 8") (auto simp: guard_res_def split: if_splits intro: store_keeps)
qed simp

lemma store_children_ends: "P m w \<Longrightarrow> ends (Some (store_children n p children cursor w)) (P m)"
  by (rule ends_pure) (rule store_children_keeps)

lemma make_tree_ends:
  shows "P m w \<Longrightarrow> ends (make_tree fuel p I slow depth m w) (\<lambda>x. idles P (snd x))"
proof (induction depth arbitrary: m w)
  case 0
  then show ?case by (simp add: alloc_k_ary_tree_ends)
next
  case (Suc depth)
  note tree = Suc.IH
  have children: "P m w \<Longrightarrow> ends (make_children n fuel p I slow depth cs m w) (\<lambda>x. idles P (snd x))" for n cs m w
  proof (induction n arbitrary: cs m w)
    case (Suc n)
    show ?case by (simp, rule ends_bind [OF tree [OF Suc.prems]], rule Suc.IH)
  qed simp
  show ?case
    by (simp, intro ends_bind [OF children [OF Suc.prems]] ends_bind [OF alloc_k_ary_tree_ends] ends_bind [OF store_children_ends];
        simp)
qed

lemma make_trees_ends:
  "P m w \<Longrightarrow> ends (make_trees n fuel p I slow roots m w) (\<lambda>x. idles P (snd x))"
proof (induction n arbitrary: roots m w)
  case (Suc n)
  show ?case by (simp add: split_def, rule ends_bind [OF make_tree_ends [OF Suc.prems]], rule Suc.IH)
qed simp

text \<open>The programs, once their mutator is there.\<close>

lemma exhaust_alloc_ends:
  assumes "ends (with_mutator p I mmap idx mem sz) (idles P)"
  shows "ends (exhaust_alloc fuel p I slow mmap idx mem elapsed sz) (\<lambda>x. idles P (snd x))"
  unfolding exhaust_alloc_def split_def
  by (intro ends_bind [OF assms] ends_bind [OF ends_pure [of _ "\<lambda>_. True", OF TrueI]] ends_bind [OF exhaust_loop_ends]; simp)

lemma alloc_init_program_ends:
  assumes "ends (with_mutator p I mmap idx mem sz) (idles P)"
  shows "ends (alloc_init fuel p I slow mmap idx mem elapsed sz) (\<lambda>x. idles P (snd x))"
  unfolding alloc_init_def split_def
  by (intro ends_bind [OF assms] ends_bind [OF ends_pure [of _ "\<lambda>_. True", OF TrueI]] ends_bind [OF alloc_objects_ends]
      ends_bind [OF init_loop_ends]; simp)

lemma gcbench_start_ends:
  assumes "ends (with_mutator p I mmap idx mem sz) (idles P)" and "small_layout (nt_layout nt)"
  shows "ends (gcbench_start fuel p I slow mmap idx mem nt durations elapsed sz) (\<lambda>x. idles P (snd x))"
  unfolding gcbench_start_def split_def
  by (rule ends_bind [OF assms(1)], rule ends_bind [OF ends_pure [of _ "\<lambda>_. True", OF TrueI]],
      rule ends_bind [OF bench_start_ends [OF assms(2)]], assumption, rule ends_bind [OF ends_pure [of _ "\<lambda>_. True", OF TrueI]], simp)

lemma alloc_trace_ends:
  assumes "ends (with_mutator p I mmap idx mem sz) (idles P)"
  shows "ends (alloc_trace fuel p I slow mmap idx mem elapsed sz) (\<lambda>x. idles P (snd x))"
  unfolding alloc_trace_def split_def
  by (rule ends_bind [OF assms], rule ends_bind [OF ends_pure [of _ "\<lambda>_. True", OF TrueI]],
      rule ends_bind [OF alloc_object_ends], assumption, rule ends_bind [OF init_object_ends], assumption,
      rule ends_bind [OF ends_pure [of _ "\<lambda>_. True", OF TrueI]], rule ends_bind [OF link_objects_ends], assumption, simp)

lemma mt_alloc_trace_ends:
  assumes "ends (with_mutator p I mmap idx mem sz) (idles P)"
  shows "ends (mt_alloc_trace fuel p I slow mmap idx mem elapsed sz) (\<lambda>x. idles P (snd x))"
  unfolding mt_alloc_trace_def split_def
  by (rule ends_bind [OF assms], rule ends_bind [OF ends_pure [of _ "\<lambda>_. True", OF TrueI]],
      rule ends_bind [OF ends_pure [of _ "\<lambda>_. True", OF TrueI]], rule ends_bind [OF make_trees_ends], assumption, simp)

end

text \<open>The collecting allocator is such an allocator for a mutator that is alone.\<close>

lemma at_rest_init:
  assumes rest: "at_rest c m w" and run: "init_object p m w a e = Inr w'"
  shows "at_rest c m w'"
proof -
  obtain k where w': "w' = w\<lparr>wd_space := (wd_space w)\<lparr>sp_alloc_map :=
      (sp_alloc_map (wd_space w))\<lparr>am_cells := (am_cells (sp_alloc_map (wd_space w)))[k := e]\<rparr>\<rparr>\<rparr>"
    using init_object_byte [OF run] by blast
  have "alloc_pre c m w'" using init_object_pre [OF run] rest by (simp add: at_rest_def)
  moreover have "space_ok c (held_by m) (wd_space w')"
    using init_object_space [OF run] rest by (auto simp: at_rest_def solo_def)
  ultimately show ?thesis
    using rest by (simp add: at_rest_def solo_def usable_free_def w')
qed

sublocale block_queue_spec \<subseteq> lone: lone_client p I "sync_barrier p I sched env" 4 "\<lambda>m w. scan_ok env \<and> te_cpus sched = 1 \<and> at_rest c m w"
  for p sched env
proof
  fix ly m w a e w' mem
  show "ends (alloc 4 p I (sync_barrier p I sched env) ly m w) (\<lambda>x. idles (\<lambda>m w. scan_ok env \<and> te_cpus sched = 1 \<and> at_rest c m w) (snd x))"
    if "small_layout ly" "scan_ok env \<and> te_cpus sched = 1 \<and> at_rest c m w"
    by (rule ends_weaken, rule alloc_ends [OF laws]) (use that in \<open>auto simp: small_layout_def\<close>)
  show "scan_ok env \<and> te_cpus sched = 1 \<and> at_rest c m w'" if "scan_ok env \<and> te_cpus sched = 1 \<and> at_rest c m w" "init_object p m w a e = Inr w'"
    using that at_rest_init by blast
  show "scan_ok env \<and> te_cpus sched = 1 \<and> at_rest c m (w\<lparr>wd_mem := mem\<rparr>)" if "scan_ok env \<and> te_cpus sched = 1 \<and> at_rest c m w"
    using that at_rest_mem by blast
qed

text \<open>The memory map returns user space, which ends far below the middle of the address range.\<close>

definition user_mmap :: "(usize \<Rightarrow> usize option) \<Rightarrow> bool" where
  "user_mmap mmap \<longleftrightarrow> (\<forall>n ptr. mmap n = Some ptr \<longrightarrow> unat ptr + unat n + 65536 < 2 ^ 63)"

lemma with_mutator_ends:
  assumes laws: "injector_laws I c r" and mmap: "user_mmap mmap" and sz: "2 ^ 20 dvd unat sz"
  shows "ends (with_mutator p I mmap idx mem sz) (idles (at_rest c))"
proof -
  obtain k where k: "unat sz = 2 ^ 20 * k" using sz by blast
  moreover have "unat sz < 2 ^ 64" by simp
  ultimately have "unat sz + 2 ^ 19 < 2 ^ 64" by simp
  then have len: "unat (sz + SPACE_ALIGN) = unat sz + 2 ^ 19" "usize_add p sz SPACE_ALIGN = Inr (sz + SPACE_ALIGN)"
    by (simp_all add: SPACE_ALIGN_def unat_plus_if' usize_add_def)
  show ?thesis
  proof (cases "mmap (sz + SPACE_ALIGN)")
    case None
    then show ?thesis by (simp add: with_mutator_def space_new_def space_fields_def len(2))
  next
    case (Some ptr)
    then have top: "unat ptr + unat sz + 2 ^ 19 + 65536 < 2 ^ 63"
      using mmap [unfolded user_mmap_def, rule_format, OF Some] len(1) by simp
    then obtain s where s: "space_new p I mmap sz = Some (Inr s)" "space_ok c [] s" "space_size s = unat sz"
      "addr_nat (sp_end s) < unat ptr + unat sz + 2 ^ 19" "c (sp_usable_blocks s) = map (nth_block (sp_start s)) [0..<unat sz div 65536]"
      "sp_cells s = replicate (unat sz div 256) Free"
      using space_new_ok [where I = I and p = p and mmap = mmap and sz = sz, OF laws Some] by auto
    have "usable_free c s" using s(5,6) by (auto simp: usable_free_def intro!: exI [of _ 0])
    then have "at_rest c (fst (mutator_new idx (initial_world s mem))) (snd (mutator_new idx (initial_world s mem)))"
      using s(2-4) top k
      by (auto simp: at_rest_def alloc_pre_def pool_ok_def solo_def mut_ok_def user_space_def mutator_new_def initial_world_def
          held_by_def register_def empty_registry_def mg_new_def take_yield_def LINES_IN_BLOCK_def LOG_BYTES_IN_BLOCK_def
          LOG_BYTES_IN_LINE_def intro!: exI [of _ "[]"])
    then show ?thesis by (simp add: with_mutator_def s(1))
  qed
qed
section \<open>main\<close>

lemma parse_usize_dec: "parse_usize (dec_str n) = (if n < 2 ^ 64 then Some (of_nat n) else None)"
proof -
  obtain ch rest where s: "dec_str n = ch # rest" "is_digit ch" using dec_str_ok [of n] by (cases "dec_str n") auto
  then have "ch \<noteq> CHR ''+''" by (auto simp: is_digit_def)
  then show ?thesis using dec_str_ok [of n] s(1) by (auto simp: parse_usize_def)
qed

lemma heap_size_dec:
  "heap_size (Some (dec_str n @ ''M'')) =
     (if n < 2 ^ 64 then Inr (push_bit 20 (of_nat n)) else Inl (UnwrapFailed ''ParseIntError''))"
  by (simp add: heap_size_def parse_usize_dec butlast_append)

lemma push_bit_20: "unat (push_bit 20 (n :: usize)) = (2 ^ 20 * unat n) mod 2 ^ 64"
  by (simp add: push_bit_eq_mult unat_word_ariths mult.commute)

lemma heap_size_mega:
  assumes "heap_size var = Inr sz"
  shows "2 ^ 20 dvd unat sz"
proof -
  have "2 ^ 20 dvd unat (push_bit 20 n)" for n :: usize by (simp only: push_bit_20) (simp add: dvd_mod)
  moreover have "2 ^ 20 dvd unat default_heap" by (simp add: default_heap_def)
  ultimately show ?thesis using assms by (auto simp: heap_size_def split: option.splits if_splits)
qed

text \<open>The features that select a program of one thread, or none.\<close>

definition one_thread :: "features \<Rightarrow> bool" where
  "one_thread ft \<longleftrightarrow> ft_exhaust ft \<or> ft_initobj ft \<or> ft_gcbench ft \<or>
     \<not> ft_mt_gcbench ft \<and> \<not> ft_mark ft \<and> (ft_trace ft \<or> ft_mt_trace ft)"

lemma forget_ends: "ends r (\<lambda>x. idles P (snd x)) \<Longrightarrow> ends (forget r) (\<lambda>x. \<exists>m. P m (snd x))"
  unfolding forget_def by (erule ends_bind) auto

context block_queue_spec
begin

lemma selected_ends:
  assumes env: "scan_ok env" "te_cpus sched = 1" and nt: "small_layout (nt_layout nt)"
    and start: "ends (with_mutator p I mmap idx mem sz) (idles (at_rest c))" and ft: "one_thread ft"
  shows "ends (selected 4 p I (sync_barrier p I sched env) mmap idx mem nt durations run cpus elapsed idle ft sz)
    (\<lambda>x. \<exists>m. at_rest c m (snd x))"
proof -
  have start': "ends (with_mutator p I mmap idx mem sz) (idles (\<lambda>m w. scan_ok env \<and> te_cpus sched = 1 \<and> at_rest c m w))"
    by (rule ends_weaken [OF start]) (simp add: env)
  note runs = lone.exhaust_alloc_ends [OF start'] lone.alloc_init_program_ends [OF start'] lone.gcbench_start_ends [OF start' nt]
    lone.alloc_trace_ends [OF start'] lone.mt_alloc_trace_ends [OF start']
  have "ends (selected 4 p I (sync_barrier p I sched env) mmap idx mem nt durations run cpus elapsed idle ft sz)
      (\<lambda>x. \<exists>m. scan_ok env \<and> te_cpus sched = 1 \<and> at_rest c m (snd x))"
    using ft runs [THEN forget_ends] by (auto simp: one_thread_def selected_def)
  then show ?thesis by (rule ends_weaken) blast
qed

lemma main_program_ends:
  assumes "scan_ok env" "te_cpus sched = 1" and "small_layout (nt_layout nt)" and "user_mmap mmap" and "one_thread ft"
  shows "ends (main_program 4 p I (sync_barrier p I sched env) mmap idx mem nt durations run cpus elapsed idle ft var)
    (\<lambda>x. \<exists>m. at_rest c m (snd x))"
proof -
  have sel: "ends (selected 4 p I (sync_barrier p I sched env) mmap idx mem nt durations run cpus elapsed idle ft sz)
      (\<lambda>x. \<exists>m. at_rest c m (snd x))" if "heap_size var = Inr sz" for sz
    by (rule selected_ends [OF assms(1-3) with_mutator_ends [OF laws assms(4) heap_size_mega [OF that]] assms(5)])
  show ?thesis unfolding main_program_def
    by (rule ends_bind [OF ends_pure [where Q = "\<lambda>sz. heap_size var = Inr sz"]], assumption, rule ends_bind [OF sel], assumption)
      (simp add: split_def)
qed

end

section \<open>mt\_gcbench\<close>

lemma mt_alloc_same: "mt_alloc fuel p I slow m w = bench_alloc fuel p I slow mt_Node m w"
  by (simp add: mt_alloc_def bench_alloc_def split_def)

lemma mt_Populate_same: "mt_Populate fuel p I slow d a m w = Populate fuel p I slow mt_Node (int d) a m w"
proof (induction d arbitrary: a m w)
  case 0
  show ?case by (simp add: Populate.simps [of fuel p I slow mt_Node 0])
next
  case (Suc d)
  have "Populate fuel p I slow mt_Node (int d) = mt_Populate fuel p I slow d" using Suc by (intro ext) simp
  then show ?case
    by (simp add: Populate.simps [of fuel p I slow mt_Node "1 + int d"] mt_alloc_same split_def Let_def)
qed

lemma mt_MakeTree_same: "mt_MakeTree fuel p I slow d m w = MakeTree fuel p I slow mt_Node (int d) m w"
proof (induction d arbitrary: m w)
  case 0
  show ?case by (simp add: MakeTree.simps [of fuel p I slow mt_Node 0] mt_alloc_same)
next
  case (Suc d)
  have "MakeTree fuel p I slow mt_Node (int d) = mt_MakeTree fuel p I slow d" using Suc by (intro ext) simp
  then show ?case
    by (simp add: MakeTree.simps [of fuel p I slow mt_Node "1 + int d"] mt_alloc_same mt_init_Node_def init_Node_def split_def)
qed

end
