(* ===== verification/Fill.thy ===== *)
theory Fill
  imports Alone
begin

text \<open>
  How much a space serves without a collection: while whole blocks are free (\<open>serves\<close>), each of
  them holds as many objects of a given size as fit into it, one right after the other, and
  every allocation up to that number returns.
\<close>

section \<open>Computations that return\<close>

text \<open>\<open>gives r Q\<close>: the computation returns a value, and the value satisfies \<open>Q\<close>.\<close>

definition gives :: "'a res option \<Rightarrow> ('a \<Rightarrow> bool) \<Rightarrow> bool" where
  "gives r Q \<longleftrightarrow> (\<exists>x. r = Some (Inr x) \<and> Q x)"

lemma gives_simps [simp]:
  "gives (Some (Inr x)) Q \<longleftrightarrow> Q x" "\<not> gives (Some (Inl e)) Q" "\<not> gives None Q"
  by (simp_all add: gives_def)

lemma gives_bind: "gives r P \<Longrightarrow> (\<And>x. P x \<Longrightarrow> gives (f x) Q) \<Longrightarrow> gives (bind_ro r f) Q"
  by (auto simp: gives_def)

lemma gives_weaken: "gives r P \<Longrightarrow> (\<And>x. P x \<Longrightarrow> Q x) \<Longrightarrow> gives r Q"
  by (auto simp: gives_def)

section \<open>A block without marks\<close>

lemma interval_shift: "{i + k |k. 0 \<le> k \<and> k < n} = {i ..< i + n}" for i n :: nat
proof -
  have "\<exists>k. x = i + k \<and> 0 \<le> k \<and> k < n" if "i \<le> x" "x < i + n" for x
    using that by (intro exI [of _ "x - i"]) simp
  then show ?thesis by auto
qed

lemma next_unavailable_all:
  assumes "slice_ok sl tbl" and "sl_len sl = 256" and "\<forall>k<256. slice_line sl tbl k = Free"
  shows "get_next_unavailable_line p sl tbl 0 = Inr 256"
  using next_unavailable_spec [OF assms(1), of 0 p] assms(2,3) by (metis le0 nat_less_le)

lemma next_hole_whole:
  assumes tb: "tables_ok (wd_space w)" and b: "block_wf (wd_space w) b"
    and free: "\<forall>k<256. slice_line (ib_lines b) (wd_cells w) k = Free"
  shows "\<exists>cursor limit. next_hole p (take_block m b) (wd_cells w) =
      Inr (Some ((take_block m b)\<lparr>ml_cursor := cursor, ml_limit := limit, ml_line := 256\<rparr>,
        write_slots (block_lines b) FreshAlloc (wd_cells w))) \<and>
    addr_nat cursor = addr_nat (ib_start b) \<and> addr_nat limit = addr_nat (ib_start b) + 65536"
proof -
  let ?m = "take_block m b"
  have ok: "slice_ok (ib_lines b) (wd_cells w)" "sl_len (ib_lines b) = 256"
    using block_wf_slice_ok [OF tb b] b by (simp_all add: block_wf_def)
  have first: "slice_line (ib_lines b) (wd_cells w) 0 = Free" using free [rule_format, of 0] by simp
  have "(0 :: nat) < 256" by simp
  from open_hole_ok [OF tb b this first, of p ?m] obtain e m' tbl' where h:
    "open_hole p ?m b (wd_cells w) 0 = Inr (m', tbl')"
    "m' = ?m\<lparr>ml_cursor := ml_cursor m', ml_limit := ml_limit m', ml_line := e\<rparr>"
    "addr_nat (ml_cursor m') = addr_nat (ib_start b) + 256 * 0" "addr_nat (ml_limit m') = addr_nat (ib_start b) + 256 * e"
    "tbl' = write_slots {sl_ptr (ib_lines b) + k |k. 0 \<le> k \<and> k < e} FreshAlloc (wd_cells w)"
    by - (elim exE conjE, rule that)
  have "ml_line m' = 256"
    using h(1) next_unavailable_all [OF ok free, of p] by (auto simp: open_hole_def block_get_next_unavailable_line_def)
  moreover have "ml_line m' = e" by (subst h(2)) simp
  ultimately have e: "e = 256" by simp
  then have "{sl_ptr (ib_lines b) + k |k. 0 \<le> k \<and> k < e} = block_lines b"
    unfolding interval_shift block_lines_def ok(2) by simp
  moreover have "get_next_available_line p (ib_lines b) (wd_cells w) 0 = Inr (Some 0)"
    using first ok by (simp add: get_next_available_line.simps sl_get_def slice_ok_def)
  ultimately have "next_hole p ?m (wd_cells w) = Inr (Some (m', write_slots (block_lines b) FreshAlloc (wd_cells w)))"
    using h(1,5) by (simp add: next_hole_def block_of_def block_get_next_available_line_def take_block_def)
  moreover have "m' = ?m\<lparr>ml_cursor := ml_cursor m', ml_limit := ml_limit m', ml_line := 256\<rparr>" using h(2) e by simp
  ultimately show ?thesis using h(3,4) e by (intro exI [of _ "ml_cursor m'"] exI [of _ "ml_limit m'"]) auto
qed

section \<open>The objects a space serves\<close>

text \<open>
  No collection is asked for, the usable blocks are free, and the rest of the mutator's hole
  with the usable blocks has room for \<open>t\<close> objects of \<open>n\<close> bytes.
\<close>

definition serves :: "('q \<Rightarrow> immix_block list) \<Rightarrow> nat \<Rightarrow> nat \<Rightarrow> mutator_local \<Rightarrow> 'q world \<Rightarrow> bool" where
  "serves c n t m w \<longleftrightarrow> alloc_pre c m w \<and> \<not> take_yield (rg_globals (wd_registry w) (ml_id m)) \<and>
     ml_line m = 256 \<and> 8 dvd addr_nat (ml_cursor m) \<and>
     (\<forall>b\<in>set (c (sp_usable_blocks (wd_space w))). \<forall>k<256. slice_line (ib_lines b) (wd_cells w) k = Free) \<and>
     t \<le> (addr_nat (ml_limit m) - addr_nat (ml_cursor m)) div n +
       length (c (sp_usable_blocks (wd_space w))) * (65536 div n)"

lemma div_step: "0 < n \<Longrightarrow> n \<le> x \<Longrightarrow> Suc ((x - n) div n) = x div (n :: nat)"
  by (simp add: le_div_geq)

text \<open>A layout of whole words.\<close>

definition word_layout :: "layout \<Rightarrow> nat \<Rightarrow> bool" where
  "word_layout ly n \<longleftrightarrow> ly_align ly = 8 \<and> unat (ly_size ly) = n \<and> 0 < n \<and> n \<le> 65536 \<and> 8 dvd n"

lemma word_layout_ok: "word_layout ly n \<Longrightarrow> layout_ok ly \<and> 0 < unat (ly_size ly)"
  by (auto simp: word_layout_def layout_ok_def intro!: exI [of _ 3])

lemma bump_word:
  assumes "word_layout ly n" and "8 dvd addr_nat (ml_cursor m)" and "addr_nat (ml_cursor m) < 2 ^ 63"
  shows "\<exists>end. bump p m ly = Inr (ml_cursor m, end) \<and> addr_nat end = addr_nat (ml_cursor m) + n"
proof -
  have "ly_align ly = 2 ^ 3" "unat (ly_size ly) + unat (ly_align ly) \<le> 2 ^ 63"
    using assms(1) by (simp_all add: word_layout_def)
  from bump_ok [OF this(1) _ this(2) assms(3), of p] obtain st en where b: "bump p m ly = Inr (st, en)"
    "8 dvd addr_nat st" "addr_nat (ml_cursor m) \<le> addr_nat st" "addr_nat st < addr_nat (ml_cursor m) + 8"
    "addr_nat en = addr_nat st + unat (ly_size ly)" by auto
  have "addr_nat st - addr_nat (ml_cursor m) = 0"
    using dvd_diff_nat [OF b(2) assms(2)] b(3,4) by (metis dvd_imp_le less_diff_conv2 neq0_conv not_le add.commute)
  then have "st = ml_cursor m" using b(3) by (simp add: addr_nat_inject [symmetric])
  then show ?thesis using b assms(1) by (auto simp: word_layout_def)
qed

context block_queue_spec
begin

lemma fast_path_word:
  assumes ly: "word_layout ly n" and pre: "alloc_pre c m w" and al: "8 dvd addr_nat (ml_cursor m)"
    and fits: "addr_nat (ml_cursor m) + n \<le> addr_nat (ml_limit m)"
  shows "\<exists>end. alloc fuel p I slow ly m w = Some (Inr (ml_cursor m, m\<lparr>ml_cursor := end\<rparr>, w)) \<and>
    addr_nat end = addr_nat (ml_cursor m) + n \<and> alloc_pre c (m\<lparr>ml_cursor := end\<rparr>) w"
proof -
  obtain en where en: "bump p m ly = Inr (ml_cursor m, en)" "addr_nat en = addr_nat (ml_cursor m) + n"
    using bump_word [OF ly al quiet.cursor_low [OF pre], of p] by blast
  then have run: "alloc fuel p I sl ly m w = Some (Inr (ml_cursor m, m\<lparr>ml_cursor := en\<rparr>, w))" for sl
    using fits by (simp add: alloc.simps address_le_iff)
  have "alloc_good c ly w (ml_cursor m, m\<lparr>ml_cursor := en\<rparr>, w)"
    by (rule quiet.alloc_placed [OF _ _ pre run]) (use word_layout_ok [OF ly] in simp_all)
  then have "alloc_pre c (m\<lparr>ml_cursor := en\<rparr>) w" using pre by (simp add: alloc_good_def alloc_pre_def)
  then show ?thesis using run en(2) by blast
qed

lemma bump_misses:
  assumes ly: "word_layout ly n" and pre: "alloc_pre c m w" and al: "8 dvd addr_nat (ml_cursor m)"
    and full: "addr_nat (ml_limit m) < addr_nat (ml_cursor m) + n"
  shows "alloc fuel p I slow ly m w = try_alloc_from_local fuel p I slow ly m w"
  using bump_word [OF ly al quiet.cursor_low [OF pre], of p] full by (auto simp: alloc.simps address_le_iff)

text \<open>A new block: its lines are claimed, the object is its first.\<close>

lemma new_block_serves:
  assumes ly: "word_layout ly n" and pre: "alloc_pre c (take_block m b) w"
    and free: "\<forall>u\<in>set (b # c (sp_usable_blocks (wd_space w))). \<forall>k<256. slice_line (ib_lines u) (wd_cells w) k = Free"
    and quiet: "\<not> take_yield (rg_globals (wd_registry w) (ml_id m))"
    and room: "t < (1 + length (c (sp_usable_blocks (wd_space w)))) * (65536 div n)"
  shows "\<exists>a m' w'. alloc (Suc fuel) p I slow ly (take_block m b) w = Some (Inr (a, m', w')) \<and>
    serves c n t m' w' \<and> gc_log w' = gc_log w"
proof -
  let ?m = "take_block m b" and ?tbl = "write_slots (block_lines b) FreshAlloc (wd_cells w)"
  have pool: "pool_ok c ?m w" and mut: "mut_ok (wd_space w) ?m" using pre by (simp_all add: alloc_pre_def)
  have tb: "tables_ok (wd_space w)" by (rule pool_ok_tables [OF pool])
  have b: "block_wf (wd_space w) b" using mut by (simp add: mut_ok_def take_block_def)
  have "8 dvd addr_nat (ib_start b)" using block_start_aligned [OF tb b] by (rule dvd_trans [rotated]) simp
  then have al: "8 dvd addr_nat (ml_cursor ?m)" by (simp add: take_block_def)
  obtain cur lim where nh: "next_hole p ?m (wd_cells w) =
      Inr (Some (?m\<lparr>ml_cursor := cur, ml_limit := lim, ml_line := 256\<rparr>, ?tbl))"
    and at: "addr_nat cur = addr_nat (ib_start b)" "addr_nat lim = addr_nat (ib_start b) + 65536"
    using next_hole_whole [OF tb b, of p m] free by auto
  let ?m1 = "?m\<lparr>ml_cursor := cur, ml_limit := lim, ml_line := 256\<rparr>" and ?w1 = "with_cells w ?tbl"
  have n: "0 < n" "n \<le> 65536" "8 dvd n" using ly by (simp_all add: word_layout_def)
  from next_hole_ok [OF pool mut, of p] nh have "pool_ok c ?m1 ?w1" "mut_ok (wd_space ?w1) ?m1" "heap_frame w ?w1" by auto
  then have pre1: "alloc_pre c ?m1 ?w1" using pre user_space_frame [of w ?w1] by (simp add: alloc_pre_def)
  obtain en where en: "alloc fuel p I slow ly ?m1 ?w1 = Some (Inr (cur, ?m1\<lparr>ml_cursor := en\<rparr>, ?w1))"
    "addr_nat en = addr_nat cur + n" "alloc_pre c (?m1\<lparr>ml_cursor := en\<rparr>) ?w1"
    using fast_path_word [OF ly pre1, of fuel p slow] al at n by (auto simp: take_block_def)
  let ?m2 = "?m1\<lparr>ml_cursor := en\<rparr>"
  have run: "alloc (Suc fuel) p I slow ly ?m w = Some (Inr (cur, ?m2, ?w1))"
    using bump_misses [OF ly pre al, of "Suc fuel" p slow] n nh en(1) by (simp add: take_block_def)
  obtain others where ok: "space_ok c (b # others) (wd_space w)" using pool by (auto simp: pool_ok_def held_by_def take_block_def)
  have free1: "slice_line (ib_lines u) ?tbl k = Free" if u: "u \<in> set (c (sp_usable_blocks (wd_space w)))" "k < 256" for u k
  proof -
    have wf: "block_wf (wd_space w) u" using ok u by (simp add: space_ok_def all_blocks_def)
    have sl: "slice_ok (ib_lines u) (wd_cells w)" "sl_len (ib_lines u) = 256"
      using block_wf_slice_ok [OF tb wf] wf by (simp_all add: block_wf_def)
    then have j: "sl_ptr (ib_lines u) + k \<in> block_lines u" "sl_ptr (ib_lines u) + k < length (wd_cells w)"
      using u(2) by (simp_all add: block_lines_def slice_ok_def)
    then have "sl_ptr (ib_lines u) + k \<notin> block_lines b" using usable_apart [OF ok u(1)] by blast
    then show ?thesis using j(2) free u by simp
  qed
  have "Suc ((65536 - n) div n) = 65536 div n" by (rule div_step [OF n(1,2)])
  then have "t \<le> (65536 - n) div n + length (c (sp_usable_blocks (wd_space w))) * (65536 div n)" using room by simp
  then have "serves c n t ?m2 ?w1"
    using en(3) quiet al at en(2) n(3) free1 by (simp add: serves_def take_block_def)
  then show ?thesis using run by (auto simp: with_cells_def)
qed

lemma fetch_block_tail:
  assumes "fetch_block I w = Some (Some b, w')"
  shows "c (sp_usable_blocks (wd_space w')) = tl (c (sp_usable_blocks (wd_space w)))" "gc_log w' = gc_log w"
proof -
  obtain q where "c q = tl (c (sp_usable_blocks (wd_space w)))"
    "get_next_usable_block I (wd_space w) (wd_registry w) =
      Some (if c (sp_usable_blocks (wd_space w)) = []
            then (None, (wd_space w)\<lparr>sp_usable_blocks := q\<rparr>, trigger_gc (wd_registry w))
            else (Some (hd (c (sp_usable_blocks (wd_space w)))), (wd_space w)\<lparr>sp_usable_blocks := q\<rparr>, wd_registry w))"
    using get_next_usable_block_ok [OF laws] by blast
  then show "c (sp_usable_blocks (wd_space w')) = tl (c (sp_usable_blocks (wd_space w)))" "gc_log w' = gc_log w"
    using assms by (auto simp: fetch_block_def split: if_splits)
qed

text \<open>Every allocation of the series returns.\<close>

lemma alloc_serves:
  assumes ly: "word_layout ly n" and serves: "serves c n (Suc t) m w"
  shows "\<exists>a m' w'. alloc (3 + fuel) p I slow ly m w = Some (Inr (a, m', w')) \<and> serves c n t m' w' \<and>
    gc_log w' = gc_log w"
proof -
  have pre: "alloc_pre c m w" and quiet: "\<not> take_yield (rg_globals (wd_registry w) (ml_id m))"
    and al: "8 dvd addr_nat (ml_cursor m)" and line: "ml_line m = 256" and n: "0 < n" "8 dvd n"
    and free: "\<forall>b\<in>set (c (sp_usable_blocks (wd_space w))). \<forall>k<256. slice_line (ib_lines b) (wd_cells w) k = Free"
    and room: "Suc t \<le> (addr_nat (ml_limit m) - addr_nat (ml_cursor m)) div n +
       length (c (sp_usable_blocks (wd_space w))) * (65536 div n)"
    using serves ly by (simp_all add: serves_def word_layout_def)
  have pool: "pool_ok c m w" using pre by (simp add: alloc_pre_def)
  show ?thesis
  proof (cases "addr_nat (ml_cursor m) + n \<le> addr_nat (ml_limit m)")
    case True
    obtain en where en: "alloc (3 + fuel) p I slow ly m w = Some (Inr (ml_cursor m, m\<lparr>ml_cursor := en\<rparr>, w))"
      "addr_nat en = addr_nat (ml_cursor m) + n" "alloc_pre c (m\<lparr>ml_cursor := en\<rparr>) w"
      using fast_path_word [OF ly pre al True] by blast
    have rest: "addr_nat (ml_limit m) - addr_nat en = addr_nat (ml_limit m) - addr_nat (ml_cursor m) - n" using en(2) by simp
    have "Suc ((addr_nat (ml_limit m) - addr_nat (ml_cursor m) - n) div n) = (addr_nat (ml_limit m) - addr_nat (ml_cursor m)) div n"
      by (rule div_step [OF n(1)]) (use True in simp)
    then have "t \<le> (addr_nat (ml_limit m) - addr_nat en) div n + length (c (sp_usable_blocks (wd_space w))) * (65536 div n)"
      unfolding rest using room by linarith
    then have "serves c n t (m\<lparr>ml_cursor := en\<rparr>) w"
      using en(3) quiet al line n(2) free en(2) by (simp add: serves_def)
    then show ?thesis using en(1) by blast
  next
    case False
    then have "addr_nat (ml_limit m) - addr_nat (ml_cursor m) < n" using n(1) by linarith
    then have none: "(addr_nat (ml_limit m) - addr_nat (ml_cursor m)) div n = 0" by simp
    then have "c (sp_usable_blocks (wd_space w)) \<noteq> []" using room by auto
    then obtain b us where us: "c (sp_usable_blocks (wd_space w)) = b # us" by (meson list.exhaust)
    obtain m1 w1 where rb: "return_block I m w = (m1, w1)" by (cases "return_block I m w")
    note rb_ok = return_block_ok [OF laws pool rb]
    have rb_us: "sp_usable_blocks (wd_space w1) = sp_usable_blocks (wd_space w)" "gc_log w1 = gc_log w"
      using rb by (auto simp: return_block_def return_used_block_def split: option.splits)
    have l1: "pool_ok c m1 w1" "ml_block m1 = None" using rb_ok by simp_all
    from fetch_block_ok [OF laws l1] us rb_us obtain w2 where f:
      "fetch_block I w1 = Some (Some b, w2)" "heap_frame w1 w2" "wd_cells w2 = wd_cells w1"
      "pool_ok c (take_block m1 b) w2" "wd_registry w2 = wd_registry w1" "block_wf (wd_space w2) b"
      by (auto split: option.splits)
    have tail: "c (sp_usable_blocks (wd_space w2)) = us" "gc_log w2 = gc_log w1"
      using fetch_block_tail [OF f(1)] us rb_us by simp_all
    have frame: "heap_frame w w2" using rb_ok f(2) by (blast intro: heap_frame_trans)
    then have "mut_ok (wd_space w2) (take_block m1 b)"
      using mut_ok_take_block [OF _ f(6)] pre rb_ok by (simp add: alloc_pre_def mut_ok_def heap_frame_def)
    then have pre2: "alloc_pre c (take_block m1 b) w2"
      using f(4) pre user_space_frame [OF frame] by (simp add: alloc_pre_def)
    have quiet1: "\<not> take_yield (rg_globals (wd_registry w1) (ml_id m1))" using quiet rb_ok by simp
    have "t < (1 + length us) * (65536 div n)" using room us none by simp
    then obtain a m' w' where new: "alloc (Suc fuel) p I slow ly (take_block m1 b) w2 = Some (Inr (a, m', w'))"
      "serves c n t m' w'" "gc_log w' = gc_log w2"
      using new_block_serves [OF ly pre2, of t fuel p slow] free us f(3,5) rb_ok quiet1 tail by auto
    have "next_hole p m (wd_cells w) = Inr None" using line by (simp add: next_hole_def)
    then have "alloc (3 + fuel) p I slow ly m w = Some (Inr (a, m', w'))"
      using bump_misses [OF ly pre al, of "3 + fuel" p slow] False quiet1 f(1) new(1)
      by (simp add: numeral_3_eq_3 alloc_from_global.simps rb yieldpoint_def)
    then show ?thesis using new(2,3) tail rb_us by auto
  qed
qed

lemma alloc_serves_placed:
  assumes ly: "word_layout ly n" and serves: "serves c n (Suc t) m w"
  shows "\<exists>a m' w'. alloc (3 + fuel) p I slow ly m w = Some (Inr (a, m', w')) \<and> serves c n t m' w' \<and>
    gc_log w' = gc_log w \<and> heap_frame w w' \<and> sp_start (wd_space w) \<le> a \<and>
    addr_nat a + n \<le> addr_nat (sp_end (wd_space w))"
proof -
  obtain a m' w' where run: "alloc (3 + fuel) p I no_barrier ly m w = Some (Inr (a, m', w'))"
    "serves c n t m' w'" "gc_log w' = gc_log w" using alloc_serves [OF ly serves] by blast
  have "alloc_good c ly w (a, m', w')"
    by (rule quiet.alloc_placed [OF _ _ _ run(1)]) (use word_layout_ok [OF ly] serves in \<open>simp_all add: serves_def\<close>)
  then have "heap_frame w w' \<and> sp_start (wd_space w) \<le> a \<and> addr_nat a + n \<le> addr_nat (sp_end (wd_space w))"
    using ly by (auto simp: alloc_good_def placed_def heap_frame_def word_layout_def)
  then show ?thesis using alloc_quiet_mono [OF run(1)] run(2,3) by blast
qed

end

text \<open>The start byte of an object in the space can be written, which leaves the stock as it is.\<close>

lemma init_object_serves:
  assumes serves: "serves c n t m w" and a: "sp_start (wd_space w) \<le> a" "addr_nat a + 8 \<le> addr_nat (sp_end (wd_space w))"
  shows "\<exists>w'. init_object p m w a e = Inr w' \<and> serves c n t m w' \<and> gc_log w' = gc_log w \<and> heap_frame w w'"
proof -
  have pre: "alloc_pre c m w" using serves by (simp add: serves_def)
  then have m: "ml_space_start m = sp_start (wd_space w)" and pool: "pool_ok c m w" by (simp_all add: alloc_pre_def mut_ok_def)
  have tb: "tables_ok (wd_space w)" by (rule pool_ok_tables [OF pool])
  let ?d = "addr_nat a - addr_nat (sp_start (wd_space w))"
  have "?d div 8 < (addr_nat (sp_end (wd_space w)) - addr_nat (sp_start (wd_space w))) div 8"
  proof -
    have "?d + 8 \<le> addr_nat (sp_end (wd_space w)) - addr_nat (sp_start (wd_space w))" using a by (simp add: address_le_iff)
    then have "(?d + 8) div 8 \<le> (addr_nat (sp_end (wd_space w)) - addr_nat (sp_start (wd_space w))) div 8" by (rule div_le_mono)
    then show ?thesis by simp
  qed
  then have "?d div 8 < length (am_cells (sp_alloc_map (wd_space w)))" using tb by (simp add: tables_ok_def)
  then obtain w' where run: "init_object p m w a e = Inr w'"
    using a(1) by (simp add: init_object_def m diff_ok unat_div_pointer Let_def)
  obtain k where w': "w' = w\<lparr>wd_space := (wd_space w)\<lparr>sp_alloc_map :=
      (sp_alloc_map (wd_space w))\<lparr>am_cells := (am_cells (sp_alloc_map (wd_space w)))[k := e]\<rparr>\<rparr>\<rparr>"
    using init_object_byte [OF run] by blast
  have "alloc_pre c m w' \<and> heap_frame w w'" by (rule init_object_pre [OF run pre])
  moreover from this have "serves c n t m w'" using serves by (simp add: serves_def w')
  ultimately show ?thesis using run by (simp add: w')
qed

lemma serves_mem: "serves c n t m w \<Longrightarrow> serves c n t m (w\<lparr>wd_mem := mem\<rparr>)"
  by (simp add: serves_def alloc_pre_def pool_ok_def)

lemma serves_less: "serves c n t m w \<Longrightarrow> t' \<le> t \<Longrightarrow> serves c n t' m w"
  by (simp add: serves_def)

end
