(* ===== verification/Program_Fill.thy ===== *)
theory Program_Fill
  imports Program_Runs Fill
begin

text \<open>
  Programs on a heap large enough for all their objects: they return, without a collection. The
  objects of a program are counted down while it runs.
\<close>

section \<open>A client with a stock\<close>

lemma dec_texts:
  "dec_str 50000000 = ''50000000''" "dec_str 1200000000 = ''1200000000''" "dec_str 24 = ''24''" "dec_str 8 = ''8''"
  by (simp_all add: dec_str.simps dec_digit_def char_of_def bit_0)

text \<open>The numbers the programs announce.\<close>

lemma object_bytes_gives:
  "gives (Some (usize_mul p INIT_TIMES OBJECT_SIZE)) (\<lambda>n. n = 1200000000)"
  "gives (Some (usize_mul p TRACE_TIMES OBJECT_SIZE)) (\<lambda>n. n = 1200000000)"
  by (simp_all add: usize_mul_def INIT_TIMES_def TRACE_TIMES_def ALLOCATION_TIMES_def OBJECT_SIZE_def)

lemma announced_gives: "gives (Some (announced_objects p)) (\<lambda>n. n = 52428800)"
proof -
  have ten: "(10 :: nat) = Suc (Suc (Suc (Suc (Suc (Suc (Suc (Suc (Suc (Suc 0)))))))))" by simp
  have "usize_pow p 4 10 = Inr (1048576 :: usize)" unfolding ten by (simp add: usize_mul_def)
  then show ?thesis by (simp add: announced_objects_def K_def TREE_DEPTH_def TREE_COUNT_def usize_mul_def)
qed

lemma announced_bytes_gives: "n = 52428800 \<Longrightarrow> gives (Some (usize_mul p n K_OBJECT_SIZE)) (\<lambda>b. b = 1677721600)"
  by (simp add: usize_mul_def K_OBJECT_SIZE_def K_def)

text \<open>The objects of a complete tree in which every inner node has \<open>K\<close> children.\<close>

fun tree_objects :: "nat \<Rightarrow> nat" where
  "tree_objects 0 = 1"
| "tree_objects (Suc depth) = Suc (K * tree_objects depth)"

locale stocked_client =
  fixes p :: profile and I :: "'q block_queue" and slow :: "'q step" and fuel :: nat and ly :: layout
    and inside :: "address \<Rightarrow> bool" and R :: "nat \<Rightarrow> mutator_local \<Rightarrow> 'q world \<Rightarrow> bool"
  assumes alloc_gives: "R (Suc t) m w \<Longrightarrow>
      gives (alloc fuel p I slow ly m w) (\<lambda>x. inside (fst x) \<and> idles (R t) (snd x))"
    and init_gives: "R t m w \<Longrightarrow> inside a \<Longrightarrow> gives (Some (init_object p m w a e)) (R t m)"
    and mem_stays: "R t m w \<Longrightarrow> R t m (w\<lparr>wd_mem := mem\<rparr>)"
    and inside_user: "inside a \<Longrightarrow> addr_nat a < 2 ^ 63"
begin

lemma store_stays: "R t m w \<Longrightarrow> R t m (store_at a off v w)"
  by (simp add: store_at_def mem_stays)

lemma alloc_object_gives:
  assumes "layout_from_size_align OBJECT_SIZE OBJECT_ALIGN = Inr ly" and "R (Suc t) m w"
  shows "gives (alloc_object fuel p I slow m w) (\<lambda>x. inside (fst x) \<and> idles (R t) (snd x))"
  using alloc_gives [OF assms(2)] assms(1) by (simp add: alloc_object_def)

lemma repeat_gives:
  assumes "\<And>t m w. R (Suc t) m w \<Longrightarrow> gives (f m w) (idles (R t))" and "R n m w"
  shows "gives (repeat_step n f m w) (idles (R 0))"
  using assms(2)
proof (induction n arbitrary: m w)
  case (Suc n)
  show ?case by (simp, rule gives_bind [OF assms(1) [OF Suc.prems]], rule Suc.IH)
qed simp

lemma exhaust_loop_gives:
  assumes ly: "layout_from_size_align OBJECT_SIZE OBJECT_ALIGN = Inr ly" and "R (unat ALLOCATION_TIMES) m w"
  shows "gives (exhaust_alloc_loop fuel p I slow elapsed m w)
    (\<lambda>x. fst x = [time_used_text elapsed] \<and> idles (R 0) (snd x))"
proof -
  let ?f = "\<lambda>m w. bind_ro (alloc_object fuel p I slow m w) (\<lambda>(res, m1, w1).
      bind_ro (Some (init_object p m1 w1 res 195)) (\<lambda>w2. Some (Inr (m1, w2))))"
  have "gives (?f m w) (idles (R t))" if "R (Suc t) m w" for t m w
    by (rule gives_bind [OF alloc_object_gives [OF ly that]]) (auto intro!: gives_bind [OF init_gives])
  from repeat_gives [OF this assms(2)] show ?thesis
    unfolding exhaust_alloc_loop_def by (rule gives_bind) auto
qed

lemma alloc_objects_gives:
  assumes ly: "layout_from_size_align OBJECT_SIZE OBJECT_ALIGN = Inr ly"
  shows "R n m w \<Longrightarrow> list_all inside objs \<Longrightarrow> gives (alloc_objects n fuel p I slow objs m w)
    (\<lambda>x. list_all inside (fst x) \<and> idles (R 0) (snd x))"
proof (induction n arbitrary: objs m w)
  case (Suc n)
  show ?case
    by (simp add: split_def, rule gives_bind [OF alloc_object_gives [OF ly Suc.prems(1)]], rule Suc.IH) (simp_all add: Suc.prems)
qed simp

lemma init_objects_gives:
  "R t m w \<Longrightarrow> list_all inside objs \<Longrightarrow> gives (Some (init_objects p objs m w)) (R t m)"
proof (induction objs arbitrary: w)
  case (Cons obj objs)
  then obtain w1 where w1: "init_object p m w obj 195 = Inr w1" "R t m w1"
    using init_gives [of t m w obj 195] by (auto simp: gives_def)
  then show ?case using Cons by (simp add: init_object_no_inline_def)
qed simp

lemma link_objects_gives:
  assumes ly: "layout_from_size_align OBJECT_SIZE OBJECT_ALIGN = Inr ly"
  shows "R n m w \<Longrightarrow> gives (link_objects n fuel p I slow prev m w) (idles (R 0))"
proof (induction n arbitrary: prev m w)
  case (Suc n)
  show ?case
    by (simp add: split_def, rule gives_bind [OF alloc_object_gives [OF ly Suc.prems]], erule conjE,
        rule gives_bind [OF init_gives], assumption+, intro Suc.IH store_stays)
qed simp

lemma alloc_k_ary_tree_gives:
  assumes "layout_from_size_align K_OBJECT_SIZE K_OBJECT_ALIGN = Inr ly" and "R (Suc t) m w"
  shows "gives (alloc_k_ary_tree fuel p I slow m w) (\<lambda>x. inside (fst x) \<and> idles (R t) (snd x))"
  unfolding alloc_k_ary_tree_def split_def assms(1) bind_ro_simps
  by (rule gives_bind [OF alloc_gives [OF assms(2)]], erule conjE, rule gives_bind [OF init_gives]) auto

lemma store_children_gives:
  "R t m w \<Longrightarrow> n \<le> length children \<Longrightarrow> addr_nat cursor + 8 * n < 2 ^ 64 \<Longrightarrow>
     gives (Some (store_children n p children cursor w)) (R t m)"
proof (induction n arbitrary: children cursor w)
  case (Suc n)
  then have ne: "children \<noteq> []" by auto
  obtain cursor' where "addr_plus p cursor 8 = Inr cursor'" "addr_nat cursor' = addr_nat cursor + 8"
    using addr_plus_ok [of cursor 8 p] Suc.prems by auto
  then show ?case
    using Suc.IH [OF store_stays [OF Suc.prems(1)], of "butlast children" cursor'] Suc.prems ne by simp
qed simp

lemma make_tree_gives:
  assumes ly: "layout_from_size_align K_OBJECT_SIZE K_OBJECT_ALIGN = Inr ly"
  shows "R (tree_objects depth + t) m w \<Longrightarrow>
    gives (make_tree fuel p I slow depth m w) (\<lambda>x. inside (fst x) \<and> idles (R t) (snd x))"
proof (induction depth arbitrary: t m w)
  case 0
  then show ?case using alloc_k_ary_tree_gives [OF ly] by simp
next
  case (Suc depth)
  note tree = Suc.IH
  have children: "R (n * tree_objects depth + s) m w \<Longrightarrow> gives (make_children n fuel p I slow depth cs m w)
      (\<lambda>x. length (fst x) = length cs + n \<and> idles (R s) (snd x))" for n s cs m w
  proof (induction n arbitrary: cs m w)
    case (Suc n)
    from Suc.prems have "R (tree_objects depth + (n * tree_objects depth + s)) m w" by (simp add: add.assoc)
    note first = tree [OF this]
    show ?case
      by (simp, rule gives_bind [OF first], elim conjE, rule gives_weaken, rule Suc.IH, assumption) simp
  qed simp
  have "R (K * tree_objects depth + Suc t) m w" using Suc.prems by simp
  note c = children [OF this]
  show ?case
  proof (simp, rule gives_bind [OF c], elim conjE)
    fix x :: "address list \<times> mutator_local \<times> 'q world" assume x: "length (fst x) = length [] + K" "idles (R (Suc t)) (snd x)"
    show "gives (bind_ro (alloc_k_ary_tree fuel p I slow (fst (snd x)) (snd (snd x))) (\<lambda>r.
        bind_ro (Some (store_children K p (fst x) (fst r) (snd (snd r)))) (\<lambda>w'. Some (Inr (fst r, fst (snd r), w')))))
      (\<lambda>x. inside (fst x) \<and> idles (R t) (snd x))"
    proof (rule gives_bind [OF alloc_k_ary_tree_gives [OF ly x(2)]], elim conjE)
      fix r :: "address \<times> mutator_local \<times> 'q world" assume r: "inside (fst r)" "idles (R t) (snd r)"
      have low: "addr_nat (fst r) + 8 * K < 2 ^ 64" using inside_user [OF r(1)] by (simp add: K_def)
      have "gives (Some (store_children K p (fst x) (fst r) (snd (snd r)))) (R t (fst (snd r)))"
        by (rule store_children_gives [OF r(2) _ low]) (simp add: x(1))
      then show "gives (bind_ro (Some (store_children K p (fst x) (fst r) (snd (snd r)))) (\<lambda>w'. Some (Inr (fst r, fst (snd r), w'))))
        (\<lambda>x. inside (fst x) \<and> idles (R t) (snd x))" by (rule gives_bind) (simp add: r(1))
    qed
  qed
qed

lemma make_trees_gives:
  assumes ly: "layout_from_size_align K_OBJECT_SIZE K_OBJECT_ALIGN = Inr ly"
  shows "R (n * tree_objects TREE_DEPTH) m w \<Longrightarrow>
    gives (make_trees n fuel p I slow roots m w) (\<lambda>x. length (fst x) = length roots + n \<and> idles (R 0) (snd x))"
proof (induction n arbitrary: roots m w)
  case (Suc n)
  from Suc.prems have "R (tree_objects TREE_DEPTH + n * tree_objects TREE_DEPTH) m w" by simp
  note first = make_tree_gives [OF ly this]
  show ?case
    by (simp add: split_def, rule gives_bind [OF first], elim conjE, rule gives_weaken, rule Suc.IH, assumption) simp
qed simp

text \<open>The programs, once their mutator is there with a stock of all their objects.\<close>

lemma exhaust_alloc_gives:
  assumes ly: "layout_from_size_align OBJECT_SIZE OBJECT_ALIGN = Inr ly"
    and start: "gives (with_mutator p I mmap idx mem sz) (idles (R (unat ALLOCATION_TIMES)))"
  shows "gives (exhaust_alloc fuel p I slow mmap idx mem elapsed sz) (\<lambda>x. idles (R 0) (snd x) \<and> fst x =
    [''Trying to allocate 50000000 objects of (size 24, align 8). '', ''Considering header size of 0, an object should be 24. '',
     ''This would take 1200000000 bytes of '' @ dec_str (unat sz) @ '' bytes heap'', ''time used: '' @ elapsed])"
  unfolding exhaust_alloc_def split_def
  by (rule gives_bind [OF start], simp add: usize_mul_def ALLOCATION_TIMES_def OBJECT_SIZE_def,
      rule gives_bind [OF exhaust_loop_gives [OF ly]])
    (simp_all add: ALLOCATION_TIMES_def OBJECT_SIZE_def OBJECT_ALIGN_def considering_text_def time_used_text_def dec_texts)

lemma init_loop_gives:
  "R t m w \<Longrightarrow> list_all inside objs \<Longrightarrow> gives (Some (init_loop p elapsed objs m w)) (\<lambda>x. R t m (snd x))"
  using init_objects_gives [of t m w objs] by (auto simp: gives_def init_loop_def)

lemma alloc_init_program_gives:
  assumes ly: "layout_from_size_align OBJECT_SIZE OBJECT_ALIGN = Inr ly"
    and start: "gives (with_mutator p I mmap idx mem sz) (idles (R (unat INIT_TIMES)))"
  shows "gives (alloc_init fuel p I slow mmap idx mem elapsed sz) (\<lambda>x. idles (R 0) (snd x))"
  unfolding alloc_init_def split_def
  by (rule gives_bind [OF start], rule gives_bind [OF object_bytes_gives(1)], rule gives_bind [OF alloc_objects_gives [OF ly]],
      assumption, simp, elim conjE, rule gives_bind [OF init_loop_gives], assumption+) simp

lemma alloc_trace_gives:
  assumes ly: "layout_from_size_align OBJECT_SIZE OBJECT_ALIGN = Inr ly"
    and start: "gives (with_mutator p I mmap idx mem sz) (idles (R (unat TRACE_TIMES)))"
  shows "gives (alloc_trace fuel p I slow mmap idx mem elapsed sz) (\<lambda>x. idles (R 0) (snd x))"
proof -
  have first: "R (unat TRACE_TIMES) = R (Suc 49999999)" by (simp add: TRACE_TIMES_def ALLOCATION_TIMES_def)
  have rest: "gives (Some (usize_sub p TRACE_TIMES 1)) (\<lambda>times. unat times = 49999999)"
    by (simp add: TRACE_TIMES_def ALLOCATION_TIMES_def usize_sub_def)
  show ?thesis unfolding alloc_trace_def split_def
    by (rule gives_bind [OF start], rule gives_bind [OF object_bytes_gives(2)],
        rule gives_bind [OF alloc_object_gives [OF ly]], simp only: first, elim conjE,
        rule gives_bind [OF init_gives], assumption+, rule gives_bind [OF rest], rule gives_bind [OF link_objects_gives [OF ly]])
      simp_all
qed

lemma mt_alloc_trace_gives:
  assumes ly: "layout_from_size_align K_OBJECT_SIZE K_OBJECT_ALIGN = Inr ly"
    and start: "gives (with_mutator p I mmap idx mem sz) (idles (R (50 * tree_objects TREE_DEPTH)))"
  shows "gives (mt_alloc_trace fuel p I slow mmap idx mem elapsed sz) (\<lambda>x. idles (R 0) (snd x))"
proof -
  have count: "unat TREE_COUNT = 50" by (simp add: TREE_COUNT_def)
  show ?thesis unfolding mt_alloc_trace_def split_def count
    by (rule gives_bind [OF start], rule gives_bind [OF announced_gives], rule gives_bind [OF announced_bytes_gives], simp,
        rule gives_bind [OF make_trees_gives [OF ly]], assumption, simp)
qed

end

section \<open>The allocator as a stock\<close>

text \<open>A space from \<open>s\<close> to \<open>e\<close>, no collection so far, and room for \<open>t\<close> objects.\<close>

definition stocked :: "('q \<Rightarrow> immix_block list) \<Rightarrow> layout \<Rightarrow> address \<Rightarrow> address \<Rightarrow> nat \<Rightarrow> mutator_local \<Rightarrow> 'q world \<Rightarrow> bool" where
  "stocked c ly s e t m w \<longleftrightarrow> word_layout ly (unat (ly_size ly)) \<and> serves c (unat (ly_size ly)) t m w \<and>
     sp_start (wd_space w) = s \<and> sp_end (wd_space w) = e \<and> gc_log w = (0, [])"

definition in_space :: "address \<Rightarrow> address \<Rightarrow> address \<Rightarrow> bool" where
  "in_space s e a \<longleftrightarrow> s \<le> a \<and> addr_nat a + 8 \<le> addr_nat e \<and> addr_nat e < 2 ^ 63"

lemma stocked_user: "stocked c ly s e t m w \<Longrightarrow> addr_nat e < 2 ^ 63"
  by (auto simp: stocked_def serves_def alloc_pre_def user_space_def)

sublocale block_queue_spec \<subseteq> stock: stocked_client p I slow "3 + fuel" ly "in_space s e" "stocked c ly s e"
  for p slow fuel ly s e
proof
  fix t :: nat and m :: mutator_local and w :: "'q world" and a en mem
  show "gives (alloc (3 + fuel) p I slow ly m w) (\<lambda>x. in_space s e (fst x) \<and> idles (stocked c ly s e t) (snd x))"
    if st: "stocked c ly s e (Suc t) m w"
  proof -
    let ?n = "unat (ly_size ly)"
    have ly: "word_layout ly ?n" and sv: "serves c ?n (Suc t) m w" using st by (simp_all add: stocked_def)
    have "8 \<le> ?n" using ly by (auto simp: word_layout_def dest: dvd_imp_le)
    with alloc_serves_placed [OF ly sv, of fuel p slow] stocked_user [OF st] st show ?thesis
      by (auto simp: gives_def stocked_def in_space_def heap_frame_def)
  qed
  show "gives (Some (init_object p m w a en)) (stocked c ly s e t m)" if "stocked c ly s e t m w" "in_space s e a"
    using that init_object_serves [of c "unat (ly_size ly)" t m w a p en]
    by (auto simp: gives_def stocked_def in_space_def heap_frame_def)
  show "stocked c ly s e t m (w\<lparr>wd_mem := mem\<rparr>)" if "stocked c ly s e t m w"
    using that serves_mem by (auto simp: stocked_def)
  show "addr_nat a < 2 ^ 63" if "in_space s e a"
    using that by (simp add: in_space_def)
qed

lemma with_mutator_gives:
  assumes laws: "injector_laws I c r" and mmap: "mmap (sz + SPACE_ALIGN) = Some ptr"
    and top: "unat ptr + unat sz + 2 ^ 19 + 65536 < 2 ^ 63"
    and ly: "word_layout ly (unat (ly_size ly))" and t: "t \<le> (unat sz div 65536) * (65536 div unat (ly_size ly))"
  shows "\<exists>s e. gives (with_mutator p I mmap idx mem sz) (idles (stocked c ly s e t))"
proof -
  obtain s where s: "space_new p I mmap sz = Some (Inr s)" "space_ok c [] s"
    "addr_nat (sp_end s) < unat ptr + unat sz + 2 ^ 19"
    "c (sp_usable_blocks s) = map (nth_block (sp_start s)) [0..<unat sz div 65536]"
    "sp_cells s = replicate (unat sz div 256) Free"
    using space_new_ok [where I = I and p = p and mmap = mmap and sz = sz, OF laws mmap] top by auto
  have free: "\<forall>b\<in>set (c (sp_usable_blocks s)). \<forall>k<256. slice_line (ib_lines b) (sp_cells s) k = Free"
    using s(4,5) by auto
  let ?m = "fst (mutator_new idx (initial_world s mem))" and ?w = "snd (mutator_new idx (initial_world s mem))"
  have "stocked c ly (sp_start s) (sp_end s) t ?m ?w"
    using s(2,3) top ly t free s(4)
    by (auto simp: stocked_def serves_def alloc_pre_def pool_ok_def mut_ok_def user_space_def mutator_new_def initial_world_def
        held_by_def register_def empty_registry_def mg_new_def take_yield_def null_address_def intro!: exI [of _ "[]"])
  then show ?thesis by (auto simp: with_mutator_def s(1))
qed

section \<open>Whole programs\<close>

text \<open>A heap in which all objects of the selected program fit.\<close>

definition heap_enough :: "features \<Rightarrow> nat \<Rightarrow> bool" where
  "heap_enough ft sz \<longleftrightarrow>
     (if ft_exhaust ft \<or> ft_initobj ft then 1145 * 2 ^ 20 \<le> sz
      else if ft_gcbench ft \<or> ft_mt_gcbench ft \<or> ft_mark ft then False
      else if ft_trace ft then 1145 * 2 ^ 20 \<le> sz
      else ft_mt_trace ft \<and> 2134 * 2 ^ 20 \<le> sz)"

definition object_layout :: layout where "object_layout = \<lparr>ly_size = 24, ly_align = 8\<rparr>"
definition tree_layout :: layout where "tree_layout = \<lparr>ly_size = 32, ly_align = 8\<rparr>"

text \<open>What \<open>exhaust\<close> prints.\<close>

definition exhaust_report :: "string \<Rightarrow> usize \<Rightarrow> string list" where
  "exhaust_report elapsed sz =
     [''Trying to allocate 50000000 objects of (size 24, align 8). '', ''Considering header size of 0, an object should be 24. '',
      ''This would take 1200000000 bytes of '' @ dec_str (unat sz) @ '' bytes heap'', ''time used: '' @ elapsed]"

lemma program_layouts:
  "layout_from_size_align OBJECT_SIZE OBJECT_ALIGN = Inr object_layout" "word_layout object_layout 24"
  "layout_from_size_align K_OBJECT_SIZE K_OBJECT_ALIGN = Inr tree_layout" "word_layout tree_layout 32"
  by (simp_all add: layout_from_size_align_def object_layout_def tree_layout_def OBJECT_SIZE_def OBJECT_ALIGN_def
      K_OBJECT_SIZE_def K_OBJECT_ALIGN_def K_def word_layout_def)

lemma program_sizes:
  "unat (ly_size object_layout) = 24" "unat (ly_size tree_layout) = 32" "unat ALLOCATION_TIMES = 50000000"
  "unat INIT_TIMES = 50000000" "unat TRACE_TIMES = 50000000"
  by (simp_all add: object_layout_def tree_layout_def ALLOCATION_TIMES_def INIT_TIMES_def TRACE_TIMES_def)

lemma tree_objects_closed: "3 * tree_objects d + 1 = 4 ^ Suc d"
  by (induction d) (simp_all add: K_def)

lemma trees_total: "50 * tree_objects TREE_DEPTH = 69905050"
  using tree_objects_closed [of 10] by (simp add: TREE_DEPTH_def)

lemma blocks_enough:
  "1145 * 2 ^ 20 \<le> sz \<Longrightarrow> 50000000 \<le> (sz div 65536) * (65536 div 24)"
  "2134 * 2 ^ 20 \<le> sz \<Longrightarrow> 69905050 \<le> (sz div 65536) * (65536 div (32 :: nat))" for sz :: nat
  using div_le_mono [of "1145 * 2 ^ 20" sz 65536] div_le_mono [of "2134 * 2 ^ 20" sz 65536] by simp_all

context block_queue_spec
begin

text \<open>No collection has happened in a world, and none has printed anything.\<close>

abbreviation uncollected :: "'q world \<Rightarrow> bool" where
  "uncollected w \<equiv> gc_log w = (0, [])"

lemma stocked_uncollected: "idles (stocked c ly s e t) x \<Longrightarrow> uncollected (snd x)"
  by (simp add: stocked_def)

lemma heap_stock:
  assumes mmap: "mmap (sz + SPACE_ALIGN) = Some ptr" and top: "unat ptr + unat sz + 2 ^ 19 + 65536 < 2 ^ 63"
    and ly: "word_layout ly n" and t: "t \<le> (unat sz div 65536) * (65536 div n)"
  shows "\<exists>s e. gives (with_mutator p I mmap idx mem sz) (idles (stocked c ly s e t))"
proof -
  have n: "unat (ly_size ly) = n" using ly by (simp add: word_layout_def)
  show ?thesis
    by (rule with_mutator_gives [where mmap = mmap and sz = sz, OF laws mmap top]) (use ly t in \<open>simp_all add: n\<close>)
qed

lemma exhaust_uncollected:
  assumes mmap: "mmap (sz + SPACE_ALIGN) = Some ptr" "unat ptr + unat sz + 2 ^ 19 + 65536 < 2 ^ 63"
    and big: "1145 * 2 ^ 20 \<le> unat sz"
  shows "gives (exhaust_alloc (3 + fuel) p I slow mmap idx mem elapsed sz) 
    (\<lambda>x. uncollected (snd (snd x)) \<and> fst x = exhaust_report elapsed sz)"
proof -
  obtain s e where "gives (with_mutator p I mmap idx mem sz) (idles (stocked c object_layout s e (unat ALLOCATION_TIMES)))"
    using heap_stock [where mmap = mmap and sz = sz, OF mmap program_layouts(2) blocks_enough(1) [OF big]]
    unfolding program_sizes by blast
  from stock.exhaust_alloc_gives [OF program_layouts(1) this] show ?thesis
    by (rule gives_weaken) (simp add: stocked_def exhaust_report_def)
qed

lemma others_uncollected:
  assumes mmap: "mmap (sz + SPACE_ALIGN) = Some ptr" "unat ptr + unat sz + 2 ^ 19 + 65536 < 2 ^ 63"
  shows "1145 * 2 ^ 20 \<le> unat sz \<Longrightarrow>
      gives (alloc_init (3 + fuel) p I slow mmap idx mem elapsed sz) (\<lambda>x. uncollected (snd (snd x)))"
    and "1145 * 2 ^ 20 \<le> unat sz \<Longrightarrow>
      gives (alloc_trace (3 + fuel) p I slow mmap idx mem elapsed sz) (\<lambda>x. uncollected (snd (snd x)))"
    and "2134 * 2 ^ 20 \<le> unat sz \<Longrightarrow>
      gives (mt_alloc_trace (3 + fuel) p I slow mmap idx mem elapsed sz) (\<lambda>x. uncollected (snd (snd x)))"
proof -
  assume big: "1145 * 2 ^ 20 \<le> unat sz"
  obtain s e where st: "gives (with_mutator p I mmap idx mem sz) (idles (stocked c object_layout s e 50000000))"
    using heap_stock [where mmap = mmap and sz = sz, OF mmap program_layouts(2) blocks_enough(1) [OF big]] by blast
  show "gives (alloc_init (3 + fuel) p I slow mmap idx mem elapsed sz) (\<lambda>x. uncollected (snd (snd x)))"
    using stock.alloc_init_program_gives [OF program_layouts(1) st [folded program_sizes(4)]]
    by (rule gives_weaken) (rule stocked_uncollected)
  show "gives (alloc_trace (3 + fuel) p I slow mmap idx mem elapsed sz) (\<lambda>x. uncollected (snd (snd x)))"
    using stock.alloc_trace_gives [OF program_layouts(1) st [folded program_sizes(5)]]
    by (rule gives_weaken) (rule stocked_uncollected)
next
  assume big: "2134 * 2 ^ 20 \<le> unat sz"
  obtain s e where st: "gives (with_mutator p I mmap idx mem sz) (idles (stocked c tree_layout s e 69905050))"
    using heap_stock [where mmap = mmap and sz = sz, OF mmap program_layouts(4) blocks_enough(2) [OF big]] by blast
  show "gives (mt_alloc_trace (3 + fuel) p I slow mmap idx mem elapsed sz) (\<lambda>x. uncollected (snd (snd x)))"
    using stock.mt_alloc_trace_gives [OF program_layouts(3) st [folded trees_total]]
    by (rule gives_weaken) (rule stocked_uncollected)
qed

lemma main_uncollected:
  assumes mmap: "mmap (sz + SPACE_ALIGN) = Some ptr" "unat ptr + unat sz + 2 ^ 19 + 65536 < 2 ^ 63"
    and var: "heap_size var = Inr sz" and enough: "heap_enough ft (unat sz)"
  shows "gives (main_program (3 + fuel) p I slow mmap idx mem nt durations run cpus elapsed idle ft var)
    (\<lambda>x. uncollected (snd x) \<and> (ft_exhaust ft \<longrightarrow> fst x = heap_text var sz @
       [''The current machine has '' @ dec_str (unat cpus) @ '' cpus!'', ''Program compiled in 64x mode!''] @ exhaust_report elapsed sz))"
proof -
  have forget: "gives r (\<lambda>x. uncollected (snd (snd x)) \<and> Q (fst x)) \<Longrightarrow> gives (forget r) (\<lambda>x. uncollected (snd x) \<and> Q (fst x))" for r Q
    unfolding forget_def by (erule gives_bind) auto
  have forget_all: "gives r (\<lambda>x. uncollected (snd (snd x))) \<Longrightarrow> gives (forget r) (\<lambda>x. uncollected (snd x))" for r
    unfolding forget_def by (erule gives_bind) auto
  note runs = others_uncollected [where mmap = mmap and sz = sz, OF mmap] exhaust_uncollected [where mmap = mmap and sz = sz, OF mmap]
  have "gives (selected (3 + fuel) p I slow mmap idx mem nt durations run cpus elapsed idle ft sz)
      (\<lambda>x. uncollected (snd x) \<and> (ft_exhaust ft \<longrightarrow> fst x = exhaust_report elapsed sz))"
  proof (cases "ft_exhaust ft")
    case True
    then show ?thesis using enough runs(4) [THEN forget] by (simp add: heap_enough_def selected_def)
  next
    case False
    then show ?thesis
      using enough runs(1-3) [THEN forget_all] by (auto simp: heap_enough_def selected_def split: if_splits)
  qed
  then show ?thesis unfolding main_program_def var bind_ro_simps by (rule gives_bind) auto
qed

end

end
