(* ===== verification/Threads_Run.thy ===== *)
theory Threads_Run
  imports Threads Program_Fill
begin

text \<open>
  One thread by itself: what the sequential \<open>run_one_test\<close> computes is a run of the threads, from
  the first \<open>spawn\<close> to the last \<open>join\<close>; and on a heap that has room for all its objects it computes
  a result.
\<close>

declare split_paired_All [simp del] split_paired_Ex [simp del]

section \<open>A thread that nobody disturbs\<close>

text \<open>By its own steps thread \<open>t\<close> reaches the place \<open>pl\<close> with mutator \<open>m\<close> and world \<open>w\<close>, and prints
  \<open>out\<close> on the way.\<close>

definition reaches :: "profile \<Rightarrow> 'q block_queue \<Rightarrow> thread_prog \<Rightarrow> nat \<Rightarrow> 'q threads \<Rightarrow> place \<Rightarrow> mutator_local \<Rightarrow> 'q world \<Rightarrow>
    string list \<Rightarrow> bool" where
  "reaches p I body t T pl m w out \<longleftrightarrow> (\<exists>T'. (thread_step p I body t)\<^sup>*\<^sup>* T T' \<and> th_place T' t = pl \<and>
     at_work (th_index T' t) m w (th_stw T') \<and> th_out T' = th_out T @ map (Pair t) out)"

abbreviation seated :: "nat \<Rightarrow> place \<Rightarrow> mutator_local \<Rightarrow> 'q world \<Rightarrow> 'q threads \<Rightarrow> bool" where
  "seated t pl m w T \<equiv> th_place T t = pl \<and> at_work (th_index T t) m w (th_stw T)"

lemma reaches_refl: "seated t pl m w T \<Longrightarrow> reaches p I body t T pl m w []"
  unfolding reaches_def by (intro exI [of _ T]) simp

lemma reaches_trans:
  assumes "reaches p I body t T pl m w out" and "\<And>T'. seated t pl m w T' \<Longrightarrow> reaches p I body t T' pl' m' w' out'"
  shows "reaches p I body t T pl' m' w' (out @ out')"
proof -
  obtain T1 where T1: "(thread_step p I body t)\<^sup>*\<^sup>* T T1" "seated t pl m w T1" "th_out T1 = th_out T @ map (Pair t) out"
    using assms(1) unfolding reaches_def by blast
  obtain T2 where T2: "(thread_step p I body t)\<^sup>*\<^sup>* T1 T2" "seated t pl' m' w' T2" "th_out T2 = th_out T1 @ map (Pair t) out'"
    using assms(2) [OF T1(2)] unfolding reaches_def by blast
  show ?thesis unfolding reaches_def using rtranclp_trans [OF T1(1) T2(1)] T2(2,3) T1(3) by (intro exI [of _ T2]) simp
qed

lemma reaches_then:
  assumes "reaches p I body t T pl m w []" and "\<And>T'. seated t pl m w T' \<Longrightarrow> reaches p I body t T' pl' m' w' out'"
  shows "reaches p I body t T pl' m' w' out'"
  using reaches_trans [OF assms] by simp

lemma at_work_sel:
  assumes "at_work (th_index T t) m w (th_stw T)"
  shows "th_mut T t = m" and "th_world T = w" and "th_pc T t = Running" and "st_lock (th_stw T) = None"
    and "ml_id m = th_index T t" and "th_index T t \<in> arena (th_stw T)"
  using assms by (auto simp: at_work_def controls_def)

text \<open>Single steps: the thread changes place, and it acts on the heap.\<close>

lemma reaches_goes:
  assumes "seated t pl0 m w T" and "thread_step p I body t T (goes t pl T)"
  shows "reaches p I body t T pl m w []"
  unfolding reaches_def using assms by (intro exI [of _ "goes t pl T"]) (auto intro: r_into_rtranclp)

lemma at_work_does:
  assumes w: "at_work (th_index T t) m w (th_stw T)" and op: "mutator_op p I m w m' w'"
  shows "at_work (th_index T t) m' w' (th_stw (does t m' w' T))"
  using w mutator_op_barrier [OF op] by (simp add: at_work_def controls_def barrier_frame_def)

lemma reaches_does:
  assumes "seated t pl0 m w T" and "mutator_op p I m w m' w'" and "thread_step p I body t T (goes t pl (does t m' w' T))"
  shows "reaches p I body t T pl m' w' []"
  unfolding reaches_def using assms at_work_does [of T t m w p I m' w']
  by (intro exI [of _ "goes t pl (does t m' w' T)"]) (auto intro: r_into_rtranclp)

text \<open>The barrier.\<close>

lemma barrier_run_thread:
  assumes "barrier_run p I i s s'" and "st_pc s' i = Running"
  shows "th_place T t = Stopped ly k \<Longrightarrow> th_index T t = i \<Longrightarrow> th_stw T = s \<Longrightarrow> st_pc s i \<noteq> Running \<Longrightarrow>
    \<exists>T'. (thread_step p I body t)\<^sup>*\<^sup>* T T' \<and> th_place T' t = Fetching ly k \<and> th_index T' t = i \<and> th_stw T' = s' \<and> th_out T' = th_out T"
  using assms
proof (induction arbitrary: T rule: converse_rtranclp_induct)
  case base
  then show ?case by simp
next
  case (step s u)
  have st: "bstep p I i s u" using step.hyps(1) by (simp add: barrier_step_def)
  let ?T = "goes t (after_barrier ly k (st_pc u i)) (T\<lparr>th_stw := u\<rparr>)"
  have 1: "thread_step p I body t T ?T" using thread_step.barrier [of T t ly k p I u body] step.prems st by simp
  show ?case
  proof (cases "st_pc u i")
    case Running
    have "u = s'" using step.hyps(2) Running by (cases rule: converse_rtranclpE) (auto simp: barrier_step_def)
    then show ?thesis
      using 1 step.prems Running by (intro exI [of _ ?T]) (auto simp: after_barrier_def intro: r_into_rtranclp)
  next
    case (Crashed e)
    have "u = s'" using step.hyps(2)
    proof (cases rule: converse_rtranclpE)
      case (step x)
      then show ?thesis using Crashed by (auto simp: barrier_step_def elim: bstep.cases)
    qed
    then show ?thesis using Crashed step.prems by simp
  next
    case (Gathering cnt)
    then have "after_barrier ly k (st_pc u i) = Stopped ly k" "st_pc u i \<noteq> Running" by (simp_all add: after_barrier_def)
    then show ?thesis
      using step.IH [of ?T] step.prems converse_rtranclp_into_rtranclp [of "thread_step p I body t", OF 1] by fastforce
  qed (use step.IH [of ?T] step.prems converse_rtranclp_into_rtranclp [of "thread_step p I body t", OF 1] in
      \<open>fastforce simp: after_barrier_def\<close>)+
qed

lemma reaches_yield:
  assumes at: "seated t (Yielding ly k) m w T" and y: "yieldpoint (sync_barrier p I sched env) m w = Some (Inr (m', w'))"
    and none: "ml_block m = None"
  shows "ml_block m' = None \<and> reaches p I body t T (Fetching ly k) m' w' []"
proof (cases "take_yield (rg_globals (wd_registry w) (ml_id m))")
  case False
  note sel = at_work_sel [OF conjunct2 [OF at]]
  have "thread_step p I body t T (goes t (Fetching ly k) T)" by (rule thread_step.go_on) (use at False sel in simp_all)
  then show ?thesis using False y none reaches_goes [OF at] by (simp add: yieldpoint_def)
next
  case True
  note sel = at_work_sel [OF conjunct2 [OF at]]
  let ?i = "th_index T t"
  have b: "sync_barrier p I sched env m w = Some (Inr (m', w'))" using y True by (simp add: yieldpoint_def)
  have "ml_id (st_local (th_stw T) ?i) = ?i" "take_yield (rg_globals (wd_registry (th_world T)) ?i)" using True sel by simp_all
  from sync_barrier_path [OF sel(3,4) this, of p I sched env m' w'] b sel(1,2) obtain s0 s' where
    p: "bstep p I ?i (th_stw T) s0" "st_pc s0 ?i \<noteq> Running" "barrier_run p I ?i s0 s'" "controls ?i Running m' w' s'" by auto
  let ?T = "goes t (Stopped ly k) (T\<lparr>th_stw := s0\<rparr>)"
  have 1: "thread_step p I body t T ?T" using thread_step.stop [of T t ly k p I s0 body] at p(1,2) by blast
  have "st_pc s' ?i = Running" using p(4) by (simp add: controls_def)
  from barrier_run_thread [OF p(3) this, of ?T t ly k body] p(2) obtain T' where
    T': "(thread_step p I body t)\<^sup>*\<^sup>* ?T T'" "th_place T' t = Fetching ly k" "th_index T' t = ?i" "th_stw T' = s'" "th_out T' = th_out T"
    by auto
  have "at_work ?i m' w' s'" using p(4) sync_barrier_sel [OF b] conjunct2 [OF at] by (auto simp: at_work_def)
  then have "reaches p I body t T (Fetching ly k) m' w' []"
    unfolding reaches_def using converse_rtranclp_into_rtranclp [of "thread_step p I body t", OF 1 T'(1)] T'(2-5)
    by (intro exI [of _ T']) simp
  then show ?thesis using sync_barrier_sel [OF b] by simp
qed

section \<open>A call of alloc\<close>

lemma reaches_alloc_if_try:
  assumes at: "seated t (At (Alloc ly k)) m w T" and ly: "layout_ok ly"
    and run: "alloc fuel p I slow ly m w = Some (Inr (a, m', w'))"
    and try_ok: "\<And>T'. seated t (Trying ly k) m w T' \<Longrightarrow> try_alloc_from_local fuel p I slow ly m w = Some (Inr (a, m', w')) \<Longrightarrow>
      reaches p I body t T' (At (k a)) m' w' []"
  shows "reaches p I body t T (At (k a)) m' w' []"
proof -
  note sel = at_work_sel [OF conjunct2 [OF at]]
  from run obtain b e where b: "bump p m ly = Inr (b, e)" by (cases "bump p m ly") (auto simp: alloc.simps)
  show ?thesis
  proof (cases "e \<le> ml_limit m")
    case True
    have x: "a = b" "m' = m\<lparr>ml_cursor := e\<rparr>" "w' = w" using run b True by (simp_all add: alloc.simps)
    have op: "mutator_op p I m w m' w'" using mutator_op.bump [OF ly b] True by (simp add: x)
    have "thread_step p I body t T (goes t (At (k a)) (does t m' w' T))"
      using thread_step.bump [of T t ly k p b e I body] at b True sel(1,2) by (simp add: x)
    from reaches_does [OF at op this] show ?thesis .
  next
    case False
    have "thread_step p I body t T (goes t (Trying ly k) T)"
      by (rule thread_step.no_room) (use at b False sel(1) in simp_all)
    moreover have "try_alloc_from_local fuel p I slow ly m w = Some (Inr (a, m', w'))" using run b False by (simp add: alloc.simps)
    ultimately show ?thesis using reaches_then [OF reaches_goes [OF at]] try_ok by blast
  qed
qed

lemma reaches_calls:
  assumes ly: "layout_ok ly"
  shows "(\<forall>T m w a m' w'. seated t (Trying ly k) m w T \<longrightarrow>
      try_alloc_from_local fuel p I (sync_barrier p I sched env) ly m w = Some (Inr (a, m', w')) \<longrightarrow>
      reaches p I body t T (At (k a)) m' w' []) \<and>
    (\<forall>T m w a m' w'. seated t (Yielding ly k) m w T \<longrightarrow> ml_block m = None \<longrightarrow>
      alloc_from_global_loop fuel p I (sync_barrier p I sched env) ly m w = Some (Inr (a, m', w')) \<longrightarrow>
      reaches p I body t T (At (k a)) m' w' [])"
proof (induction fuel)
  case 0
  then show ?case by simp
next
  case (Suc fuel)
  let ?slow = "sync_barrier p I sched env"
  have alloc_ok: "reaches p I body t T (At (k a)) m' w' []"
    if "seated t (At (Alloc ly k)) m w T" "alloc fuel p I ?slow ly m w = Some (Inr (a, m', w'))" for T m w a m' w'
    using reaches_alloc_if_try [OF that(1) ly that(2)] Suc by blast
  have "reaches p I body t T (At (k a)) m' w' []"
    if at: "seated t (Trying ly k) m w T"
      and run: "try_alloc_from_local (Suc fuel) p I ?slow ly m w = Some (Inr (a, m', w'))" for T m w a m' w'
  proof -
    note sel = at_work_sel [OF conjunct2 [OF at]]
    from run obtain opt where nh: "next_hole p m (wd_cells w) = Inr opt" by (cases "next_hole p m (wd_cells w)") auto
    show ?thesis
    proof (cases opt)
      case (Some h)
      have op: "mutator_op p I m w (fst h) (with_cells w (snd h))" using nh Some by (intro mutator_op.hole) simp
      have "thread_step p I body t T (goes t (At (Alloc ly k)) (does t (fst h) (with_cells w (snd h)) T))"
        using thread_step.hole [of T t ly k p h I body] at nh Some sel(1,2) by simp
      note first = reaches_does [OF at op this]
      have "alloc fuel p I ?slow ly (fst h) (with_cells w (snd h)) = Some (Inr (a, m', w'))" using run nh Some by simp
      from reaches_then [OF first alloc_ok [OF _ this]] show ?thesis .
    next
      case None
      have "thread_step p I body t T (goes t (Handing ly k) T)"
        by (rule thread_step.no_hole) (use at nh None sel(1,2) in simp_all)
      note first = reaches_goes [OF at this]
      obtain m1 w1 where rb: "return_block I m w = (m1, w1)" by (cases "return_block I m w")
      have second: "reaches p I body t T' (Yielding ly k) m1 w1 []" if at': "seated t (Handing ly k) m w T'" for T'
      proof -
        have "thread_step p I body t T' (goes t (Yielding ly k) (does t m1 w1 T'))"
          by (rule thread_step.hand) (use at' rb at_work_sel(1,2) [OF conjunct2 [OF at']] in simp_all)
        from reaches_does [OF at' mutator_op.give_back [OF rb] this] show ?thesis .
      qed
      have "alloc_from_global_loop fuel p I ?slow ly m1 w1 = Some (Inr (a, m', w'))"
        using run nh None by (simp add: alloc_from_global.simps rb)
      then have "reaches p I body t T' (At (k a)) m' w' []" if "seated t (Yielding ly k) m1 w1 T'" for T'
        using Suc that return_block_barrier [OF rb] by blast
      from reaches_then [OF reaches_then [OF first second] this] show ?thesis .
    qed
  qed
  moreover have "reaches p I body t T (At (k a)) m' w' []"
    if at: "seated t (Yielding ly k) m w T" and none: "ml_block m = None"
      and run: "alloc_from_global_loop (Suc fuel) p I ?slow ly m w = Some (Inr (a, m', w'))" for T m w a m' w'
  proof -
    from run obtain m1 w1 where y: "yieldpoint ?slow m w = Some (Inr (m1, w1))" by auto
    from reaches_yield [OF at y none] have none1: "ml_block m1 = None"
      and first: "reaches p I body t T (Fetching ly k) m1 w1 []" by blast+
    from run y obtain ob w2 where f: "fetch_block I w1 = Some (ob, w2)" by auto
    show ?thesis
    proof (cases ob)
      case (Some b)
      have second: "reaches p I body t T' (At (Alloc ly k)) (take_block m1 b) w2 []"
        if at': "seated t (Fetching ly k) m1 w1 T'" for T'
      proof -
        have "thread_step p I body t T' (goes t (At (Alloc ly k)) (does t (take_block m1 b) w2 T'))"
          using thread_step.fetch [of T' t ly k I b w2 p body] f [unfolded Some] at' at_work_sel(1,2) [OF conjunct2 [OF at']] by simp
        from reaches_does [OF at' mutator_op.fetch [OF none1 f [unfolded Some]] this] show ?thesis .
      qed
      have "alloc fuel p I ?slow ly (take_block m1 b) w2 = Some (Inr (a, m', w'))" using run y f Some by simp
      from reaches_then [OF reaches_then [OF first second] alloc_ok [OF _ this]] show ?thesis .
    next
      case None
      have second: "reaches p I body t T' (Yielding ly k) m1 w2 []" if at': "seated t (Fetching ly k) m1 w1 T'" for T'
      proof -
        have "thread_step p I body t T' (goes t (Yielding ly k) (does t m1 w2 T'))"
          using thread_step.no_block [of T' t ly k I w2 p body] f [unfolded None] at' at_work_sel(1,2) [OF conjunct2 [OF at']] by simp
        from reaches_does [OF at' mutator_op.fetch_none [OF f [unfolded None]] this] show ?thesis .
      qed
      have "alloc_from_global_loop fuel p I ?slow ly m1 w2 = Some (Inr (a, m', w'))" using run y f None by simp
      then have "reaches p I body t T' (At (k a)) m' w' []" if "seated t (Yielding ly k) m1 w2 T'" for T'
        using Suc that none1 by blast
      from reaches_then [OF reaches_then [OF first second] this] show ?thesis .
    qed
  qed
  ultimately show ?case by blast
qed

lemma reaches_alloc:
  assumes "seated t (At (Alloc ly k)) m w T" and "layout_ok ly"
    and "alloc fuel p I (sync_barrier p I sched env) ly m w = Some (Inr (a, m', w'))"
  shows "reaches p I body t T (At (k a)) m' w' []"
  using reaches_alloc_if_try [OF assms] reaches_calls [OF assms(2)] by blast

section \<open>A whole thread\<close>

lemma reaches_exec:
  assumes "seated t (At pr) m w T" and "layouts_ok pr"
    and "exec fuel p I (sync_barrier p I sched env) pr m w = Some (Inr (out, m', w'))"
  shows "\<exists>T'. (thread_step p I body t)\<^sup>*\<^sup>* T T' \<and> th_place T' t = Over \<and> th_world T' = w' \<and>
    th_out T' = th_out T @ map (Pair t) out"
  using assms
proof (induction pr arbitrary: T m w out)
  case (Alloc ly k)
  then obtain a m1 w1 where a: "alloc fuel p I (sync_barrier p I sched env) ly m w = Some (Inr (a, m1, w1))"
    "exec fuel p I (sync_barrier p I sched env) (k a) m1 w1 = Some (Inr (out, m', w'))" by auto
  have ok: "layout_ok ly" "layouts_ok (k a)" using Alloc.prems(2) by simp_all
  obtain T1 where T1: "(thread_step p I body t)\<^sup>*\<^sup>* T T1" "seated t (At (k a)) m1 w1 T1" "th_out T1 = th_out T"
    using reaches_alloc [OF Alloc.prems(1) ok(1) a(1), of body] unfolding reaches_def by auto
  from Alloc.IH [OF _ T1(2) ok(2) a(2)] T1(1,3) show ?case by (auto intro: rtranclp_trans)
next
  case (Init addr encode k)
  note sel = at_work_sel [OF conjunct2 [OF Init.prems(1)]]
  from Init.prems(3) obtain w1 where w1: "init_object p m w addr encode = Inr w1"
    "exec fuel p I (sync_barrier p I sched env) k m w1 = Some (Inr (out, m', w'))" by auto
  have "thread_step p I body t T (goes t (At k) (does t m w1 T))"
    using thread_step.init [of T t addr encode k p w1 I body] Init.prems(1) w1(1) sel(1,2) by simp
  from reaches_does [OF Init.prems(1) mutator_op.init [OF w1(1)] this] obtain T1 where
    T1: "(thread_step p I body t)\<^sup>*\<^sup>* T T1" "seated t (At k) m w1 T1" "th_out T1 = th_out T" unfolding reaches_def by auto
  from Init.IH [OF T1(2) _ w1(2)] Init.prems(2) T1(1,3) show ?case by (auto intro: rtranclp_trans)
next
  case (Store obj off v k)
  note sel = at_work_sel [OF conjunct2 [OF Store.prems(1)]]
  have op: "mutator_op p I m w m (store_at obj off v w)" unfolding store_at_def by (rule mutator_op.store)
  have "thread_step p I body t T (goes t (At k) (does t m (store_at obj off v w) T))"
    using thread_step.store [of T t obj off v k p I body] Store.prems(1) sel(1,2) by simp
  from reaches_does [OF Store.prems(1) op this] obtain T1 where
    T1: "(thread_step p I body t)\<^sup>*\<^sup>* T T1" "seated t (At k) m (store_at obj off v w) T1" "th_out T1 = th_out T"
    unfolding reaches_def by auto
  from Store.IH [OF T1(2)] Store.prems(2,3) T1(1,3) show ?case by (auto intro: rtranclp_trans)
next
  case (Load obj off k)
  note sel = at_work_sel [OF conjunct2 [OF Load.prems(1)]]
  let ?v = "load_at obj off w"
  have "thread_step p I body t T (goes t (At (k ?v)) T)"
    using thread_step.load [of T t obj off k p I body] Load.prems(1) sel(2) by simp
  from reaches_goes [OF Load.prems(1) this] obtain T1 where
    T1: "(thread_step p I body t)\<^sup>*\<^sup>* T T1" "seated t (At (k ?v)) m w T1" "th_out T1 = th_out T" unfolding reaches_def by auto
  from Load.IH [OF _ T1(2)] Load.prems(2,3) T1(1,3) show ?case by (auto intro: rtranclp_trans)
next
  case (Print l k)
  from Print.prems(3) obtain rest where rest: "out = l @ rest"
    "exec fuel p I (sync_barrier p I sched env) k m w = Some (Inr (rest, m', w'))" by auto
  let ?T = "goes t (At k) (prints t l T)"
  have 1: "thread_step p I body t T ?T" using thread_step.println [of T t l k p I body] Print.prems(1) by simp
  have "seated t (At k) m w ?T" using Print.prems(1) by simp
  from Print.IH [OF this _ rest(2)] Print.prems(2) obtain T' where
    "(thread_step p I body t)\<^sup>*\<^sup>* ?T T'" "th_place T' t = Over" "th_world T' = w'" "th_out T' = th_out ?T @ map (Pair t) rest" by auto
  then show ?case using converse_rtranclp_into_rtranclp [of "thread_step p I body t", OF 1] rest(1) by fastforce
next
  case (Abort e)
  then show ?case by simp
next
  case Finish
  note sel = at_work_sel [OF conjunct2 [OF Finish.prems(1)]]
  have d: "destroy I m w = (m', w')" "out = destroy_text p w'"
    using Finish.prems(3) by (simp_all add: Let_def split: prod.splits)
  have "thread_step p I body t T (goes t Over (prints t (destroy_text p w') (does t m' w' T)))"
    using thread_step.finish [of T t I m' w' p body] Finish.prems(1) d(1) sel(1,2) by simp
  then show ?case
    using d(2) by (intro exI [of _ "goes t Over (prints t (destroy_text p w') (does t m' w' T))"]) auto
qed

text \<open>One thread from \<open>spawn\<close> to \<open>join\<close>.\<close>

lemma thread_steps_main: "(thread_step p I body t)\<^sup>*\<^sup>* T T' \<Longrightarrow> th_main T' = th_main T"
  by (induction rule: rtranclp_induct) (simp_all add: thread_step_frame(1))

lemma thread_steps_run: "(thread_step p I body t)\<^sup>*\<^sup>* T T' \<Longrightarrow> t < n \<Longrightarrow> threads_run p I body n T T'"
  by (induction rule: rtranclp_induct) (auto intro: threads_step.thread rtranclp.rtrancl_into_rtrancl)

lemma one_thread_joined:
  assumes start: "threads_start w T0" "wd_registry w = empty_registry" and body: "layouts_ok body"
    and run: "exec fuel p I (sync_barrier p I sched env) body (fst (mutator_new idx w)) (snd (mutator_new idx w)) =
      Some (Inr (out, m', w'))"
  shows "\<exists>T. threads_run p I body 1 T0 T \<and> th_main T = Joined \<and> th_world T = w' \<and> th_out T = map (Pair 0) out"
proof -
  let ?m = "fst (mutator_new idx w)" and ?w = "snd (mutator_new idx w)"
  let ?T1 = "goes 0 Born (T0\<lparr>th_main := Spawning (Suc 0)\<rparr>)"
  let ?T2 = "?T1\<lparr>th_main := Joining 0\<rparr>"
  let ?T3 = "goes 0 (At body) (?T2\<lparr>th_index := (th_index ?T2)(0 := idx), th_stw := (th_stw ?T2)\<lparr>st_world := ?w,
    st_local := (st_local (th_stw ?T2))(idx := ?m), st_pc := (st_pc (th_stw ?T2))(idx := Running)\<rparr>\<rparr>)"
  have "main_step 1 T0 ?T1" using start main_step.spawn [of T0 0 1] by (simp add: threads_start_def)
  moreover have "main_step 1 ?T1 ?T2" using main_step.spawned [of ?T1 1] by simp
  moreover have 3: "thread_step p I body 0 ?T2 ?T3"
    using start thread_step.new [of ?T2 0 idx ?m ?w p I body] by (simp add: threads_start_def fresh_index_def empty_registry_def)
  ultimately have T3: "threads_run p I body 1 T0 ?T3"
    by (meson converse_rtranclp_into_rtranclp r_into_rtranclp threads_step.main threads_step.thread zero_less_one)
  have "seated 0 (At body) ?m ?w ?T3"
    using start by (simp add: at_work_def controls_def threads_start_def mutator_new_def register_def)
  from reaches_exec [OF this body run] obtain T4 where
    T4: "(thread_step p I body 0)\<^sup>*\<^sup>* ?T3 T4" "th_place T4 0 = Over" "th_world T4 = w'" "th_out T4 = map (Pair 0) out"
    using start by (auto simp: threads_start_def)
  let ?T5 = "T4\<lparr>th_main := Joining (Suc 0)\<rparr>" and ?T6 = "T4\<lparr>th_main := Joined\<rparr>"
  have "th_main T4 = Joining 0" using thread_steps_main [OF T4(1)] by simp
  then have "main_step 1 T4 ?T5" using main_step.join [of T4 0 1] T4(2) by simp
  moreover have "main_step 1 ?T5 ?T6" using main_step.joined [of ?T5 1] by simp
  ultimately have "threads_run p I body 1 T4 ?T6"
    by (meson converse_rtranclp_into_rtranclp r_into_rtranclp threads_step.main)
  then have "threads_run p I body 1 T0 ?T6"
    using rtranclp_trans [OF rtranclp_trans [OF T3 thread_steps_run [OF T4(1) zero_less_one]]] by blast
  then show ?thesis using T4(3,4) by (intro exI [of _ ?T6]) simp
qed

section \<open>A heap for all objects of a thread\<close>

text \<open>The objects below a populated node, and those the measurements from a depth on create.\<close>

fun grown_objects :: "nat \<Rightarrow> nat" where
  "grown_objects 0 = 0"
| "grown_objects (Suc d) = Suc (Suc (2 * grown_objects d))"

definition iterations :: "nat \<Rightarrow> nat" where
  "iterations d = (20 * (2 ^ 22 - 1)) div (2 ^ Suc d - 1)"

definition measured_objects :: "nat \<Rightarrow> nat" where
  "measured_objects d = 2 * (iterations d * Suc (grown_objects d))"

lemma grown_objects_closed: "Suc (Suc (grown_objects d)) = 2 ^ Suc d"
  by (induction d) simp_all

lemma measured_objects_bound: "measured_objects d \<le> 40 * (2 ^ 22 - 1)"
proof -
  have "Suc (grown_objects d) = 2 ^ Suc d - 1" using grown_objects_closed [of d] by simp
  then show ?thesis unfolding measured_objects_def iterations_def by (metis mult.assoc mult_le_mono2 div_times_less_eq_dividend
    mult_2 numeral_Bit0 mult.commute)
qed

lemma mt_TreeSize_eq:
  assumes "d \<le> 30"
  shows "mt_TreeSize p (of_nat d) = Inr (of_nat (2 ^ Suc d - 1))"
proof -
  have d: "unat (of_nat d :: usize) = d" "unat (of_nat d + 1 :: usize) = Suc d"
    using assms by (simp_all add: unat_of_nat unat_word_ariths)
  have k: "unat (push_bit (Suc d) 1 :: usize) = 2 ^ Suc d"
    using assms unat_exp_64 [of "Suc d"] by (simp add: push_bit_eq_mult)
  then have "(1 :: usize) \<le> push_bit (Suc d) 1" by (simp add: word_le_nat_alt)
  moreover have "(of_nat (2 ^ Suc d - 1) :: usize) = push_bit (Suc d) 1 - 1" by (simp add: push_bit_eq_mult of_nat_diff)
  ultimately show ?thesis using d assms by (simp add: mt_TreeSize_def usize_add_def usize_shl_def usize_sub_def)
qed

lemma mt_NumIters_eq:
  assumes "d \<le> 30"
  shows "\<exists>n. mt_NumIters p (of_nat d) = Inr n \<and> unat n = iterations d"
proof -
  have T: "unat (of_nat (2 ^ Suc d - 1) :: usize) = 2 ^ Suc d - 1"
  proof -
    have "(2 :: nat) ^ Suc d \<le> 2 ^ 31" using assms by (intro power_increasing) simp_all
    then have "2 ^ Suc d - 1 < (2 :: nat) ^ 64" by simp
    then show ?thesis using unat_of_nat [of "2 ^ Suc d - 1", where 'a = 64] by simp
  qed
  then have "(of_nat (2 ^ Suc d - 1) :: usize) \<noteq> 0" using one_less_power [of "2 :: nat" "Suc d"] by (auto simp: unat_eq_0 [symmetric])
  then have "mt_NumIters p (of_nat d) = Inr (83886060 div of_nat (2 ^ Suc d - 1))"
    using mt_TreeSize_eq [OF assms, of p] mt_TreeSize_eq [of 21 p] unfolding mt_NumIters_def mt_kMaxTreeDepth_def
    by (simp add: usize_mul_def usize_div_def)
  moreover have "unat (83886060 div of_nat (2 ^ Suc d - 1) :: usize) = iterations d"
    using T by (simp add: unat_div iterations_def)
  ultimately show ?thesis by blast
qed

text \<open>The objects of the measurements, in the order of the loop.\<close>

definition thread_objects :: nat where
  "thread_objects = Suc (grown_objects mt_kLongLivedTreeDepth) + (\<Sum>d\<leftarrow>mt_bench_depths. measured_objects d)"

lemma thread_objects_bound: "thread_objects \<le> 2 ^ 20 * (65536 div 32)"
proof -
  have "Suc (Suc (grown_objects 16)) = 2 ^ 17" using grown_objects_closed [of 16] by simp
  moreover have "(\<Sum>d\<leftarrow>ds. measured_objects d) \<le> length ds * (40 * (2 ^ 22 - 1))" for ds
    by (induction ds) (use measured_objects_bound in \<open>auto intro!: add_mono\<close>)
  from this [of mt_bench_depths] have "(\<Sum>d\<leftarrow>mt_bench_depths. measured_objects d) \<le> 9 * (40 * (2 ^ 22 - 1))"
    by (simp add: mt_bench_depths_def)
  ultimately show ?thesis by (simp add: thread_objects_def mt_kLongLivedTreeDepth_def)
qed

context stocked_client
begin

lemma mt_alloc_gives:
  assumes "nt_layout mt_Node = ly" and "R (Suc t) m w"
  shows "gives (mt_alloc fuel p I slow m w) (\<lambda>x. inside (fst x) \<and> idles (R t) (snd x))"
  unfolding mt_alloc_def assms(1) split_def
  by (rule gives_bind [OF alloc_gives [OF assms(2)]], elim conjE, rule gives_bind [OF init_gives]) simp_all

lemma mt_Populate_gives:
  assumes ly: "nt_layout mt_Node = ly"
  shows "R (grown_objects d + t) m w \<Longrightarrow> gives (mt_Populate fuel p I slow d a m w) (idles (R t))"
proof (induction d arbitrary: a t m w)
  case (Suc d)
  have R: "R (Suc (Suc (grown_objects d + (grown_objects d + t)))) m w" using Suc.prems by (simp add: add.assoc mult_2)
  show ?case unfolding mt_Populate.simps split_def Let_def
    by (rule gives_bind [OF mt_alloc_gives [OF ly R]], elim conjE,
        rule gives_bind [OF mt_alloc_gives [OF ly store_stays]], assumption, elim conjE,
        rule gives_bind [OF Suc.IH [OF store_stays]], assumption, rule Suc.IH)
qed simp

lemma mt_MakeTree_gives:
  assumes ly: "nt_layout mt_Node = ly"
  shows "R (Suc (grown_objects d) + t) m w \<Longrightarrow> gives (mt_MakeTree fuel p I slow d m w) (\<lambda>x. idles (R t) (snd x))"
proof (induction d arbitrary: t m w)
  case 0
  then show ?case using gives_weaken [OF mt_alloc_gives [OF ly]] by simp
next
  case (Suc d)
  have R: "R (Suc (grown_objects d) + (Suc (grown_objects d) + Suc t)) m w" using Suc.prems by (simp add: mult_2 add.assoc)
  show ?case unfolding mt_MakeTree.simps split_def
    by (rule gives_bind [OF Suc.IH [OF R]], rule gives_bind [OF Suc.IH], assumption,
        rule gives_bind [OF mt_alloc_gives [OF ly]], assumption) (simp add: mt_init_Node_def store_stays)
qed

lemma repeat_gives_each:
  assumes "\<And>t m w. R (a + t) m w \<Longrightarrow> gives (f m w) (idles (R t))"
  shows "R (n * a + t) m w \<Longrightarrow> gives (repeat_step n f m w) (idles (R t))"
proof (induction n arbitrary: m w)
  case (Suc n)
  have "R (a + (n * a + t)) m w" using Suc.prems by (simp add: add.assoc)
  from assms [OF this] show ?case unfolding repeat_step.simps by (rule gives_bind) (rule Suc.IH)
qed simp

lemma mt_TimeConstruction_gives:
  assumes ly: "nt_layout mt_Node = ly" and d: "d \<le> 30" and R: "R (measured_objects d + t) m w"
  shows "gives (mt_TimeConstruction fuel p I slow d m w) (idles (R t))"
proof -
  let ?n = "iterations d" and ?a = "Suc (grown_objects d)"
  have R: "R (?n * ?a + (?n * ?a + t)) m w" using R by (simp only: measured_objects_def mult_2 add.assoc)
  have grow: "R (?a + t) m w \<Longrightarrow> gives (bind_ro (mt_alloc fuel p I slow m w) (\<lambda>x. mt_Populate fuel p I slow d (fst x) (fst (snd x)) (snd (snd x))))
      (idles (R t))" for t m w
    by (rule gives_bind [OF mt_alloc_gives [OF ly]], simp, elim conjE, rule mt_Populate_gives [OF ly])
  have make: "R (?a + t) m w \<Longrightarrow> gives (bind_ro (mt_MakeTree fuel p I slow d m w) (\<lambda>x. Some (Inr (fst (snd x), snd (snd x))))) (idles (R t))"
    for t m w
    by (rule gives_bind [OF mt_MakeTree_gives [OF ly]]) simp_all
  obtain n where n: "mt_NumIters p (of_nat d) = Inr n" "unat n = ?n" using mt_NumIters_eq [OF d] by blast
  show ?thesis unfolding mt_TimeConstruction_def split_def n bind_ro_simps
    by (rule gives_bind [OF repeat_gives_each [OF grow R]], assumption, rule repeat_gives_each [OF make])
qed

lemma mt_depth_loop_gives:
  assumes ly: "nt_layout mt_Node = ly"
  shows "R ((\<Sum>d\<leftarrow>depths_from d. measured_objects d) + t) m w \<Longrightarrow> gives (mt_depth_loop fuel p I slow d m w) (idles (R t))"
proof (induction "mt_kMaxTreeDepth + 1 - d" arbitrary: d m w rule: less_induct)
  case less
  show ?case
  proof (cases "d \<le> mt_kMaxTreeDepth")
    case True
    then have d: "d \<le> 30" "mt_kMaxTreeDepth + 1 - (d + 2) < mt_kMaxTreeDepth + 1 - d" by (simp_all add: mt_kMaxTreeDepth_def)
    have "R (measured_objects d + ((\<Sum>d\<leftarrow>depths_from (d + 2). measured_objects d) + t)) m w"
      using less.prems depths_from_step [OF True] by (simp add: add.assoc)
    from mt_TimeConstruction_gives [OF ly d(1) this] show ?thesis
      using True unfolding mt_depth_loop.simps [of fuel p I slow d] split_def
      by (simp, intro gives_bind [where P = "idles (R ((\<Sum>d\<leftarrow>depths_from (d + 2). measured_objects d) + t))"]) (auto intro!: less.hyps d(2))
  next
    case False
    then show ?thesis using less.prems by (simp add: mt_depth_loop.simps [of fuel p I slow d] depths_from_end)
  qed
qed

lemma measured_gives: "\<forall>d\<in>set ds. d \<le> 30 \<Longrightarrow> \<exists>measured. mt_measured_text p durations ds = Inr measured"
proof (induction ds)
  case (Cons d ds)
  then obtain n measured where "mt_NumIters p (of_nat d) = Inr n" "mt_measured_text p durations ds = Inr measured"
    using mt_NumIters_eq [of d p] by auto
  then show ?case by simp
qed simp

lemma run_one_test_gives:
  assumes ly: "nt_layout mt_Node = ly" and R: "R thread_objects (fst (mutator_new idx w)) (snd (mutator_new idx w))"
  shows "gives (run_one_test fuel p I slow durations idx w) (\<lambda>x. True)"
proof -
  have R: "R (Suc (grown_objects mt_kLongLivedTreeDepth + ((\<Sum>d\<leftarrow>depths_from mt_kMinTreeDepth. measured_objects d) + 0)))
      (fst (mutator_new idx w)) (snd (mutator_new idx w))"
    using R by (simp add: thread_objects_def depths_from_min)
  obtain measured where lines: "mt_measured_text p durations mt_bench_depths = Inr measured"
    using measured_gives [of mt_bench_depths durations] by (auto simp: mt_bench_depths_def)
  show ?thesis unfolding run_one_test_def split_def Let_def
    by (rule gives_bind [OF mt_alloc_gives [OF ly R]], elim conjE, rule gives_bind [OF mt_Populate_gives [OF ly]], assumption,
        rule gives_bind [OF mt_depth_loop_gives [OF ly]], assumption) (simp add: lines)
qed

end

lemma one_thread_gives:
  assumes "wd_registry w = empty_registry"
    and "run_one_test fuel p I (sync_barrier p I sched env) durations idx w = Some (Inr (out, m', w'))"
  shows "threads_give p I (thread_body p durations) 1 w (out, w')"
proof -
  let ?S = "\<lparr>st_world = w, st_lock = None, st_pc = \<lambda>_. Running, st_local = \<lambda>_. fst (mutator_new idx w), st_scanned = \<lambda>_. []\<rparr>"
  let ?T = "\<lparr>th_stw = ?S, th_place = \<lambda>_. Unborn, th_index = \<lambda>_. idx, th_out = [], th_main = Spawning 0\<rparr>"
  have start: "threads_start w ?T" by (simp add: threads_start_def)
  obtain T where T: "threads_run p I (thread_body p durations) 1 ?T T" "th_main T = Joined" "th_world T = w'"
    "th_out T = map (Pair 0) out"
    using one_thread_joined [OF start assms(1) layouts_ok_thread_body assms(2) [folded exec_thread_body]] by blast
  have "map snd (th_out T) = out" using T(4) by (simp add: comp_def)
  then show ?thesis using start T(1-3) unfolding threads_give_def by blast
qed

context block_queue_spec
begin

text \<open>On 64 GiB a single thread ends without a collection.\<close>

lemma one_thread_ends:
  assumes mmap: "mmap (sz + SPACE_ALIGN) = Some ptr" "unat ptr + unat sz + 2 ^ 19 + 65536 < 2 ^ 63"
    and big: "2 ^ 36 \<le> unat sz" and sp: "space_new p I mmap sz = Some (Inr sp)"
  shows "\<exists>x. threads_give p I (thread_body p durations) 1 (initial_world sp mem) x"
proof -
  have node: "nt_layout mt_Node = tree_layout" by (simp add: mt_Node_def tree_layout_def)
  have "2 ^ 20 \<le> unat sz div 65536" using div_le_mono [OF big, of 65536] by simp
  then have room: "thread_objects \<le> unat sz div 65536 * (65536 div 32)"
    using thread_objects_bound mult_le_mono1 le_trans by blast
  let ?idx = "(0, 0)" and ?w = "initial_world sp mem"
  obtain s e where "gives (with_mutator p I mmap ?idx mem sz) (idles (stocked c tree_layout s e thread_objects))"
    using heap_stock [where mmap = mmap and sz = sz, OF mmap program_layouts(4) room] by blast
  then have "stocked c tree_layout s e thread_objects (fst (mutator_new ?idx ?w)) (snd (mutator_new ?idx ?w))"
    by (simp add: with_mutator_def sp)
  from stock.run_one_test_gives [OF node this, of 0 p "sync_barrier p I undefined undefined" durations] obtain out m' w' where
    "run_one_test (3 + 0) p I (sync_barrier p I undefined undefined) durations ?idx ?w = Some (Inr (out, m', w'))"
    unfolding gives_def by (metis prod_cases3)
  from one_thread_gives [OF _ this] show ?thesis by (auto simp: initial_world_def)
qed

end

end
