(* ===== verification/Example_Program.thy ===== *)
theory Example_Program
  imports Threads_Run Example_Heap
begin

text \<open>Concrete settings of the programs: a memory map, features and sizes of the heap.\<close>

definition ex_mmap :: "usize \<Rightarrow> usize option" where
  "ex_mmap n = (if unat n \<le> 2 ^ 40 then Some 4096 else None)"

lemma ex_mmap_ok: "user_mmap ex_mmap" "ex_mmap (2147483648 + SPACE_ALIGN) = Some 4096"
  by (auto simp: user_mmap_def ex_mmap_def SPACE_ALIGN_def split: if_splits)

definition ex_gcbench :: features where
  "ex_gcbench = \<lparr>ft_exhaust = False, ft_initobj = False, ft_gcbench = True, ft_mt_gcbench = False, ft_mark = False,
     ft_trace = False, ft_mt_trace = True\<rparr>"

definition ex_exhaust :: features where
  "ex_exhaust = \<lparr>ft_exhaust = True, ft_initobj = False, ft_gcbench = False, ft_mt_gcbench = False, ft_mark = False,
     ft_trace = False, ft_mt_trace = False\<rparr>"

lemma ex_features: "one_thread ex_gcbench" "one_thread ex_exhaust"
  by (simp_all add: one_thread_def ex_gcbench_def ex_exhaust_def)

lemma ex_heap_2048: "heap_size (Some ''2048M'') = Inr 2147483648"
  by (simp add: heap_size_def parse_usize_def dec_val_def is_digit_def push_bit_eq_mult)

text \<open>A heap of 64 GiB for one thread of \<open>mt_gcbench\<close>.\<close>

definition ex_size :: usize where
  "ex_size = 68719476736"

definition ex_durations :: "nat \<Rightarrow> string \<times> string" where
  "ex_durations d = (''1ms'', ''1ms'')"

lemma ex_size_ok:
  "ex_mmap (ex_size + SPACE_ALIGN) = Some 4096" "unat (4096 :: usize) + unat ex_size + 2 ^ 19 + 65536 < 2 ^ 63"
  "2 ^ 36 \<le> unat ex_size"
  by (simp_all add: ex_mmap_def ex_size_def SPACE_ALIGN_def)

lemma ex_threads:
  "\<exists>sp x. space_new Debug (fifo_ops 0) ex_mmap ex_size = Some (Inr (sp :: (immix_block list \<times> nat) immix_space)) \<and>
     threads_give Debug (fifo_ops 0) (thread_body Debug ex_durations) 1 (initial_world sp (\<lambda>_. 0)) x"
proof -
  have top: "unat (4096 :: usize) + unat ex_size + 2 ^ 19 + 65536 < 2 ^ 64" using ex_size_ok(2) by simp
  obtain sp :: "(immix_block list \<times> nat) immix_space" where sp: "space_new Debug (fifo_ops 0) ex_mmap ex_size = Some (Inr sp)"
    using space_new_ok [where I = "fifo_ops 0" and mmap = ex_mmap and sz = ex_size, OF fifo_ops_laws ex_size_ok(1) top] by blast
  from fifo_blocks.one_thread_ends [where mmap = ex_mmap and sz = ex_size, OF ex_size_ok sp] sp show ?thesis by blast
qed

end
