(* ===== verification/Trace_Fair.thy ===== *)
theory Trace_Fair
  imports Trace_Spec
begin

text \<open>
  The workers of a trace come to an end when they are scheduled fairly. What is left to do is
  measured by a number (\<open>work\<close>) that every step on an object, a task or an edge decreases,
  although several workers may push the same object; the other steps, which only look for work,
  settle once there is none left.
\<close>

section \<open>The work left\<close>

text \<open>The objects that are not yet marked, and the steps that a pending reference can cause: a
  marked object may still push four unmarked ones.\<close>

fun bound :: "nat \<Rightarrow> nat" where
  "bound 0 = 0"
| "bound (Suc u) = 4 * bound u + 24"

lemma bound_mono: "u \<le> v \<Longrightarrow> bound u \<le> bound v"
  by (rule lift_Suc_mono_le) simp_all

definition unseen :: "trace_map \<Rightarrow> nat" where
  "unseen m = card {k. k < length (sm_addresses (tm_map m)) \<and> sm_addresses (tm_map m) ! k \<noteq> tm_mark_state m}"

definition weight :: "trace_map \<Rightarrow> object_reference \<Rightarrow> nat" where
  "weight m v = (if is_untraced_and_valid m (oref_as_usize v) then bound (unseen m) else bound (Suc (unseen m)))"

fun effort :: "trace_map \<Rightarrow> worker_pc \<Rightarrow> nat" where
  "effort m (Visiting v) = weight m v"
| "effort m (Lining r) = 4 * (bound (unseen m) + 5) + 3"
| "effort m (Reading r) = 4 * (bound (unseen m) + 5) + 2"
| "effort m (Scanning r offs) = length offs * (bound (unseen m) + 5) + 1"
| "effort m (Pushing r v offs) = length offs * (bound (unseen m) + 5) + 1 + (weight m v + 3)"
| "effort m _ = 0"

definition share :: "trace_map \<Rightarrow> tstate \<Rightarrow> nat \<Rightarrow> nat" where
  "share m s i = (\<Sum>v\<leftarrow>ts_queue s i. weight m v + 1) + effort m (ts_pc s i)"

definition work :: "nat \<Rightarrow> tstate \<Rightarrow> nat" where
  "work cpus s = (\<Sum>v\<leftarrow>ts_injector s. weight (ts_map s) v + 2) + (\<Sum>i<cpus. share (ts_map s) s i)"

lemma weight_untraced: "is_untraced_and_valid m (oref_as_usize v) \<Longrightarrow> weight m v = bound (unseen m)"
  by (simp add: weight_def)

text \<open>Marking an object: one object less is unseen, or nothing changes.\<close>

definition cell_of :: "trace_map \<Rightarrow> usize \<Rightarrow> nat" where
  "cell_of m a = unat ((a - sm_offset (tm_map m)) div POINTER_SIZE)"

lemma untraced_cell:
  "is_untraced_and_valid m a \<longleftrightarrow> cell_of m a < length (sm_addresses (tm_map m)) \<and>
     sm_addresses (tm_map m) ! cell_of m a \<noteq> tm_mark_state m"
  by (auto simp: is_untraced_and_valid_def sm_get_def cell_of_def Let_def)

lemma mark_cell:
  assumes "mark_as_traced p m a = Inr m'"
  shows "m' = mark_slot_in (cell_of m a) m \<and> cell_of m a < length (sm_addresses (tm_map m))"
  using assms
  by (cases p) (auto simp: mark_as_traced_def sm_index_mut_def cell_of_def mark_slot_in_def usize_sub_def overflowed_def
      Let_def split: if_splits)

lemma unseen_mark:
  assumes k: "k < length (sm_addresses (tm_map m))"
  shows "unseen m = (if sm_addresses (tm_map m) ! k \<noteq> tm_mark_state m then Suc (unseen (mark_slot_in k m))
    else unseen (mark_slot_in k m))"
proof -
  let ?U = "\<lambda>m. {k. k < length (sm_addresses (tm_map m)) \<and> sm_addresses (tm_map m) ! k \<noteq> tm_mark_state m}"
  have U: "?U (mark_slot_in k m) = ?U m - {k}" using k by (auto simp: mark_slot_in_def nth_list_update)
  have fin: "finite (?U m)" by simp
  show ?thesis
  proof (cases "sm_addresses (tm_map m) ! k \<noteq> tm_mark_state m")
    case True
    then have "k \<in> ?U m" using k by simp
    from card_Suc_Diff1 [OF fin this] show ?thesis using True unfolding unseen_def U by simp
  next
    case False
    then have "?U m - {k} = ?U m" by blast
    then show ?thesis using False unfolding unseen_def U by simp
  qed
qed

lemma mark_effect:
  assumes "mark_as_traced p m a = Inr m'"
  shows "unseen m = (if is_untraced_and_valid m a then Suc (unseen m') else unseen m')"
    and "is_untraced_and_valid m' v \<Longrightarrow> is_untraced_and_valid m v"
    and "\<not> is_untraced_and_valid m' v \<Longrightarrow> is_untraced_and_valid m v \<Longrightarrow> is_untraced_and_valid m a"
proof -
  let ?k = "cell_of m a"
  have m': "m' = mark_slot_in ?k m" and k: "?k < length (sm_addresses (tm_map m))" using mark_cell [OF assms] by simp_all
  have c: "cell_of m' v = cell_of m v" for v by (simp add: m' cell_of_def)
  show "unseen m = (if is_untraced_and_valid m a then Suc (unseen m') else unseen m')"
    using unseen_mark [OF k] k by (simp add: m' untraced_cell)
  show "is_untraced_and_valid m' v \<Longrightarrow> is_untraced_and_valid m v"
    unfolding untraced_cell c using k by (auto simp: m' mark_slot_in_def nth_list_update split: if_splits)
  show "\<not> is_untraced_and_valid m' v \<Longrightarrow> is_untraced_and_valid m v \<Longrightarrow> is_untraced_and_valid m a"
    unfolding untraced_cell c using k by (auto simp: m' mark_slot_in_def nth_list_update split: if_splits)
qed

lemma mark_less:
  assumes run: "mark_as_traced p m a = Inr m'"
  shows "weight m' v \<le> weight m v" and "effort m' pc \<le> effort m pc"
proof -
  have u: "unseen m' \<le> unseen m" using mark_effect(1) [OF run] by (simp split: if_splits)
  have w: "weight m' v \<le> weight m v" for v
  proof (cases "is_untraced_and_valid m (oref_as_usize v) \<and> \<not> is_untraced_and_valid m' (oref_as_usize v)")
    case True
    then have "unseen m = Suc (unseen m')" using mark_effect(1) [OF run] mark_effect(3) [OF run, of "oref_as_usize v"] by simp
    then show ?thesis using True by (simp add: weight_def)
  next
    case False
    then show ?thesis
      using mark_effect(2) [OF run, of "oref_as_usize v"] bound_mono [OF u] bound_mono [of "Suc (unseen m')" "Suc (unseen m)"] u by (auto simp: weight_def)
  qed
  then show "weight m' v \<le> weight m v" .
  show "effort m' pc \<le> effort m pc"
    using bound_mono [OF u] w by (cases pc) (auto intro!: add_mono mult_le_mono)
qed

lemma visit_less:
  assumes run: "mark_as_traced p m (oref_as_usize r) = Inr m'"
  shows "effort m' (Lining r) < weight m r"
proof (cases "is_untraced_and_valid m (oref_as_usize r)")
  case True
  then have "unseen m = Suc (unseen m')" using mark_effect(1) [OF run] by simp
  then show ?thesis using True by (simp add: weight_def)
next
  case False
  then have "unseen m = unseen m'" using mark_effect(1) [OF run] by simp
  then show ?thesis using False by (simp add: weight_def)
qed

lemma weight_pos: "0 < weight m v"
proof (cases "is_untraced_and_valid m (oref_as_usize v)")
  case True
  then have "cell_of m (oref_as_usize v) \<in> {k. k < length (sm_addresses (tm_map m)) \<and> sm_addresses (tm_map m) ! k \<noteq> tm_mark_state m}"
    by (simp add: untraced_cell)
  then have "0 < unseen m" unfolding unseen_def by (subst card_gt_0_iff) auto
  then show ?thesis using True by (cases "unseen m") (simp_all add: weight_def)
qed (simp add: weight_def)

section \<open>Steps\<close>

definition stock :: "trace_map \<Rightarrow> tstate \<Rightarrow> nat" where
  "stock m s = (\<Sum>v\<leftarrow>ts_injector s. weight m v + 2)"

text \<open>The share of the other workers does not grow.\<close>

lemma work_local:
  assumes i: "i < cpus" and others: "\<And>j. j \<noteq> i \<Longrightarrow> share (ts_map s') s' j \<le> share (ts_map s) s j"
    and own: "stock (ts_map s') s' + share (ts_map s') s' i + d \<le> stock (ts_map s) s + share (ts_map s) s i"
  shows "work cpus s' + d \<le> work cpus s"
proof -
  have split: "work cpus t = stock (ts_map t) t + (share (ts_map t) t i + (\<Sum>j\<in>{..<cpus} - {i}. share (ts_map t) t j))" for t
    using i by (simp add: work_def stock_def sum.remove [of "{..<cpus}" i])
  have "(\<Sum>j\<in>{..<cpus} - {i}. share (ts_map s') s' j) \<le> (\<Sum>j\<in>{..<cpus} - {i}. share (ts_map s) s j)"
    by (rule sum_mono) (use others in auto)
  then show ?thesis using own unfolding split by simp
qed

lemma share_other:
  assumes "ts_pc s' j = ts_pc s j" and "ts_queue s' j = ts_queue s j" and "ts_map s' = ts_map s"
  shows "share (ts_map s') s' j \<le> share (ts_map s) s j"
  using assms by (simp add: share_def)

lemma offsets_four: "ref_offsets b = Inr offs \<Longrightarrow> length offs \<le> 4"
  by (auto simp: ref_offsets_def split: if_splits)

lemma scan_cost: "n \<le> 4 \<Longrightarrow> n * (b + 5) \<le> 20 + 4 * (b :: nat)"
  using mult_le_mono1 [of n 4 "b + 5"] by simp

lemma object_work:
  assumes i: "i < cpus" and st: "object_step p sp mem i (ts_pc s i) s = Some s'"
  shows "work cpus s' + 1 \<le> work cpus s"
proof -
  note rules = work_local [OF i, where s = s and s' = s' and d = 1] share_other
  show ?thesis
  proof (cases "ts_pc s i")
    case (Visiting r)
    show ?thesis
    proof (cases "bind_res (guard_res (AssertFailed ''addr >= space_start && addr < space_end'')
        (sp_start sp \<le> to_address r \<and> to_address r < sp_end sp))
        (\<lambda>_. mark_as_traced p (ts_map s) (to_ptr (to_address r)))")
      case (Inl e)
      then have "s' = goto i (Panicked e) s" using st Visiting by simp
      then show ?thesis
        using weight_pos [of "ts_map s" r] Visiting by (intro rules(1)) (auto intro!: share_other simp: share_def stock_def)
    next
      case (Inr m')
      then have s': "s' = goto i (Lining r) (s\<lparr>ts_map := m'\<rparr>)" using st Visiting by simp
      have run: "mark_as_traced p (ts_map s) (oref_as_usize r) = Inr m'"
        using Inr by (cases r) (auto simp: guard_res_def to_ptr_def split: if_splits)
      have "stock m' s' \<le> stock (ts_map s) s" "(\<Sum>v\<leftarrow>ts_queue s i. weight m' v + 1) \<le> (\<Sum>v\<leftarrow>ts_queue s i. weight (ts_map s) v + 1)"
        using mark_less(1) [OF run] by (auto simp: s' stock_def intro!: sum_list_mono)
      moreover have "share m' s' i = (\<Sum>v\<leftarrow>ts_queue s i. weight m' v + 1) + effort m' (Lining r)"
        "share (ts_map s) s i = (\<Sum>v\<leftarrow>ts_queue s i. weight (ts_map s) v + 1) + weight (ts_map s) r"
        by (simp_all add: s' share_def Visiting)
      ultimately have own: "stock m' s' + share m' s' i + 1 \<le> stock (ts_map s) s + share (ts_map s) s i"
        using visit_less [OF run] by linarith
      have "share m' s' j \<le> share (ts_map s) s j" if "j \<noteq> i" for j
        using that mark_less [OF run] by (auto simp: s' share_def intro!: sum_list_mono add_mono)
      with own show ?thesis by (intro rules(1)) (simp_all add: s')
    qed
  next
    case (Lining r)
    then show ?thesis using st
      by (intro rules(1)) (auto intro!: share_other simp: share_def stock_def split: sum.splits)
  next
    case (Reading r)
    then show ?thesis using st
      by (intro rules(1)) (auto intro!: share_other simp: share_def stock_def bind_res_def dest!: offsets_four scan_cost split: sum.splits)
  next
    case (Pushing r v offs)
    then show ?thesis using st
      by (intro rules(1)) (auto intro!: share_other simp: share_def stock_def)
  next
    case (Scanning r l)
    then show ?thesis using st
      by (cases l; intro rules(1)) (auto intro!: share_other simp: share_def stock_def weight_untraced split: sum.splits if_splits)
  qed (use st in simp_all)
qed

text \<open>A step takes a task, works on an object, or only looks for work.\<close>

inductive looks :: "nat \<Rightarrow> tstate \<Rightarrow> tstate \<Rightarrow> bool" for i where
  pop_none: "ts_pc s i = Popping \<Longrightarrow> ts_queue s i = [] \<Longrightarrow> looks i s (goto i Stealing s)"
| steal_empty: "ts_pc s i = Stealing \<Longrightarrow> ts_injector s = [] \<Longrightarrow> looks i s (goto i Leaving s)"
| retry: "ts_pc s i = Stealing \<Longrightarrow> looks i s s"
| leave: "ts_pc s i = Leaving \<Longrightarrow> looks i s (goto i Spinning (s\<lparr>ts_active := ts_active s - 1\<rparr>))"
| spin_work: "ts_pc s i = Spinning \<Longrightarrow> ts_injector s \<noteq> [] \<Longrightarrow> looks i s (goto i Rejoining s)"
| spin_empty: "ts_pc s i = Spinning \<Longrightarrow> ts_injector s = [] \<Longrightarrow> looks i s (goto i Counting s)"
| count_zero: "ts_pc s i = Counting \<Longrightarrow> ts_active s = 0 \<Longrightarrow> looks i s (goto i Returned s)"
| count_more: "ts_pc s i = Counting \<Longrightarrow> ts_active s \<noteq> 0 \<Longrightarrow> looks i s (goto i Spinning s)"
| rejoin: "ts_pc s i = Rejoining \<Longrightarrow> looks i s (goto i Stealing (s\<lparr>ts_active := ts_active s + 1\<rparr>))"

lemma looks_frame:
  assumes "looks i s s'"
  shows "ts_injector s' = ts_injector s" and "ts_queue s' = ts_queue s" and "ts_map s' = ts_map s"
    and "j \<noteq> i \<Longrightarrow> ts_pc s' j = ts_pc s j"
    and "effort m (ts_pc s i) = 0" and "effort m (ts_pc s' i) = 0"
  using assms by (cases; simp)+

lemma looks_work:
  assumes "i < cpus" and "looks i s s'"
  shows "work cpus s' \<le> work cpus s"
  using work_local [OF assms(1), of s' s 0] share_other looks_frame [OF assms(2)]
  by (simp add: share_def stock_def)

lemma step_work:
  assumes i: "i < cpus" and st: "tstep p sp mem i s s'"
  shows "looks i s s' \<or> work cpus s' + 1 \<le> work cpus s"
  using st
proof cases
  case (pop v vs)
  have "work cpus s' + 1 \<le> work cpus s"
    by (rule work_local [OF i]) (use pop in \<open>auto intro!: share_other simp: share_def stock_def\<close>)
  then show ?thesis ..
next
  case (steal v batch rest)
  have "(\<Sum>x\<leftarrow>batch. Suc (weight (ts_map s) x)) \<le> (\<Sum>x\<leftarrow>batch. Suc (Suc (weight (ts_map s) x)))"
    by (rule sum_list_mono) simp
  then have "work cpus s' + 1 \<le> work cpus s"
    by (intro work_local [OF i]) (use steal in \<open>auto intro!: share_other le_SucI simp: share_def stock_def\<close>)
  then show ?thesis ..
next
  case object
  then show ?thesis using object_work [OF i] by blast
qed (blast intro: looks.intros)+

section \<open>Fair runs\<close>

fun ended :: "worker_pc \<Rightarrow> bool" where
  "ended Returned = True" | "ended (Panicked e) = True" | "ended _ = False"

text \<open>
  A run of the workers: at every moment the worker that is scheduled makes a step, unless it has
  ended. Every worker is scheduled again and again, and no steal is answered with \<open>Retry\<close>
  forever.
\<close>

definition fair_run :: "profile \<Rightarrow> 'q immix_space \<Rightarrow> (usize \<Rightarrow> usize) \<Rightarrow> nat \<Rightarrow> (nat \<Rightarrow> nat) \<Rightarrow> (nat \<Rightarrow> tstate) \<Rightarrow> bool" where
  "fair_run p sp mem cpus who s \<longleftrightarrow>
     (\<forall>n. who n < cpus \<and> (tstep p sp mem (who n) (s n) (s (Suc n)) \<or> s (Suc n) = s n \<and> ended (ts_pc (s n) (who n)))) \<and>
     (\<forall>i<cpus. \<forall>n. \<exists>m\<ge>n. who m = i) \<and>
     (\<forall>i<cpus. \<forall>n. ts_pc (s n) i = Stealing \<longrightarrow> (\<exists>m\<ge>n. ts_pc (s m) i \<noteq> Stealing))"

text \<open>From \<open>N\<close> on nothing but the search for work goes on.\<close>

definition steady :: "nat \<Rightarrow> (nat \<Rightarrow> nat) \<Rightarrow> (nat \<Rightarrow> tstate) \<Rightarrow> nat \<Rightarrow> bool" where
  "steady cpus who s N \<longleftrightarrow>
     (\<forall>n\<ge>N. detect_inv cpus (s n) \<and> who n < cpus \<and> \<not> panicked cpus (s n) \<and>
        (looks (who n) (s n) (s (Suc n)) \<or> s (Suc n) = s n \<and> ended (ts_pc (s n) (who n)))) \<and>
     (\<forall>i<cpus. \<forall>n. \<exists>m\<ge>n. who m = i) \<and>
     (\<forall>i<cpus. \<forall>n. ts_pc (s n) i = Stealing \<longrightarrow> (\<exists>m\<ge>n. ts_pc (s m) i \<noteq> Stealing))"

lemma nonincreasing_settles:
  fixes f :: "nat \<Rightarrow> nat"
  assumes "\<And>n. f (Suc n) \<le> f n"
  shows "\<exists>N. \<forall>n\<ge>N. f n = f N"
proof -
  obtain N where N: "\<And>n. f N \<le> f n" using ex_has_least_nat [of "\<lambda>_. True" 0 f] by blast
  have "f n \<le> f N" if "N \<le> n" for n using that assms by (rule lift_Suc_antimono_le [rotated])
  then show ?thesis using N by (meson le_antisym)
qed

lemma fair_run_detect:
  assumes run: "fair_run p sp mem cpus who s" and cpus: "0 < cpus" "cpus < 2 ^ 64" and start: "s 0 = workers_start cpus roots sp"
  shows "detect_inv cpus (s n)"
proof (induction n)
  case 0
  then show ?case using detect_inv_init [OF cpus(2,1)] start by simp
next
  case (Suc n)
  then show ?case using run detect_inv_step [OF _ _ cpus(2)] unfolding fair_run_def by metis
qed

lemma fair_run_steady:
  assumes run: "fair_run p sp mem cpus who s" and cpus: "0 < cpus" "cpus < 2 ^ 64" and start: "s 0 = workers_start cpus roots sp"
    and calm: "\<And>n. \<not> panicked cpus (s n)"
  shows "\<exists>N. steady cpus who s N"
proof -
  have st: "who n < cpus" "tstep p sp mem (who n) (s n) (s (Suc n)) \<or> s (Suc n) = s n \<and> ended (ts_pc (s n) (who n))" for n
    using run by (simp_all add: fair_run_def)
  have less: "work cpus (s (Suc n)) \<le> work cpus (s n)" for n
    using st(2) [of n] step_work [OF st(1)] looks_work [OF st(1)] by (metis Suc_eq_plus1 Suc_leD order_refl)
  from nonincreasing_settles [of "\<lambda>n. work cpus (s n)", OF less] obtain N where
    N: "\<And>n. N \<le> n \<Longrightarrow> work cpus (s n) = work cpus (s N)" by blast
  have "looks (who n) (s n) (s (Suc n)) \<or> s (Suc n) = s n \<and> ended (ts_pc (s n) (who n))" if "N \<le> n" for n
    using st(2) [of n] step_work [OF st(1) [of n]] N [OF that] N [of "Suc n"] that by fastforce
  then show ?thesis
    using run st(1) calm fair_run_detect [OF run cpus start] unfolding fair_run_def steady_def by blast
qed

text \<open>A worker keeps its place until it is scheduled.\<close>

lemma steady_step:
  assumes "steady cpus who s N" and "N \<le> n"
  shows "looks (who n) (s n) (s (Suc n)) \<or> s (Suc n) = s n \<and> ended (ts_pc (s n) (who n))"
  using assms by (simp add: steady_def)

lemma steady_other:
  assumes "steady cpus who s N" and "N \<le> n" and "who n \<noteq> i"
  shows "ts_pc (s (Suc n)) i = ts_pc (s n) i"
  using steady_step [OF assms(1,2)] looks_frame(4) assms(3) by metis

lemma steady_scheduled:
  assumes st: "steady cpus who s N" and n: "N \<le> n" and i: "i < cpus"
  shows "\<exists>m\<ge>n. who m = i \<and> ts_pc (s m) i = ts_pc (s n) i"
proof -
  define m where "m = (LEAST m. n \<le> m \<and> who m = i)"
  have "\<exists>m. n \<le> m \<and> who m = i" using st i by (auto simp: steady_def)
  then have m: "n \<le> m" "who m = i" and before: "\<And>k. n \<le> k \<Longrightarrow> k < m \<Longrightarrow> who k \<noteq> i"
    unfolding m_def by (metis (mono_tags, lifting) LeastI not_less_Least)+
  have "ts_pc (s k) i = ts_pc (s n) i" if "n \<le> k" "k \<le> m" for k
    using that
  proof (induction k rule: dec_induct)
    case (step k)
    then show ?case using steady_other [OF st, of k i] before [of k] n by simp
  qed simp
  then show ?thesis using m by blast
qed

lemma steady_place:
  assumes st: "steady cpus who s N" and n: "N \<le> n" and i: "i < cpus"
  shows "ts_pc (s n) i \<in> {Popping, Stealing, Leaving, Spinning, Counting, Rejoining, Returned}"
proof -
  obtain m where m: "n \<le> m" "who m = i" "ts_pc (s m) i = ts_pc (s n) i" using steady_scheduled [OF assms] by blast
  then have "N \<le> m" using n by simp
  then have "\<not> panicked cpus (s m)" using st by (simp add: steady_def)
  then have calm: "ts_pc (s m) i \<noteq> Panicked e" for e using i by (auto simp: panicked_def)
  from steady_step [OF st \<open>N \<le> m\<close>] have "ts_pc (s m) i \<in> {Popping, Stealing, Leaving, Spinning, Counting, Rejoining, Returned}"
  proof
    assume "looks (who m) (s m) (s (Suc m))"
    then show ?thesis unfolding m(2) by cases auto
  next
    assume "s (Suc m) = s m \<and> ended (ts_pc (s m) (who m))"
    then show ?thesis using calm m(2) by (cases "ts_pc (s m) i") auto
  qed
  then show ?thesis using m(3) by simp
qed

text \<open>A number that goes down whenever the worker moves, and a worker that moves while it is not 0.\<close>

lemma worker_settles:
  fixes f :: "worker_pc \<Rightarrow> nat"
  assumes down: "\<And>n. N \<le> n \<Longrightarrow> pc (Suc n) = pc n \<or> f (pc (Suc n)) < f (pc n) \<or> f (pc n) = 0 \<and> f (pc (Suc n)) = 0"
    and moves: "\<And>n. N \<le> n \<Longrightarrow> 0 < f (pc n) \<Longrightarrow> \<exists>m\<ge>n. pc m \<noteq> pc n"
  shows "\<exists>M\<ge>N. \<forall>n\<ge>M. f (pc n) = 0"
proof -
  have later: "pc m = pc n \<or> f (pc m) < f (pc n) \<or> f (pc n) = 0 \<and> f (pc m) = 0" if "N \<le> n" "n \<le> m" for n m
    using that(2)
  proof (induction m rule: dec_induct)
    case (step m)
    then show ?case using down [of m] that(1) by force
  qed simp
  have "\<exists>M\<ge>n. \<forall>k\<ge>M. f (pc k) = 0" if "N \<le> n" for n
    using that
  proof (induction "f (pc n)" arbitrary: n rule: less_induct)
    case less
    show ?case
    proof (cases "f (pc n) = 0")
      case True
      then have "f (pc k) = 0" if "n \<le> k" for k using later [OF less.prems that] by auto
      then show ?thesis by blast
    next
      case False
      then obtain m where m: "n \<le> m" "pc m \<noteq> pc n" using moves [OF less.prems] by blast
      then have "f (pc m) < f (pc n)" using later [OF less.prems m(1)] False by blast
      moreover have "N \<le> m" using m(1) less.prems by simp
      ultimately show ?thesis using less.hyps m(1) by (meson le_trans)
    qed
  qed
  from this [OF order_refl] show ?thesis .
qed

section \<open>The end of a fair run\<close>

lemma steady_stealing:
  assumes st: "steady cpus who s N" and n: "N \<le> n" and work: "ts_injector (s n) \<noteq> []" and pc: "ts_pc (s n) i = Stealing"
    and m: "n \<le> m"
  shows "ts_pc (s m) i = Stealing \<and> ts_injector (s m) \<noteq> []"
  using m
proof (induction m rule: dec_induct)
  case (step m)
  have "N \<le> m" using step.hyps(1) n by simp
  from steady_step [OF st this] show ?case
  proof
    assume l: "looks (who m) (s m) (s (Suc m))"
    show ?thesis
    proof (cases "who m = i")
      case True
      with l step.IH show ?thesis by cases auto
    next
      case False
      then show ?thesis using step.IH looks_frame(1,4) [OF l] by simp
    qed
  qed (use step.IH in simp)
qed (use work pc in simp)

lemma steady_idle:
  assumes st: "steady cpus who s N" and n: "N \<le> n"
  shows "ts_injector (s n) = []"
proof (rule ccontr)
  assume work: "ts_injector (s n) \<noteq> []"
  have never: False if k: "N \<le> k" "i < cpus" "ts_injector (s k) \<noteq> []" "ts_pc (s k) i = Stealing" for k i
  proof -
    obtain m where "k \<le> m" "ts_pc (s m) i \<noteq> Stealing" using st k(2,4) unfolding steady_def by blast
    then show False using steady_stealing [OF st k(1,3,4)] by blast
  qed
  have same: "ts_injector (s m) = ts_injector (s n)" if "n \<le> m" for m
    using that
  proof (induction m rule: dec_induct)
    case (step m)
    then show ?case using steady_step [OF st, of m] looks_frame(1) n by (metis le_trans)
  qed simp
  have "detect_inv cpus (s n)" using st n by (simp add: steady_def)
  then obtain i where i: "i < cpus" "busy (ts_pc (s n) i)" using work by (auto simp: detect_inv_def)
  then have "ts_pc (s n) i = Popping \<or> ts_pc (s n) i = Stealing"
    using steady_place [OF st n i(1)] by (auto simp: busy_def)
  then show False
  proof
    assume pop: "ts_pc (s n) i = Popping"
    obtain m where m: "n \<le> m" "who m = i" "ts_pc (s m) i = Popping" using steady_scheduled [OF st n i(1)] pop by auto
    then have "looks i (s m) (s (Suc m))" using steady_step [OF st, of m] n by auto
    then have "ts_pc (s (Suc m)) i = Stealing" using m(3) by cases auto
    then show False using never [of "Suc m" i] same [of "Suc m"] m(1) n i(1) work by simp
  qed (use never n i(1) work in blast)
qed

text \<open>On its way out a worker first stops being counted, then sees that none is.\<close>

fun to_leave :: "worker_pc \<Rightarrow> nat" where
  "to_leave Popping = 3" | "to_leave Rejoining = 3" | "to_leave Stealing = 2" | "to_leave Leaving = 1" | "to_leave _ = 0"

fun to_return :: "worker_pc \<Rightarrow> nat" where
  "to_return Spinning = 2" | "to_return Counting = 1" | "to_return _ = 0"

lemma looks_to_leave:
  assumes "looks i s s'" and "ts_injector s = []"
  shows "ts_pc s' i = ts_pc s i \<or> to_leave (ts_pc s' i) < to_leave (ts_pc s i) \<or>
    to_leave (ts_pc s i) = 0 \<and> to_leave (ts_pc s' i) = 0"
  using assms by cases auto

lemma looks_to_return:
  assumes "looks i s s'" and "to_leave (ts_pc s i) = 0" and "ts_injector s = []" and "ts_active s = 0"
  shows "to_return (ts_pc s' i) < to_return (ts_pc s i)"
  using assms by cases auto

lemma steady_leaves:
  assumes st: "steady cpus who s N" and i: "i < cpus"
  shows "\<exists>M\<ge>N. \<forall>n\<ge>M. to_leave (ts_pc (s n) i) = 0"
proof (rule worker_settles)
  fix n assume n: "N \<le> n"
  show "ts_pc (s (Suc n)) i = ts_pc (s n) i \<or> to_leave (ts_pc (s (Suc n)) i) < to_leave (ts_pc (s n) i) \<or>
      to_leave (ts_pc (s n) i) = 0 \<and> to_leave (ts_pc (s (Suc n)) i) = 0"
    using steady_step [OF st n] steady_other [OF st n, of i] looks_to_leave [OF _ steady_idle [OF st n]] by metis
  show "\<exists>m\<ge>n. ts_pc (s m) i \<noteq> ts_pc (s n) i" if pos: "0 < to_leave (ts_pc (s n) i)"
  proof (cases "ts_pc (s n) i = Stealing")
    case True
    then show ?thesis using st i unfolding steady_def by metis
  next
    case False
    obtain m where m: "n \<le> m" "who m = i" "ts_pc (s m) i = ts_pc (s n) i" using steady_scheduled [OF st n i] by blast
    then have "looks i (s m) (s (Suc m))"
      using steady_step [OF st, of m] n pos by (cases "ts_pc (s n) i") auto
    then have "ts_pc (s (Suc m)) i \<noteq> ts_pc (s m) i" using False m(3) by cases auto
    then show ?thesis using m by (metis le_SucI)
  qed
qed

lemma steady_returns:
  assumes st: "steady cpus who s N" and quiet: "\<And>n i. N \<le> n \<Longrightarrow> i < cpus \<Longrightarrow> to_leave (ts_pc (s n) i) = 0" and i: "i < cpus"
  shows "\<exists>M\<ge>N. \<forall>n\<ge>M. to_return (ts_pc (s n) i) = 0"
proof (rule worker_settles)
  fix n assume n: "N \<le> n"
  have none: "ts_active (s m) = 0" if m: "N \<le> m" for m
  proof -
    have "\<not> counted (ts_pc (s m) j)" if "j < cpus" for j
      using quiet [OF m that] steady_place [OF st m that] by auto
    then have "active_set cpus (s m) = {}" by (auto simp: active_set_def)
    moreover have "detect_inv cpus (s m)" using st m by (simp add: steady_def)
    ultimately show ?thesis by (simp add: detect_inv_def unat_eq_0)
  qed
  note moved = looks_to_return [OF _ quiet [OF _ i] steady_idle [OF st] none]
  show "ts_pc (s (Suc n)) i = ts_pc (s n) i \<or> to_return (ts_pc (s (Suc n)) i) < to_return (ts_pc (s n) i) \<or>
      to_return (ts_pc (s n) i) = 0 \<and> to_return (ts_pc (s (Suc n)) i) = 0"
    using steady_step [OF st n] steady_other [OF st n, of i] moved [OF _ n n n] by metis
  show "\<exists>m\<ge>n. ts_pc (s m) i \<noteq> ts_pc (s n) i" if pos: "0 < to_return (ts_pc (s n) i)"
  proof -
    obtain m where m: "n \<le> m" "who m = i" "ts_pc (s m) i = ts_pc (s n) i" using steady_scheduled [OF st n i] by blast
    then have "looks i (s m) (s (Suc m))"
      using steady_step [OF st, of m] n pos by (cases "ts_pc (s n) i") auto
    moreover have "N \<le> m" using m(1) n by simp
    ultimately have "to_return (ts_pc (s (Suc m)) i) < to_return (ts_pc (s m) i)" using moved [of m "s (Suc m)"] by blast
    then show ?thesis using m by (metis le_SucI less_irrefl)
  qed
qed

text \<open>The moments of finitely many workers have a common one.\<close>

lemma all_workers:
  fixes cpus N :: nat
  assumes "\<And>i. i < cpus \<Longrightarrow> \<exists>M\<ge>N. \<forall>n\<ge>M. P i n"
  shows "\<exists>M\<ge>N. \<forall>n\<ge>M. \<forall>i<cpus. P i n"
  using assms
proof (induction cpus)
  case (Suc cpus)
  have "\<exists>M\<ge>N. \<forall>n\<ge>M. \<forall>i<cpus. P i n" by (rule Suc.IH) (rule Suc.prems, simp)
  then obtain M where M: "N \<le> M" "\<forall>n\<ge>M. \<forall>i<cpus. P i n" by blast
  obtain L where "N \<le> L" "\<forall>n\<ge>L. P cpus n" using Suc.prems [OF lessI] by blast
  with M have "\<forall>n\<ge>max M L. \<forall>i<Suc cpus. P i n" by (auto simp: less_Suc_eq)
  then show ?case using M(1) by (meson max.coboundedI1)
qed auto

lemma workers_end:
  assumes run: "fair_run p sp mem cpus who s" and cpus: "0 < cpus" "cpus < 2 ^ 64" and start: "s 0 = workers_start cpus roots sp"
  shows "\<exists>n. panicked cpus (s n) \<or> (\<forall>i<cpus. ts_pc (s n) i = Returned)"
proof (rule ccontr)
  assume no: "\<nexists>n. panicked cpus (s n) \<or> (\<forall>i<cpus. ts_pc (s n) i = Returned)"
  then obtain N where st: "steady cpus who s N" using fair_run_steady [OF run cpus start] by blast
  obtain M where M: "N \<le> M" "\<forall>n\<ge>M. \<forall>i<cpus. to_leave (ts_pc (s n) i) = 0"
    using all_workers [of cpus N "\<lambda>i n. to_leave (ts_pc (s n) i) = 0", OF steady_leaves [OF st]] by blast
  have st': "steady cpus who s M" using st M(1) by (auto simp: steady_def)
  obtain L where L: "M \<le> L" "\<forall>n\<ge>L. \<forall>i<cpus. to_return (ts_pc (s n) i) = 0"
    using all_workers [of cpus M "\<lambda>i n. to_return (ts_pc (s n) i) = 0", OF steady_returns [OF st']] M(2) by blast
  have "ts_pc (s L) i = Returned" if "i < cpus" for i
  proof -
    have "to_leave (ts_pc (s L) i) = 0" "to_return (ts_pc (s L) i) = 0" using M(2) L that by simp_all
    then show ?thesis using steady_place [OF st' L(1) that] by auto
  qed
  then show False using no by blast
qed

section \<open>Workers on a well-formed heap\<close>

lemma fair_run_reach:
  assumes "fair_run p sp mem cpus who s" and "s 0 = workers_start cpus roots sp"
  shows "treach p sp mem cpus roots (s n)"
proof (induction n)
  case 0
  then show ?case using assms(2) treach.init by simp
next
  case (Suc n)
  then show ?case using assms(1) treach.step unfolding fair_run_def by metis
qed

lemma object_calm:
  assumes inv: "mark_inv cpus sp mem roots s" and i: "i < cpus"
    and wf: "\<forall>r\<in>reach (set roots) (followed sp mem). wf_object sp r"
    and st: "object_step p sp mem i (ts_pc s i) s = Some s'"
  shows "ts_pc s' i \<noteq> Panicked e"
proof -
  define R where "R = reach (set roots) (followed sp mem)"
  have tb: "tables_ok (with_marks sp (ts_map s) (ts_lines s))" and ok: "pc_ok sp R (ts_pc s i)"
    using inv i tracing_tables(1) by (auto simp: mark_inv_def Let_def R_def)
  have ops: "wf_object sp r" if "r \<in> R" for r using wf that by (simp add: R_def)
  show ?thesis
  proof (cases "ts_pc s i")
    case (Visiting r)
    then show ?thesis using st ok ops wf_object_ops(1) [OF tb, of r p] by (auto simp: wf_object_def)
  next
    case (Lining r)
    then show ?thesis using st ok ops wf_object_ops(2) [OF tb, of r p] by auto
  next
    case (Reading r)
    then show ?thesis using st ok ops wf_object_ops(3,4) [OF tb, of r] by (auto simp: ref_masks)
  next
    case (Pushing r v offs)
    then show ?thesis using st by auto
  next
    case (Scanning r l)
    then have r: "wf_object sp r" using ok ops by simp
    show ?thesis
    proof (cases l)
      case Nil
      then show ?thesis using st Scanning r wf_object_ops(3) [OF tb r] by (auto simp: ref_masks wf_object_def)
    next
      case (Cons off offs)
      then have "off \<in> set (obj_offsets sp r)" using ok Scanning by simp
      then have "load_ref p mem (to_address r) off = Inr (ObjectReference (mem (as_usize (to_address r) + off)))"
        using wf_object_ops(5) [OF tb r] r by (intro load_ref_ok) (auto simp: wf_object_def)
      then show ?thesis using st Scanning Cons by (auto split: if_splits)
    qed
  qed (use st in simp_all)
qed

lemma workers_calm:
  assumes "treach p sp mem cpus roots s" and tb: "tables_ok sp"
    and wf: "\<forall>r\<in>reach (set roots) (followed sp mem). wf_object sp r"
  shows "\<not> panicked cpus s"
  using assms(1)
proof induction
  case init
  show ?case by (simp add: panicked_def workers_start_def)
next
  case (step s i s')
  have aligned: "\<forall>r\<in>reach (set roots) (followed sp mem). 8 dvd addr_nat (to_address r)"
    using wf by (auto simp: wf_object_def)
  have inv: "mark_inv cpus sp mem roots s" using mark_inv_reach [OF step.hyps(1) tb aligned] step.IH by blast
  have calm: "ts_pc s j \<noteq> Panicked e" if "j < cpus" for j e using step.IH that by (auto simp: panicked_def)
  have "ts_pc s' j \<noteq> Panicked e" if j: "j < cpus" for j e
    using step.hyps(3)
  proof cases
    case object
    obtain pc' where "ts_pc s' = (ts_pc s)(i := pc')" using object_step_frame [OF object] by metis
    then show ?thesis
      using object_calm [OF inv step.hyps(2) wf object] calm [OF j] by (cases "j = i") auto
  qed (use calm [OF j] in auto)
  then show ?case by (auto simp: panicked_def)
qed

lemma workers_finish_marked:
  assumes run: "fair_run p sp mem cpus who s" and cpus: "0 < cpus" "cpus < 2 ^ 64" and start: "s 0 = workers_start cpus roots sp"
    and tb: "tables_ok sp"
    and wf: "\<forall>r\<in>reach (set roots) (followed sp mem). wf_object sp r"
  shows "\<exists>n. (\<forall>i<cpus. ts_pc (s n) i = Returned) \<and> trace_spec (reach (set roots) (followed sp mem)) sp (ts_map (s n)) (ts_lines (s n))"
proof -
  note reached = fair_run_reach [OF run start]
  obtain n where n: "\<forall>i<cpus. ts_pc (s n) i = Returned"
    using workers_end [OF run cpus start] workers_calm [OF reached tb wf] by blast
  have aligned: "\<forall>r\<in>reach (set roots) (followed sp mem). 8 dvd addr_nat (to_address r)"
    using wf by (auto simp: wf_object_def)
  have "ts_pc (s n) 0 = Returned" using n cpus(1) by blast
  from workers_spec [OF reached cpus tb aligned cpus(1) this] n show ?thesis by blast
qed

text \<open>When an object has an unknown pattern of reference bits, no worker returns: some worker panics.\<close>

lemma workers_unknown:
  assumes run: "treach p sp mem cpus roots s" and cpus: "0 < cpus" "cpus < 2 ^ 64" and tb: "tables_ok sp"
    and aligned: "\<forall>r\<in>reach (set roots) (followed sp mem). 8 dvd addr_nat (to_address r)"
    and r: "r \<in> reach (set roots) (followed sp mem)" "\<not> known_bits sp r" and i: "i < cpus"
  shows "ts_pc s i \<noteq> Returned"
  using returned_marks [OF run cpus tb aligned i _ r(1)] r(2) by blast

lemma workers_unknown_end:
  assumes run: "fair_run p sp mem cpus who s" and cpus: "0 < cpus" "cpus < 2 ^ 64" and start: "s 0 = workers_start cpus roots sp"
    and tb: "tables_ok sp"
    and aligned: "\<forall>r\<in>reach (set roots) (followed sp mem). 8 dvd addr_nat (to_address r)"
    and r: "r \<in> reach (set roots) (followed sp mem)" "\<not> known_bits sp r"
  shows "\<exists>n. panicked cpus (s n)"
  using workers_end [OF run cpus start] workers_unknown [OF fair_run_reach [OF run start] cpus tb aligned r cpus(1)] cpus(1)
  by blast

section \<open>Fair runs exist\<close>

text \<open>The workers in turn: each makes a step, and leaves the place where it steals when it is at
  it.\<close>

lemma worker_moves:
  assumes "\<not> ended (ts_pc s i)"
  shows "\<exists>s'. tstep p sp mem i s s' \<and> (ts_pc s i = Stealing \<longrightarrow> ts_pc s' i \<noteq> Stealing)"
proof -
  have object: ?thesis if "object_step p sp mem i (ts_pc s i) s = Some s'" and "ts_pc s i \<noteq> Stealing" for s'
    using that by (blast intro: tstep.object)
  show ?thesis
  proof (cases "ts_pc s i")
    case Popping
    then show ?thesis using tstep.pop [of s i] tstep.pop_none [of s i] by (cases "ts_queue s i") fastforce+
  next
    case Stealing
    then show ?thesis
      using tstep.steal [of s i _ "[]"] tstep.steal_empty [of s i] by (cases "ts_injector s") fastforce+
  next
    case Leaving
    then show ?thesis using tstep.leave by fastforce
  next
    case Spinning
    then show ?thesis using tstep.spin_work tstep.spin_empty by (cases "ts_injector s = []") fastforce+
  next
    case Counting
    then show ?thesis using tstep.count_zero tstep.count_more by (cases "ts_active s = 0") fastforce+
  next
    case Rejoining
    then show ?thesis using tstep.rejoin by fastforce
  next
    case (Scanning x l)
    then show ?thesis using object by (cases l) simp_all
  qed (use assms object in simp_all)
qed

definition turn :: "profile \<Rightarrow> 'q immix_space \<Rightarrow> (usize \<Rightarrow> usize) \<Rightarrow> nat \<Rightarrow> tstate \<Rightarrow> tstate" where
  "turn p sp mem i s = (if ended (ts_pc s i) then s
     else SOME s'. tstep p sp mem i s s' \<and> (ts_pc s i = Stealing \<longrightarrow> ts_pc s' i \<noteq> Stealing))"

primrec rounds :: "profile \<Rightarrow> 'q immix_space \<Rightarrow> (usize \<Rightarrow> usize) \<Rightarrow> nat \<Rightarrow> object_reference list \<Rightarrow> nat \<Rightarrow> tstate" where
  "rounds p sp mem cpus roots 0 = workers_start cpus roots sp"
| "rounds p sp mem cpus roots (Suc n) = turn p sp mem (n mod cpus) (rounds p sp mem cpus roots n)"

lemma turn_step:
  "ended (ts_pc s i) \<and> turn p sp mem i s = s \<or>
   tstep p sp mem i s (turn p sp mem i s) \<and> (ts_pc s i = Stealing \<longrightarrow> ts_pc (turn p sp mem i s) i \<noteq> Stealing)"
  using someI_ex [OF worker_moves [of s i p sp mem]] by (cases "ended (ts_pc s i)") (simp_all add: turn_def)

lemma fair_run_exists:
  assumes cpus: "0 < cpus"
  shows "fair_run p sp mem cpus (\<lambda>n. n mod cpus) (rounds p sp mem cpus roots)"
proof -
  let ?s = "rounds p sp mem cpus roots"
  have again: "\<exists>m\<ge>n. m mod cpus = i" if "i < cpus" for i n
    using that cpus by (intro exI [of _ "n * cpus + i"]) (simp add: trans_le_add1)
  have moved: "\<exists>m\<ge>n. ts_pc (?s m) i \<noteq> Stealing" if i: "i < cpus" for i n
  proof (rule ccontr)
    assume stays: "\<not> (\<exists>m\<ge>n. ts_pc (?s m) i \<noteq> Stealing)"
    obtain m where "n \<le> m" "m mod cpus = i" using again [OF i] by blast
    then show False using turn_step [of "?s m" i p sp mem] stays by (metis ended.simps(4) le_SucI rounds.simps(2))
  qed
  have "tstep p sp mem (n mod cpus) (?s n) (?s (Suc n)) \<or> ?s (Suc n) = ?s n \<and> ended (ts_pc (?s n) (n mod cpus))" for n
    using turn_step [of "?s n" "n mod cpus" p sp mem] by auto
  then show ?thesis using cpus again moved unfolding fair_run_def by simp
qed

end
