(* ===== verification/Spec2Isabelle.thy ===== *)
theory Spec2Isabelle
  imports Example_Run Example_Shared Example_Tree Example_Program Trace_Fair
begin

text \<open>
  A verification of the immix garbage collector of this repository (\<open>src/src\<close>): a mark-region
  allocator and collector in Rust, with thread-local bump allocation, a parallel trace and a
  stop-the-world barrier.

  \<^bold>\<open>The program and its model.\<close> The heap is one memory-mapped space, cut into 64 KiB blocks of
  256-byte lines. Mutators take blocks from a queue, search them for holes of free lines, claim
  the lines and bump a cursor through them. A collection finds roots conservatively on the
  stacks and in the registers, traces them with one worker per processor, and sweeps the blocks:
  lines not marked by the trace become free, and blocks with a free line become usable again.

  \<^item> \<open>Prelude\<close>: results of fallible code (\<open>Inl\<close> a panic, a failed assertion or undefined
    behaviour), divergence (\<open>None\<close>), and \<open>usize\<close> arithmetic in the two build profiles, \<open>Debug\<close>
    with overflow checks and \<open>Release\<close> with wrap-around.
  \<^item> \<open>Address\<close> (\<open>common/mod.rs\<close>): addresses and object references, with their arithmetic,
    order and printed forms.
  \<^item> \<open>Cell_Store\<close>, \<open>Address_Map\<close> (\<open>common/address_map.rs\<close>, \<open>objectmodel.rs\<close>): the interface of a
    table indexed by address, and the alloc map, the trace map and the object bytes that
    implement it.
  \<^item> \<open>Line_Mark\<close> (\<open>immix/mod.rs\<close>, \<open>immix/line_mark.rs\<close>): the line mark table, its slices and the
    searches for free lines.
  \<^item> \<open>Injector\<close>: the contract of the \<open>crossbeam\<close> queue, which is a parameter of the model, and a
    concrete queue that fulfils it.
  \<^item> \<open>Mutator_Registry\<close> (\<open>MUTATORS\<close>, \<open>N_MUTATORS\<close>, \<open>ImmixMutatorGlobal\<close>, \<open>trigger_gc\<close>).
  \<^item> \<open>Immix_Space\<close> (\<open>immix/immix_space.rs\<close>): construction, the two queues of blocks, the sweep.
  \<^item> \<open>Immix_Mutator\<close> (\<open>immix/immix_mutator.rs\<close>): the allocator with its fast path, its search for
    holes and its way to the global queue. Its slow path, the barrier, is an interface
    (\<open>gc_barrier\<close>, \<open>gc_supply\<close>) that \<open>Gc\<close> implements.
  \<^item> \<open>Marking\<close>, \<open>Trace\<close> (\<open>gc/multi_thread_trace.rs\<close>): reachability, and the trace that takes one
    object at a time in any order.
  \<^item> \<open>Trace_Workers\<close>, \<open>Trace_Spec\<close>: the worker threads as a step relation in which every shared
    access is a step, and the specification that both traces implement; \<open>Trace_Fair\<close>: workers
    that are scheduled fairly return, and fair runs exist.
  \<^item> \<open>Gc\<close> (\<open>gc/mod.rs\<close>): root scanning, a collection, and \<open>sync_barrier\<close> as the controlling
    thread runs it.
  \<^item> \<open>Stop_World\<close>: \<open>sync_barrier\<close> and \<open>block_current_thread\<close> for any number of mutators, again
    with every shared access as a step; \<open>Shared_Heap\<close>: what these mutators do to the heap they
    share, and the sequential allocator as one of their behaviours.
  \<^item> \<open>Alone\<close>, \<open>Fill\<close>: a mutator that has the heap to itself, whose allocations end (\<open>ends\<close>), and
    how many objects whole free blocks serve without a collection (\<open>gives\<close>, \<open>serves\<close>).
  \<^item> \<open>Text\<close>: the \<open>Display\<close> and \<open>Debug\<close> texts of spaces, blocks, line tables and mutators, and
    \<open>print_object\<close>.
  \<^item> \<open>Gcbench\<close> (\<open>rust_benchmarks/gcbench.rs\<close>): a client that builds trees. \<open>Programs\<close>: the
    benchmark programs as a whole (\<open>exhaust.rs\<close>, \<open>obj_init.rs\<close>, \<open>trace.rs\<close>, \<open>mt_trace.rs\<close>,
    \<open>gcbench.rs\<close>, \<open>mt_gcbench.rs\<close>, \<open>main.rs\<close>), with what they print; \<open>Program_Runs\<close> and
    \<open>Program_Fill\<close> prove what they do, over the two interfaces \<open>lone_client\<close> and
    \<open>stocked_client\<close> of an allocator.
  \<^item> \<open>Thread_Programs\<close>, \<open>Threads\<close> (\<open>mt_gcbench.rs\<close> again): the body of a thread as a program whose
    calls of \<open>alloc\<close> are cut into steps, and any number of such threads with the main thread that
    spawns and joins them. Each of their steps on the heap is a step of \<open>Stop_World\<close>;
    \<open>Threads_Run\<close>: one thread that nobody disturbs, as a run of them.
  \<^item> \<open>Example_Heap\<close>, \<open>Example_Run\<close>, \<open>Example_Barrier\<close>, \<open>Example_Tree\<close>, \<open>Example_Shared\<close>,
    \<open>Example_Program\<close>: concrete spaces, heaps, runs and settings on which the theorems are
    applied.

  Names follow the source; a method of a struct is prefixed where the name is taken (\<open>am_get\<close>,
  \<open>sm_get\<close>, \<open>lt_get\<close>, \<open>sl_get\<close>). The state of the library is the record \<open>world\<close>: the space, the
  registry, the memory and the statics of \<open>gc/mod.rs\<close>; that of a thread is \<open>mutator_local\<close>.

  \<^bold>\<open>What the theorems show.\<close> The invariant of a space (\<open>space_ok\<close>) says that its tables have the
  right sizes and that every block is in exactly one queue or held by one mutator; that of a
  mutator (\<open>mut_ok\<close>) that its hole consists of lines claimed by it. Every operation keeps both.
  On top of them: what \<open>alloc\<close> returns is aligned, inside the space and disjoint from everything
  allocated or retained before; the trace marks exactly what it reaches from the roots along fields whose cells are not at the
  mark state when it starts (\<open>followed\<close>), sequentially and with
  any interleaving of its workers, which return only when all work is done, and do return when
  they are scheduled fairly and every object they reach is well-formed; the sweep frees
  exactly the unmarked lines and loses no block; the objects that a collection reaches keep their
  first 256 bytes and are not overwritten by later allocations of any thread, nor do the threads'
  objects overlap; each block is always in one place; a collection happens only while all
  other mutators are parked, with their blocks returned and their roots recorded; on one processor
  the programs of one thread come to an end, and on a large enough heap they return without a
  collection; the threads of \<open>mt_gcbench\<close> keep to the protocol and leave no mutator and no lost
  block. What is said of threads that stop the world holds for runs in which mutators are created
  and destroyed, but none is created while the world is stopped (\<open>breach\<close>, \<open>system_run\<close>); what is
  said of blocks and of the threads of \<open>mt_gcbench\<close> holds without that restriction (\<open>open_run\<close>).
  Several theorems state behaviour that is not intended: the first trace follows no edge, and
  later ones miss the new objects every other time, retained lines
  are never reclaimed, a panicking worker hangs the trace, objects without references stop
  it, large objects are never allocated, mutators created during a collection are not
  stopped, a mutator without its block cannot be printed, a huge \<open>HEAP_SIZE\<close> wraps around.

  \<^bold>\<open>Loops.\<close> The allocation functions call each other without a bound in the source; the model
  takes fuel, one unit per hole or block tried, and \<open>None\<close> means that it ran out. Three units are
  enough for a small object when the next block has a free line (\<open>alloc_succeeds\<close>); a mutator
  that is alone terminates with four for every case, a collection included, when the trace has one
  worker or meets no malformed object (\<open>alloc_terminates\<close>), and with one worker so does every
  program of one thread (\<open>main_terminates\<close>). The loops over the queues and of the trace are
  partial functions whose termination is proved (\<open>trace_terminates\<close>, \<open>sweep_outcome\<close>). \<open>None\<close>
  also stands for waiting forever: \<open>start_trace\<close>, and with it \<open>gc\<close> and \<open>alloc\<close>, has this value
  when the first worker cannot return because another has panicked (\<open>join_workers\<close>,
  \<open>worker_panic_blocks_return\<close>), \<open>sync_barrier\<close> when the thread waits for other mutators.

  \<^bold>\<open>Parameters.\<close> The \<open>crossbeam\<close> queue (\<open>injector_ops\<close> with \<open>injector_laws\<close>), the address the
  memory map returns, the indices of the generational arena (\<open>fresh_index\<close>), the values inline
  assembly reads from the stack pointer and the registers (\<open>scan_env\<close>), the number of processors,
  the order in which the trace takes work and the worker that takes it (\<open>sched\<close>, a \<open>trace_env\<close>),
  the schedule of the threads, the field offsets of a node type, the environment of a program
  (\<open>HEAP_SIZE\<close>, features, measured durations as texts), and the address of the line mark table in
  a text.

  \<^bold>\<open>Output.\<close> A program's own lines are its result; the three lines that each sweep of a debug build
  prints are collected in the world (\<open>wd_printed\<close>). How the two interleave is not modelled.

  \<^bold>\<open>Granularity.\<close> In the barrier the test of the yield flag with the compare-exchange, \<open>gc\<close>, and
  the loop that resumes the mutators are one step each; \<open>Stop_World\<close> says why nothing is lost by
  it in the runs of \<open>breach\<close>. In \<open>open_run\<close>, where a mutator may come into being during one of
  these, it moves before or after it. The trace inside \<open>gc\<close> takes one object at a time, and
  \<open>worker_trace_equivalent\<close> relates it to the worker threads.

  \<^bold>\<open>Not modelled.\<close> Deallocation in \<open>Drop\<close> and logging; weak memory (the atomics of the barrier
  and of the worker counter are sequentially consistent in the source; the relaxed cells of the
  trace map and the plain accesses to the line marks are taken as such too); what a program has
  printed before it panics; \<open>mark.rs\<close>, which is not
  compiled, and the harness in \<open>benches\<close>; the C prototype under \<open>c_src\<close> and the C header under
  \<open>rust_c_interface\<close>, which the crate does not build.
\<close>

unbundle bit_operations_syntax

section \<open>Collections keep what is reachable\<close>

text \<open>C1: After a collection that returns, every byte of the first 256 bytes of every object that
  the trace reaches lies in a line that the sweep has kept, and the object's trace cell is
  untraced for the next cycle. What the trace reaches are the roots and, from an object that it
  reaches, the fields whose own cell is not at the mark state when the collection starts
  (\<open>followed\<close>); a field whose cell is at the mark state already is not followed (see
  \<open>first_trace_follows_no_edge\<close>). The references reached are assumed to be aligned.\<close>

theorem reachable_objects_survive:
  assumes "injector_laws I c r" and "space_ok c held (wd_space w)"
    and "gc p I sched w = Some (Inr w')"
    and "\<forall>x\<in>reach (set (wd_roots w)) (followed (wd_space w) (wd_mem w)). 8 dvd addr_nat (to_address x)"
    and "x \<in> reach (set (wd_roots w)) (followed (wd_space w) (wd_mem w))"
    and "addr_nat (to_address x) \<le> y" and "y < addr_nat (to_address x) + 256"
    and "(y - addr_nat (sp_start (wd_space w))) div 256 < length (wd_cells w)"
  shows "retained (wd_cells w' ! ((y - addr_nat (sp_start (wd_space w))) div 256)) \<and>
    is_untraced_and_valid (sp_trace_map (wd_space w')) (oref_as_usize x)"
proof -
  note kept = gc_keeps [OF assms(1-5)]
  have "tables_ok (wd_space w)" using assms(2) by (simp add: space_ok_def)
  from gc_stages [OF assms(3)] start_trace_marks [OF this _ assms(4,5)]
  have "sp_start (wd_space w) \<le> to_address x" by (metis wf_object_def)
  moreover have "length (wd_cells w') = length (wd_cells w)"
    using gc_frame(2) [OF assms(1-3)] by (simp add: heap_frame_def)
  ultimately show ?thesis
    using line_kept_bytes [OF kept(1) _ order_refl assms(6,7)] kept(2) assms(8) by simp
qed

theorem reachable_objects_survive_witness:
  "\<exists>w'. gc Debug (fifo_ops 0) ex_sched ex_heap = Some (Inr w') \<and>
    retained (wd_cells w' ! ((525320 - addr_nat (sp_start (wd_space ex_heap))) div 256)) \<and>
    is_untraced_and_valid (sp_trace_map (wd_space w')) (oref_as_usize (ObjectReference 525312))"
proof -
  obtain w' where run: "gc Debug (fifo_ops 0) ex_sched ex_heap = Some (Inr w')"
    using ex_gc by blast
  have "retained (wd_cells w' ! ((525320 - addr_nat (sp_start (wd_space ex_heap))) div 256)) \<and>
    is_untraced_and_valid (sp_trace_map (wd_space w')) (oref_as_usize (ObjectReference 525312))"
    by (rule reachable_objects_survive [OF fifo_ops_laws ex_heap_ok run ex_heap_aligned ex_heap_second])
      (simp_all add: to_address_def)
  with run show ?thesis by blast
qed

section \<open>Mutators side by side\<close>

text \<open>C2: No thread overwrites a live object. Take any run of mutators from a fresh start, in which
  mutators come and go but none is created while the world is stopped, up to a collection, and any
  such run after it. An object that this collection reached by the references it follows, all of
  them aligned, never shares one of its first 256 bytes with an object that any mutator allocates
  afterwards, whatever steps the mutators take in between, further collections included.\<close>

theorem no_thread_overwrites_live:
  assumes "injector_laws I c r" and "fresh_start c s0" and "system_run p I s0 s"
    and i: "i \<in> arena s" "st_pc s i = Collecting" and st: "bstep p I i s s'" "st_pc s' i = Releasing"
    and aligned: "\<forall>x\<in>reach (set (wd_roots (st_world s))) (followed (wd_space (st_world s)) (wd_mem (st_world s))).
      8 dvd addr_nat (to_address x)"
    and x: "x \<in> reach (set (wd_roots (st_world s))) (followed (wd_space (st_world s)) (wd_mem (st_world s)))"
    and run: "system_run p I s' t" and al: "layout_ok ly" "allocates p ly j t a t'"
  shows "object_bytes ly a \<inter> {addr_nat (to_address x) ..< addr_nat (to_address x) + 256} = {}"
proof -
  have inv: "heap_inv c p I s" using heap_inv_run [OF assms(1) heap_inv_start [OF assms(2)] assms(3)] by blast
  have ok: "space_ok c (held_by (st_local s i) @ held_beside s i) (wd_space (st_world s))"
    using own_inv_space [of c s i] i inv by (simp add: heap_inv_def)
  have "system_step p I s s'" using i(1) st(1) by (rule system_step.move)
  from heap_inv_step [OF assms(1) inv this] have inv': "heap_inv c p I s'"
    and frame: "heap_frame (st_world s) (st_world s')" by auto
  from st i(2) obtain sched where gc: "gc p I sched (st_world s) = Some (Inr (st_world s'))" by cases auto
  note kept = gc_keeps(1) [OF assms(1) ok gc aligned x]
  have "tables_ok (wd_space (st_world s))" using ok by (simp add: space_ok_def)
  from gc_stages [OF gc] start_trace_marks [OF this _ aligned x]
  have low: "sp_start (wd_space (st_world s)) \<le> to_address x" by (metis wf_object_def)
  have False if y: "y \<in> object_bytes ly a" "addr_nat (to_address x) \<le> y" "y < addr_nat (to_address x) + 256" for y
  proof -
    have t: "hole_inv t" "heap_frame (st_world s') (st_world t)"
      using heap_inv_run [OF assms(1) inv' run] by (simp_all add: heap_inv_def)
    have "y \<in> hole (st_local t j)" using allocates_takes(1) [OF t(1) al] y(1) by blast
    then have len: "(y - addr_nat (sp_start (wd_space (st_world s)))) div 256 < length (wd_cells (st_world s'))"
      using allocates_takes(2) [OF t(1) al] t(2) frame by (simp add: hole_ok_def heap_frame_def)
    show False
      using line_kept_bytes [OF kept low order_refl y(2,3) len] retained_not_allocated [OF assms(1) inv' run al y(1)] len frame
      by (simp add: heap_frame_def)
  qed
  then show ?thesis
    by (intro equals0I) (simp only: Int_iff atLeastLessThan_iff, blast)
qed

theorem no_thread_overwrites_live_witness:
  "\<exists>(t :: (immix_block list \<times> nat) stw) a t'. allocates Debug ex_layout ex_fst t a t' \<and>
     object_bytes ex_layout a \<inter> {addr_nat (to_address (ObjectReference 525312)) ..< addr_nat (to_address (ObjectReference 525312)) + 256} = {}"
proof -
  obtain s s' t a t' where s: "system_run Debug (fifo_ops 0) ex_solo s" "ex_fst \<in> arena s" "st_pc s ex_fst = Collecting"
    and w: "st_world s = solo_world" and st: "bstep Debug (fifo_ops 0) ex_fst s s'" "st_pc s' ex_fst = Releasing"
    and t: "system_run Debug (fifo_ops 0) s' t" "allocates Debug ex_layout ex_fst t a t'"
    using solo_allocates by blast
  have "object_bytes ex_layout a \<inter> {addr_nat (to_address (ObjectReference 525312)) ..< addr_nat (to_address (ObjectReference 525312)) + 256} = {}"
    by (rule no_thread_overwrites_live [OF fifo_ops_laws solo_start s st _ _ t(1) ex_layout_ok(1) t(2)])
      (simp_all only: w solo_reach, simp_all add: to_address_def)
  with t(2) show ?thesis by blast
qed

text \<open>C5: Two objects that are allocated without a collection in between never overlap, by whichever
  mutators and whatever the others do in between: the second mutator may be the same one or
  another, and any of them may search holes, exchange blocks, register roots, come to the
  barrier or leave, and mutators may be created as long as the world is not stopped.\<close>

theorem concurrent_allocations_disjoint:
  assumes "injector_laws I c r" and "fresh_start c s0" and "system_run p I s0 s"
    and "layout_ok ly" and "layout_ok ly'"
    and "allocates p ly i s a s1" and "quiet_run p I s1 s2" and "allocates p ly' j s2 b s3"
  shows "object_bytes ly a \<inter> object_bytes ly' b = {}"
proof -
  have "heap_inv c p I s" using heap_inv_run [OF assms(1) heap_inv_start [OF assms(2)] assms(3)] by blast
  from objects_disjoint [OF assms(1) this assms(4-8)] show ?thesis .
qed

theorem concurrent_allocations_disjoint_witness:
  "\<exists>(s :: (immix_block list \<times> nat) stw) a s1 b s2.
     allocates Debug ex_layout ex_fst s a s1 \<and> allocates Debug ex_layout ex_snd s1 b s2 \<and>
     object_bytes ex_layout a \<inter> object_bytes ex_layout b = {}"
proof -
  obtain s a s1 b s2 where s: "system_run Debug (fifo_ops 0) ex_pair s" "allocates Debug ex_layout ex_fst s a s1"
    "allocates Debug ex_layout ex_snd s1 b s2" using pair_allocs by blast
  from concurrent_allocations_disjoint [OF fifo_ops_laws ex_pair_start s(1) ex_layout_ok(1) ex_layout_ok(1)
      s(2) rtranclp.rtrancl_refl s(3)] s(2,3)
  show ?thesis by blast
qed

text \<open>C6: At every moment of every run, mutators created at any time included, each block of the
  space is in exactly one place: in one of the two queues or in the hands of one mutator. In
  particular no two mutators hold the same block.\<close>

theorem blocks_exclusive:
  assumes "injector_laws I c r" and "fresh_start c s0" and "open_run p I s0 s"
  shows "mset (map ib_id (c (sp_usable_blocks (wd_space (st_world s))) @ c (sp_used_blocks (wd_space (st_world s))) @
      held_blocks s)) = mset [0..<sp_total_blocks (wd_space (st_world s))] \<and>
    (\<forall>i\<in>arena s. \<forall>j\<in>arena s. \<forall>b b'. i \<noteq> j \<longrightarrow> ml_block (st_local s i) = Some b \<longrightarrow>
      ml_block (st_local s j) = Some b' \<longrightarrow> ib_id b \<noteq> ib_id b')"
proof -
  have inv: "own_inv c s" by (rule own_inv_run [OF assms(1) own_inv_start [OF assms(2)] assms(3)])
  then have "mset (map ib_id (c (sp_usable_blocks (wd_space (st_world s))) @ c (sp_used_blocks (wd_space (st_world s))) @
      held_blocks s)) = mset [0..<sp_total_blocks (wd_space (st_world s))]"
    unfolding own_inv_def space_ok_def all_blocks_def by blast
  then show ?thesis using held_apart [OF inv] by blast
qed

theorem blocks_exclusive_witness:
  "\<exists>s :: (immix_block list \<times> nat) stw. ml_block (st_local s ex_fst) = Some (pair_block 0) \<and>
     ml_block (st_local s ex_snd) = Some (pair_block 1) \<and> ib_id (pair_block 0) \<noteq> ib_id (pair_block 1)"
proof -
  obtain s where s: "system_run Debug (fifo_ops 0) ex_pair s" "arena s = {ex_fst, ex_snd}"
    "ml_block (st_local s ex_fst) = Some (pair_block 0)" "ml_block (st_local s ex_snd) = Some (pair_block 1)"
    using pair_run by blast
  from blocks_exclusive [OF fifo_ops_laws ex_pair_start system_run_open [OF s(1)]]
  have "ib_id (pair_block 0) \<noteq> ib_id (pair_block 1)"
    using s(2-4) by (metis insert_iff prod.inject zero_neq_one)
  with s(3,4) show ?thesis by blast
qed

text \<open>C7: The allocator of the sequential model is a behaviour of the concurrent one: whatever
  \<open>alloc\<close> returns, the collections it waits for included, its mutator reaches by steps of its
  own, the last of which allocates that object, with the same local state and the same world.\<close>

theorem alloc_refines:
  assumes "st_pc s i = Running" and "st_lock s = None" and "i \<in> arena s" and "ml_id (st_local s i) = i"
    and "alloc fuel p I (sync_barrier p I sched env) ly (st_local s i) (st_world s) = Some (Inr (a, m', w'))"
  shows "\<exists>s1 s2. (bstep p I i)\<^sup>*\<^sup>* s s1 \<and> system_run p I s s1 \<and> allocates p ly i s1 a s2 \<and> st_local s2 i = m' \<and> st_world s2 = w' \<and>
    st_pc s2 i = Running \<and> st_lock s2 = None"
proof -
  have "at_work i (st_local s i) (st_world s) s" using assms(1-4) by (simp add: at_work_def controls_def)
  from alloc_run [OF this assms(5)] obtain s1 s2 where
    s: "(bstep p I i)\<^sup>*\<^sup>* s s1" "allocates p ly i s1 a s2" "controls i Running m' w' s2"
    by (auto simp: runs_to_alloc_def)
  then have "system_run p I s s1" using own_run_system by (metis allocates_def)
  then show ?thesis using s unfolding controls_def by blast
qed

theorem alloc_refines_witness:
  "\<exists>a s1 s2. system_run Debug (fifo_ops 0) ex_pair s1 \<and> allocates Debug ex_layout ex_fst s1 a s2"
proof -
  have pre: "alloc_pre fst (st_local ex_pair ex_fst) (st_world ex_pair)" "block_ready fst (st_world ex_pair)"
    "\<not> take_yield (rg_globals (wd_registry (st_world ex_pair)) (ml_id (st_local ex_pair ex_fst)))"
    using pair_ready by auto
  obtain a m' w' where al: "alloc 3 Debug (fifo_ops 0) no_barrier ex_layout (st_local ex_pair ex_fst) (st_world ex_pair) =
      Some (Inr (a, m', w'))"
    using fifo_blocks.alloc_quiet_returns [OF ex_layout_ok(1) _ _ pre, of Debug 0] by auto
  have "st_pc ex_pair ex_fst = Running" "st_lock ex_pair = None" "ex_fst \<in> arena ex_pair" "ml_id (st_local ex_pair ex_fst) = ex_fst"
    by (simp_all add: ex_pair_def ex_mutator_def)
  from alloc_refines [OF this alloc_quiet_mono [OF al]] show ?thesis by blast
qed

section \<open>Allocation\<close>

text \<open>C4: Whatever \<open>alloc\<close> returns, after however many holes, blocks and collections: the
  object is aligned, lies inside the space, ends at the new cursor, and every line it touches
  is claimed as freshly allocated; the mutator's and the space's invariants hold again, the
  space has not moved, and no line the collector had retained has been released.\<close>

theorem alloc_result:
  assumes "injector_laws I c r" and "layout_ok ly" and "0 < unat (ly_size ly)" and "alloc_pre c m w"
    and "alloc fuel p I (sync_barrier p I sched env) ly m w = Some (Inr (a, m', w'))"
  shows "alloc_pre c m' w' \<and> heap_frame w w' \<and> unat (ly_align ly) dvd addr_nat a \<and>
    sp_start (wd_space w) \<le> a \<and> addr_nat a + unat (ly_size ly) \<le> addr_nat (sp_end (wd_space w)) \<and>
    addr_nat (ml_cursor m') = addr_nat a + unat (ly_size ly) \<and>
    (\<forall>k<unat (ly_size ly).
       wd_cells w' ! ((addr_nat a + k - addr_nat (sp_start (wd_space w))) div 256) = FreshAlloc)"
proof -
  have good: "alloc_good c ly w (a, m', w')" by (rule alloc_good_collecting [OF assms])
  then have frame: "heap_frame w w'" by (simp add: alloc_good_def)
  with good assms(4) user_space_frame [OF frame] show ?thesis
    by (auto simp: alloc_good_def placed_def alloc_pre_def heap_frame_def)
qed

theorem alloc_result_witness:
  "\<exists>a m' w'. alloc 3 Debug (fifo_ops 2) (sync_barrier Debug (fifo_ops 2) ex_sched ex_env) ex_layout ex_mutator ex_fresh =
      Some (Inr (a, m', w')) \<and> alloc_pre fst m' w' \<and> heap_frame ex_fresh w' \<and>
    unat (ly_align ex_layout) dvd addr_nat a \<and>
    addr_nat (ml_cursor m') = addr_nat a + unat (ly_size ex_layout)"
proof -
  from fifo_blocks.alloc_quiet_returns [of ex_layout ex_mutator ex_fresh Debug 2] obtain a m' w' where
    "alloc 3 Debug (fifo_ops 2) no_barrier ex_layout ex_mutator ex_fresh = Some (Inr (a, m', w'))"
    using ex_quiet by auto
  then have al: "alloc 3 Debug (fifo_ops 2) (sync_barrier Debug (fifo_ops 2) ex_sched ex_env) ex_layout ex_mutator ex_fresh =
      Some (Inr (a, m', w'))" by (rule alloc_quiet_mono)
  from alloc_result [OF fifo_ops_laws ex_layout_ok(1) _ ex_alloc_pre al] al show ?thesis by auto
qed

text \<open>An object of at most one line, with an alignment of at most one line, is allocated
  within three steps (a hole, a block, a hole of that block) when the mutator is not asked to
  yield and the block at the head of the usable queue has a free line: the call returns an
  address, whatever the barrier does.\<close>

lemma alloc_succeeds:
  assumes "injector_laws I c r" and "layout_ok ly" and "unat (ly_size ly) \<le> 256" and "unat (ly_align ly) \<le> 256"
    and "alloc_pre c m w" and "block_ready c w"
    and "\<not> take_yield (rg_globals (wd_registry w) (ml_id m))"
  shows "\<exists>a m' w'. alloc 3 p I slow ly m w = Some (Inr (a, m', w'))"
proof -
  obtain x where "alloc 3 p I no_barrier ly m w = Some (Inr x)"
    using block_queue_spec.alloc_quiet_returns [OF block_queue_specI [OF assms(1)] assms(2-7)] by blast
  then have "alloc 3 p I slow ly m w = Some (Inr x)" by (rule alloc_quiet_mono)
  then show ?thesis by (cases x) auto
qed



text \<open>C38: No allocation ever returns an object larger than a block: for such a layout \<open>alloc\<close>
  does not return an address whatever the fuel, there being no path for large objects.\<close>

theorem large_alloc_never_returns:
  assumes "injector_laws I c r" and "layout_ok ly" and "65536 < unat (ly_size ly)" and "alloc_pre c m w"
  shows "alloc fuel p I (sync_barrier p I sched env) ly m w \<noteq> Some (Inr (a, m', w'))"
proof
  assume run: "alloc fuel p I (sync_barrier p I sched env) ly m w = Some (Inr (a, m', w'))"
  have "alloc_good c ly w (a, m', w')"
    using alloc_good_collecting [OF assms(1,2) _ assms(4) run] assms(3) by simp
  then obtain b where b: "ml_block m' = Some b" "ib_start b \<le> a" "mut_ok (wd_space w') m'"
    "addr_nat (ml_cursor m') = addr_nat a + unat (ly_size ly)"
    by (auto simp: alloc_good_def placed_def)
  then have "addr_nat (ml_cursor m') \<le> addr_nat (ib_start b) + 256 * ml_line m'" "ml_line m' \<le> 256"
    by (auto simp: mut_ok_def address_le_iff)
  with b(2,4) assms(3) show False by (simp add: address_le_iff)
qed

theorem large_alloc_never_returns_witness:
  "alloc 100 Debug (fifo_ops 0) (sync_barrier Debug (fifo_ops 0) ex_sched ex_env)
     \<lparr>ly_size = 65537, ly_align = 8\<rparr> ex_mutator ex_fresh \<noteq> Some (Inr (ex_start, ex_mutator, ex_fresh))"
proof (rule large_alloc_never_returns [OF fifo_ops_laws _ _ ex_alloc_pre])
  show "layout_ok \<lparr>ly_size = 65537, ly_align = 8\<rparr>"
    by (simp add: layout_ok_def) (rule exI [of _ 3], simp)
qed simp

section \<open>The trace\<close>



text \<open>C13: When the trace returns, every reference that it reaches along the fields whose cells are
  not at the mark state when it starts has been marked as traced and is an object in the space,
  and the line the object starts in and the next one are retained. The references reached are
  assumed to be aligned.\<close>

theorem trace_marks_reachable:
  assumes "tables_ok sp" and "start_trace p sched mem roots sp = Some (Inr sp')"
    and "\<forall>r\<in>reach (set roots) (followed sp mem). 8 dvd addr_nat (to_address r)"
    and "r \<in> reach (set roots) (followed sp mem)"
  shows "is_traced p (sp_trace_map sp') (oref_as_usize r) = Inr True \<and> wf_object sp r \<and> line_kept sp (sp_cells sp') r"
  using assms by (rule start_trace_marks)

theorem trace_marks_reachable_witness:
  "\<exists>sp'. start_trace Debug ex_pair_sched ex_mem [ObjectReference 524288] ex_heap_space = Some (Inr sp') \<and>
    is_traced Debug (sp_trace_map sp') (oref_as_usize (ObjectReference 525312)) = Inr True \<and>
    wf_object ex_heap_space (ObjectReference 525312) \<and> line_kept ex_heap_space (sp_cells sp') (ObjectReference 525312)"
proof -
  have tb: "tables_ok ex_heap_space" by simp
  obtain sp' where run: "start_trace Debug ex_pair_sched ex_mem [ObjectReference 524288] ex_heap_space = Some (Inr sp')"
    using ex_trace by blast
  from trace_marks_reachable [OF tb run ex_trace_facts] run show ?thesis by blast
qed

text \<open>C26: On a heap where all references that the trace reaches are well-formed objects no
  assertion, no index and no pattern match of the trace fails: it returns normally, in both
  profiles, with any number of workers and in any order.\<close>

theorem trace_does_not_panic:
  assumes "tables_ok sp" and "\<forall>r\<in>reach (set roots) (followed sp mem). wf_object sp r"
  shows "\<exists>sp'. start_trace p sched mem roots sp = Some (Inr sp')"
  using assms by (rule start_trace_succeeds)

theorem trace_does_not_panic_witness:
  "\<exists>sp'. start_trace Debug ex_pair_sched ex_mem [ObjectReference 524288] ex_heap_space = Some (Inr sp')"
  using trace_does_not_panic [OF _ ex_heap_wf [unfolded ex_world_sel]] by simp

text \<open>C29: The mark state of a new space equals its cells, so in the first collection every field
  looks traced already: the trace retains no line but those of the roots themselves, however
  much is reachable from them.\<close>

theorem first_trace_follows_no_edge:
  assumes "tables_ok sp" and "tm_new p' (as_usize (sp_start sp)) (as_usize (sp_end sp)) = Inr (sp_trace_map sp)"
    and "start_trace p sched mem roots sp = Some (Inr sp')"
    and "j < length (sp_cells sp)" and "retained (sp_cells sp' ! j)"
  shows "retained (sp_cells sp ! j) \<or> (\<exists>r\<in>set roots.
    j \<in> {line_of (sp_start sp) (to_address r), Suc (line_of (sp_start sp) (to_address r))})"
proof -
  from start_trace_stale [OF assms(1,3) unmarked_tm_new [OF assms(2)] assms(4,5)] show ?thesis .
qed

theorem first_trace_follows_no_edge_witness:
  "\<exists>sp'. start_trace Debug ex_sched ex_mem [ObjectReference 524288]
      (ex_space ex_bytes 0 ex_lines [] [ex_block]) = Some (Inr sp') \<and>
    \<not> retained (sp_cells sp' ! 4) \<and>
    ObjectReference 525312 \<in> reach {ObjectReference 524288} (heap_succ (ex_space ex_bytes 0 ex_lines [] [ex_block]) ex_mem)"
proof -
  let ?sp = "ex_space ex_bytes 0 ex_lines [] [ex_block]"
  have tb: "tables_ok ?sp" by simp
  obtain sp' where run: "start_trace Debug ex_sched ex_mem [ObjectReference 524288] ?sp = Some (Inr sp')"
    using ex_trace by blast
  have new: "tm_new Debug (as_usize (sp_start ?sp)) (as_usize (sp_end ?sp)) = Inr (sp_trace_map ?sp)"
    by (simp add: tm_new_def sm_new_def sm_new_of_ok map_replicate_const)
  have "\<not> retained (sp_cells sp' ! 4)"
    using first_trace_follows_no_edge [OF tb new run, of 4] by (auto simp: ex_lines_def to_address_def)
  with run show ?thesis by (auto simp: ex_reach)
qed

section \<open>The worker threads of the trace\<close>

text \<open>C16: Termination detection. When one of the \<open>cpus\<close> worker threads has returned, whatever
  the interleaving was, no reference is left anywhere: the injector and the queues of all
  workers are empty and no worker holds an object.\<close>

theorem worker_returns_when_done:
  assumes "treach p sp mem cpus roots s" and "0 < cpus" and "cpus < 2 ^ 64"
    and "i < cpus" and "ts_pc s i = Returned"
  shows "ts_injector s = [] \<and> (\<forall>j<cpus. ts_queue s j = [] \<and> resting (ts_pc s j))"
  using assms by (rule returned_detect)

theorem worker_returns_when_done_witness:
  "\<exists>s. ex_run s \<and> ts_pc s 0 = Returned \<and> ts_injector s = [] \<and> (\<forall>j<2. ts_queue s j = [] \<and> resting (ts_pc s j))"
proof -
  obtain s where "stage Returned Spinning [] 0 s" using ex_run_returns by blast
  then have s: "ex_run s" "ts_pc s 0 = Returned" by (simp_all add: stage_def)
  from worker_returns_when_done [OF s(1) _ _ _ s(2)] s show ?thesis by auto
qed

text \<open>C17: The worker threads finish. When every worker is scheduled again and again and the queue
  does not answer a steal with \<open>Retry\<close> forever (\<open>fair_run\<close>), and all references that the trace
  reaches are well-formed objects, there comes a moment at which all workers have returned and
  the trace has done what its specification says. The number of workers is arbitrary.\<close>

theorem workers_finish:
  assumes "fair_run p sp mem cpus who s" and "s 0 = workers_start cpus roots sp"
    and "0 < cpus" and "cpus < 2 ^ 64" and "tables_ok sp"
    and "\<forall>r\<in>reach (set roots) (followed sp mem). wf_object sp r"
  shows "\<exists>n. (\<forall>i<cpus. ts_pc (s n) i = Returned) \<and>
    trace_spec (reach (set roots) (followed sp mem)) sp (ts_map (s n)) (ts_lines (s n))"
  by (rule workers_finish_marked [OF assms(1,3,4,2,5,6)])

theorem workers_finish_witness:
  "\<exists>who s n. fair_run Debug ex_heap_space ex_mem 2 who s \<and> s 0 = workers_start 2 [ex_root] ex_heap_space \<and>
    (\<forall>i<2. ts_pc (s n) i = Returned) \<and>
    trace_spec (reach (set [ex_root]) (followed ex_heap_space ex_mem)) ex_heap_space (ts_map (s n)) (ts_lines (s n))"
proof -
  let ?s = "rounds Debug ex_heap_space ex_mem 2 [ex_root]"
  have run: "fair_run Debug ex_heap_space ex_mem 2 (\<lambda>n. n mod 2) ?s" by (rule fair_run_exists) simp
  have tb: "tables_ok ex_heap_space" by simp
  have "\<exists>n. (\<forall>i<2. ts_pc (?s n) i = Returned) \<and>
      trace_spec (reach (set [ex_root]) (followed ex_heap_space ex_mem)) ex_heap_space (ts_map (?s n)) (ts_lines (?s n))"
    by (rule workers_finish [OF run _ _ _ tb ex_root_facts(2)]) simp_all
  with run show ?thesis by (metis rounds.simps(1))
qed

text \<open>C14: The concurrent trace implements its specification. When a worker has returned, the
  trace map is the old one with the mark state in the cells of exactly the objects that are
  reached along fields whose cells were not at the mark state at the start, and the retained
  lines are exactly the old ones, the lines of those objects and the lines after them, for every
  number of workers and every interleaving of their steps. The references reached are assumed
  to be aligned.\<close>

theorem worker_trace_refines:
  assumes "treach p sp mem cpus roots s" and "0 < cpus" and "cpus < 2 ^ 64" and "tables_ok sp"
    and "\<forall>r\<in>reach (set roots) (followed sp mem). 8 dvd addr_nat (to_address r)"
    and "i < cpus" and "ts_pc s i = Returned"
  shows "trace_spec (reach (set roots) (followed sp mem)) sp (ts_map s) (ts_lines s)"
  using assms by (rule workers_spec)

theorem worker_trace_refines_witness:
  "\<exists>s. ex_run s \<and> ts_pc s 0 = Returned \<and>
    trace_spec (reach (set [ex_root]) (followed ex_heap_space ex_mem)) ex_heap_space (ts_map s) (ts_lines s)"
proof -
  obtain s where "stage Returned Spinning [] 0 s" using ex_run_returns by blast
  then have s: "ex_run s" "ts_pc s 0 = Returned" by (simp_all add: stage_def)
  have tb: "tables_ok ex_heap_space" by simp
  from worker_trace_refines [OF s(1) _ _ tb ex_root_facts(1) _ s(2)] s show ?thesis by auto
qed

text \<open>C15: The worker threads compute what the trace of one object at a time computes: once one of
  them has returned, and the sequential trace returns normally, the two trace maps are equal and
  the same lines are retained, whatever order the one takes and however the others interleave.
  The references reached are assumed to be aligned.\<close>

theorem worker_trace_equivalent:
  assumes "treach p sp mem cpus roots s" and "0 < cpus" and "cpus < 2 ^ 64" and "tables_ok sp"
    and "\<forall>r\<in>reach (set roots) (followed sp mem). 8 dvd addr_nat (to_address r)"
    and "i < cpus" and "ts_pc s i = Returned"
    and "start_trace p sched mem roots sp = Some (Inr sp')"
  shows "ts_map s = sp_trace_map sp' \<and> map retained (lt_cells (ts_lines s)) = map retained (sp_cells sp')"
  by (rule trace_spec_unique [OF workers_spec [OF assms(1-7)] start_trace_spec [OF assms(4,8,5)]])

theorem worker_trace_equivalent_witness:
  "\<exists>s sp'. ex_run s \<and> ts_pc s 0 = Returned \<and>
    start_trace Debug ex_pair_sched ex_mem [ex_root] ex_heap_space = Some (Inr sp') \<and>
    ts_map s = sp_trace_map sp' \<and> map retained (lt_cells (ts_lines s)) = map retained (sp_cells sp')"
proof -
  obtain s where "stage Returned Spinning [] 0 s" using ex_run_returns by blast
  then have s: "ex_run s" "ts_pc s 0 = Returned" by (simp_all add: stage_def)
  have tb: "tables_ok ex_heap_space" by simp
  obtain sp' where run: "start_trace Debug ex_pair_sched ex_mem [ex_root] ex_heap_space = Some (Inr sp')"
    using start_trace_succeeds [OF tb ex_root_facts(2)] by blast
  have "ts_map s = sp_trace_map sp' \<and> map retained (lt_cells (ts_lines s)) = map retained (sp_cells sp')"
    by (rule worker_trace_equivalent [OF s(1) _ _ tb ex_root_facts(1) _ s(2) run]) simp_all
  with s run show ?thesis by blast
qed



text \<open>C27: The trace knows objects with one, two and four reference words only. When it reaches an
  object whose reference bits say anything else, no references at all for example, it never
  completes: \<open>start_trace\<close> does not return normally, no worker ever returns, and when the workers
  are scheduled fairly one of them panics. The references reached are assumed to be aligned.\<close>

theorem unknown_object_stops_trace:
  assumes "tables_ok sp" and "\<forall>r\<in>reach (set roots) (followed sp mem). 8 dvd addr_nat (to_address r)"
    and "r \<in> reach (set roots) (followed sp mem)" and "ref_byte sp r AND 63 \<notin> {1, 3, 15}"
    and "0 < cpus" and "cpus < 2 ^ 64"
  shows "start_trace p sched mem roots sp \<noteq> Some (Inr sp') \<and>
    (treach p sp mem cpus roots t \<longrightarrow> i < cpus \<longrightarrow> ts_pc t i \<noteq> Returned) \<and>
    (fair_run p sp mem cpus who s \<longrightarrow> s 0 = workers_start cpus roots sp \<longrightarrow> (\<exists>n. panicked cpus (s n)))"
proof -
  have r: "\<not> known_bits sp r" "\<not> wf_object sp r" using assms(4) by (simp_all add: known_bits_def wf_object_def)
  show ?thesis
    using start_trace_incomplete [OF assms(1-3) r(2)] workers_unknown [OF _ assms(5,6,1-3) r(1)]
      workers_unknown_end [OF _ assms(5,6) _ assms(1-3) r(1)] by blast
qed

theorem unknown_object_stops_trace_witness:
  "\<exists>who s n. fair_run Debug ex_heap_space ex_mem 2 who s \<and>
    s 0 = workers_start 2 [ObjectReference 532480] ex_heap_space \<and> panicked 2 (s n)"
proof -
  let ?sp = ex_heap_space and ?r = "ObjectReference 532480" and ?s = "rounds Debug ex_heap_space ex_mem 2 [ObjectReference 532480]"
  have run: "fair_run Debug ?sp ex_mem 2 (\<lambda>n. n mod 2) ?s" by (rule fair_run_exists) simp
  have bits: "ref_byte ?sp ?r = 0" by (simp add: ref_byte_def ex_bytes_def to_address_def)
  then have none: "heap_succ ?sp ex_mem ?r = {}" by (auto simp: heap_succ_def obj_fields_def obj_offsets_def ref_offsets_def)
  have only: "x = ?r" if "x \<in> reach (set [?r]) (followed ?sp ex_mem)" for x
    using that unfolding ex_followed [OF ex_lengths(2)] by induction (auto simp: none)
  then have aligned: "\<forall>x\<in>reach (set [?r]) (followed ?sp ex_mem). 8 dvd addr_nat (to_address x)"
    by (force simp: to_address_def)
  have "\<exists>n. panicked 2 (?s n)"
    using unknown_object_stops_trace [where sp = ?sp and roots = "[?r]" and r = ?r and cpus = 2 and mem = ex_mem and p = Debug
        and s = ?s and who = "\<lambda>n. n mod 2"] run aligned reach.root [of ?r "set [?r]"] bits
    by simp
  with run show ?thesis by (metis rounds.simps(1))
qed

section \<open>The space and the sweep\<close>

text \<open>C25: \<open>ImmixSpace::new\<close> makes a space of the requested size at an aligned address inside the
  mapping, whose usable queue holds exactly one block per whole 64 KiB in address order, with
  every line free and every table zeroed: the invariant of the space holds.\<close>

theorem new_space:
  assumes "injector_laws I c r" and "mmap (sz + SPACE_ALIGN) = Some ptr"
    and "unat ptr + unat sz + 2 ^ 19 + 65536 < 2 ^ 64"
  shows "\<exists>s. space_new p I mmap sz = Some (Inr s) \<and> space_ok c [] s \<and> space_size s = unat sz \<and>
    unat ptr \<le> addr_nat (sp_start s) \<and> addr_nat (sp_end s) < unat ptr + unat sz + 2 ^ 19 \<and>
    c (sp_usable_blocks s) = map (nth_block (sp_start s)) [0..<unat sz div 65536] \<and>
    c (sp_used_blocks s) = [] \<and> sp_cells s = replicate (unat sz div 256) Free \<and>
    am_cells (sp_alloc_map s) = replicate (unat sz div 8) 0"
  using space_new_ok [where mmap = mmap and sz = sz and p = p, OF assms] by blast

theorem new_space_witness:
  "\<exists>s. space_new Debug (fifo_ops 1) (\<lambda>_. Some 4096) 131072 = Some (Inr s) \<and> space_ok fst [] s \<and>
    fst (sp_usable_blocks s) = map (nth_block (sp_start s)) [0..<unat (131072 :: usize) div 65536]"
  using new_space [where mmap = "\<lambda>_. Some 4096" and sz = 131072 and p = Debug, OF fifo_ops_laws, of 4096 1] by auto

text \<open>C19: A sweep ends in one of three ways, decided by the marks alone: it panics when every
  block of the space is full; in a debug build it fails its assertion when the used queue did
  not hold every block (a collection requested while usable blocks remain); otherwise the used
  blocks with an unmarked line move to the usable queue in order, the full ones stay, and
  exactly the unmarked lines of used blocks become free. A debug build then has printed how many
  lines of all were found unmarked, and how many blocks were put into each queue.\<close>

theorem sweep_outcome:
  assumes laws: "injector_laws I c r" and ok: "space_ok c held s"
  shows "\<exists>s'. sweep p I s =
      Some (if length (full_blocks c s) = sp_total_blocks s
            then Inl (Panic ''Out of memory in Immix Space'')
            else if p = Debug \<and> length (c (sp_used_blocks s)) \<noteq> sp_total_blocks s
            then Inl (DebugAssert ''full_blocks + usable_blocks == self.total_blocks'')
            else Inr (s', if p = Debug
              then [''free lines    = '' @ dec_str (\<Sum>b\<leftarrow>c (sp_used_blocks s). unmarked_lines (sp_cells s) b) @
                      '' of '' @ dec_str (sp_total_blocks s * 256) @ '' total'',
                    ''usable blocks = '' @ dec_str (length (freed_blocks c s)),
                    ''full blocks   = '' @ dec_str (length (full_blocks c s))]
              else [])) \<and>
    c (sp_usable_blocks s') = c (sp_usable_blocks s) @ map (\<lambda>b. set_state b Usable) (freed_blocks c s) \<and>
    c (sp_used_blocks s') = rev (map (\<lambda>b. set_state b Full) (full_blocks c s)) \<and>
    (\<forall>j<length (sp_cells s). sp_cells s' ! j =
       (if (\<exists>b\<in>set (c (sp_used_blocks s)). j \<in> block_lines b) \<and> \<not> retained (sp_cells s ! j)
        then Free else sp_cells s ! j))"
proof -
  have slices: "\<forall>b\<in>set (c (sp_used_blocks s)). slice_ok (ib_lines b) (sp_cells s)"
    using space_ok_slices [OF ok] by (simp add: all_blocks_def)
  have report: "space_report p c s = (if p = Debug
      then [''free lines    = '' @ dec_str (\<Sum>b\<leftarrow>c (sp_used_blocks s). unmarked_lines (sp_cells s) b) @
              '' of '' @ dec_str (sp_total_blocks s * 256) @ '' total'',
            ''usable blocks = '' @ dec_str (length (freed_blocks c s)),
            ''full blocks   = '' @ dec_str (length (full_blocks c s))]
      else [])"
    by (simp add: space_report_def sweep_report_256)
  from sweep_ok [OF laws slices, of p] obtain s' where "sweep p I s =
      Some (if length (full_blocks c s) = sp_total_blocks s
            then Inl (Panic ''Out of memory in Immix Space'')
            else if p = Debug \<and> length (c (sp_used_blocks s)) \<noteq> sp_total_blocks s
            then Inl (DebugAssert ''full_blocks + usable_blocks == self.total_blocks'')
            else Inr (s', space_report p c s))"
    "c (sp_usable_blocks s') = c (sp_usable_blocks s) @ map (\<lambda>b. set_state b Usable) (freed_blocks c s)"
    "c (sp_used_blocks s') = rev (map (\<lambda>b. set_state b Full) (full_blocks c s))"
    "sp_cells s' = sweep_cells (c (sp_used_blocks s)) (sp_cells s)" by blast
  then show ?thesis unfolding report by (intro exI [of _ s']) (simp add: nth_sweep_cells)
qed

theorem sweep_outcome_witness:
  "\<exists>s'. sweep Debug (fifo_ops 0) ex_heap_space = Some (Inr (s',
     [''free lines    = '' @ dec_str 256 @ '' of '' @ dec_str 256 @ '' total'',
      ''usable blocks = '' @ dec_str 1, ''full blocks   = '' @ dec_str 0]))"
proof -
  have ok: "space_ok fst [] ex_heap_space" by simp
  show ?thesis
    using sweep_outcome [OF fifo_ops_laws ok, of Debug 0] by (auto simp: ex_heap_freed)
qed

section \<open>Collections\<close>

text \<open>C24: A collection reclaims memory. When the objects that the trace reaches are well-formed,
  a used block has a line that is neither retained from before nor touched by such an object,
  and, in a debug build, all blocks are in the used queue (otherwise its assertion fails, see
  \<open>sweep_outcome\<close>), then the collection returns, that line is free, and the block is in the
  usable queue.\<close>

theorem gc_reclaims:
  assumes "injector_laws I c r" and "space_ok c held (wd_space w)"
    and "p = Release \<or> length (c (sp_used_blocks (wd_space w))) = sp_total_blocks (wd_space w)"
    and "\<forall>x\<in>reach (set (wd_roots w)) (followed (wd_space w) (wd_mem w)). wf_object (wd_space w) x"
    and "b \<in> set (c (sp_used_blocks (wd_space w)))" and "j \<in> block_lines b"
    and "\<not> retained (wd_cells w ! j)"
    and "\<forall>x\<in>reach (set (wd_roots w)) (followed (wd_space w) (wd_mem w)).
      j \<notin> {line_of (sp_start (wd_space w)) (to_address x), Suc (line_of (sp_start (wd_space w)) (to_address x))}"
  shows "\<exists>w'. gc p I sched w = Some (Inr w') \<and> wd_cells w' ! j = Free \<and>
    set_state b Usable \<in> set (c (sp_usable_blocks (wd_space w')))"
  using gc_succeeds [OF assms] .

theorem gc_reclaims_witness:
  "\<exists>w'. gc Debug (fifo_ops 0) ex_sched ex_heap = Some (Inr w') \<and> wd_cells w' ! 9 = Free \<and>
    set_state ex_block Usable \<in> set (fst (sp_usable_blocks (wd_space w')))"
  using gc_reclaims [OF fifo_ops_laws ex_heap_ok _ ex_heap_wf, of Debug ex_block 9 0 ex_sched]
  unfolding ex_reachable_eq by (auto simp: ex_block_lines ex_lines_def to_address_def)

text \<open>C30: A line that is marked \<open>Live\<close> or \<open>ConservLive\<close> once is never free again: a collection
  keeps it whether or not anything reachable is left in it, because no collection resets the
  marks.\<close>

theorem retained_lines_are_never_reclaimed:
  assumes "injector_laws I c r" and "space_ok c held (wd_space w)" and "gc p I sched w = Some (Inr w')"
    and "j < length (wd_cells w)" and "retained (wd_cells w ! j)"
  shows "retained (wd_cells w' ! j) \<and> wd_cells w' ! j \<noteq> Free"
  using gc_frame(2) [OF assms(1-3)] assms(4,5) by (auto simp: heap_frame_def retained_def)

theorem retained_lines_are_never_reclaimed_witness:
  "\<exists>w'. gc Debug (fifo_ops 0) ex_sched ex_garbage = Some (Inr w') \<and>
    retained (wd_cells w' ! 7) \<and> wd_cells w' ! 7 \<noteq> Free"
proof -
  obtain w' where run: "gc Debug (fifo_ops 0) ex_sched ex_garbage = Some (Inr w')"
    using ex_garbage_gc by blast
  from retained_lines_are_never_reclaimed [OF fifo_ops_laws ex_garbage_ok run, of 7] run
  show ?thesis by auto
qed

text \<open>C31: Which cells of the trace map a collection leaves untraced. In a space whose cells and mark
  state are 0 or 1, as every space is from its creation on, a reference is untraced for the next
  collection if and only if its cell was marked by this one or was traced before it. So a
  reference that was untraced and has not been reached is taken for traced the next time: no field
  that holds it is followed. Nothing sets the cell of a new object (\<open>init_object\<close> writes the
  alloc map only), hence an object that is allocated there is not reached through any field by the
  next collection, which keeps it only if it is a root itself. The references reached are assumed
  to be aligned.\<close>

theorem trace_cells_after_gc:
  assumes "injector_laws I c r" and "space_ok c held (wd_space w)"
    and "tm_mark_state (sp_trace_map (wd_space w)) \<in> {0, 1}"
    and "set (sm_addresses (tm_map (sp_trace_map (wd_space w)))) \<subseteq> {0, 1}"
    and "gc p I sched w = Some (Inr w')"
    and "\<forall>x\<in>reach (set (wd_roots w)) (followed (wd_space w) (wd_mem w)). 8 dvd addr_nat (to_address x)"
    and "in_trace_range (wd_space w) x"
  shows "(is_untraced_and_valid (sp_trace_map (wd_space w')) (oref_as_usize x) \<longleftrightarrow>
      mark_slot (wd_space w) x \<in> mark_slot (wd_space w) ` reach (set (wd_roots w)) (followed (wd_space w) (wd_mem w)) \<or>
      \<not> is_untraced_and_valid (sp_trace_map (wd_space w)) (oref_as_usize x)) \<and>
    (mark_slot (wd_space w) x \<notin> mark_slot (wd_space w) ` reach (set (wd_roots w)) (followed (wd_space w) (wd_mem w)) \<longrightarrow>
      is_untraced_and_valid (sp_trace_map (wd_space w)) (oref_as_usize x) \<longrightarrow>
      x \<notin> followed (wd_space w') mem y) \<and>
    tm_mark_state (sp_trace_map (wd_space w')) \<in> {0, 1} \<and>
    set (sm_addresses (tm_map (sp_trace_map (wd_space w')))) \<subseteq> {0, 1}"
proof -
  have "two_states (wd_space w)" using assms(3,4) by (simp add: two_states_def)
  note flips = gc_flips [OF assms(1,2) this assms(5,6)]
  show ?thesis
    using flips(1) flips(2) [OF assms(7)] unfolding two_states_def cell_reached_def followed_def by blast
qed

theorem trace_cells_after_gc_witness:
  "\<exists>w'. gc Debug (fifo_ops 0) ex_sched ex_heap = Some (Inr w') \<and>
    ObjectReference 532480 \<notin> followed (wd_space w') (\<lambda>_. 532480) (ObjectReference 524288)"
proof -
  obtain w' where run: "gc Debug (fifo_ops 0) ex_sched ex_heap = Some (Inr w')"
    using ex_gc by blast
  have "ObjectReference 532480 \<notin> followed (wd_space w') (\<lambda>_. 532480) (ObjectReference 524288)"
    using trace_cells_after_gc [OF fifo_ops_laws ex_heap_ok _ _ run ex_heap_aligned, of "ObjectReference 532480"] ex_unreached
    unfolding ex_reachable_eq by simp
  with run show ?thesis by blast
qed

section \<open>The barrier\<close>

text \<open>C20: When \<open>sync_barrier\<close> returns to the thread that drove the collection, exactly one
  collection has been counted, the roots have been consumed, the mutator has given back its
  block and been reset, nobody is controller, the stop-the-world counter is zero, every
  registered mutator may run again, and the space's invariant and retained lines are kept.\<close>

theorem sync_barrier_resumes:
  assumes "injector_laws I c r" and "pool_ok c m w"
    and run: "sync_barrier p I sched env m w = Some (Inr (m', w'))"
  shows "m' = reset m \<and> pool_ok c m' w' \<and> heap_frame w w' \<and> gc_count w' = gc_count w + 1 \<and>
    wd_roots w' = [] \<and> wd_controller w' = NO_CONTROLLER \<and> wd_stw_count w' = 0 \<and>
    (\<forall>i\<in>set (rg_arena (wd_registry w)). \<not> take_yield (rg_globals (wd_registry w') i) \<and>
       \<not> is_still_blocked (rg_globals (wd_registry w') i))"
proof -
  obtain m1 w1 w2 where st: "wd_controller w = NO_CONTROLLER"
    "enter_barrier p I env m (w\<lparr>wd_controller := int (fst (ml_id m))\<rparr>) = Some (Inr (m1, w1))"
    "gc p I sched w1 = Some (Inr w2)" "m' = reset m1" "w' = (resume_mutators w2)\<lparr>wd_stw_count := 0\<rparr>"
    by (rule sync_barrier_stages [OF run])
  have "pool_ok c m (w\<lparr>wd_controller := int (fst (ml_id m))\<rparr>)" using assms(2) by (simp add: pool_ok_def)
  note e = enter_barrier_ok [OF assms(1) this st(2)]
  obtain sp2 out where "w2 = w1\<lparr>wd_gc_count := wd_gc_count w1 + 1, wd_roots := [], wd_space := sp2, wd_printed := out\<rparr>"
    using gc_stages [OF st(3)] by metis
  with e have "gc_count w' = gc_count w + 1 \<and> wd_roots w' = [] \<and> wd_controller w' = NO_CONTROLLER \<and>
      wd_stw_count w' = 0 \<and> (\<forall>i\<in>set (rg_arena (wd_registry w)).
        \<not> take_yield (rg_globals (wd_registry w') i) \<and> \<not> is_still_blocked (rg_globals (wd_registry w') i))"
    by (simp add: st(5) resume_mutators_def gc_count_def mutator_global_defs)
  with sync_barrier_contract [OF assms] show ?thesis by blast
qed

theorem sync_barrier_resumes_witness:
  "\<exists>m' w'. sync_barrier Debug (fifo_ops 0) ex_sched ex_env ex_mutator ex_heap = Some (Inr (m', w')) \<and>
    m' = reset ex_mutator \<and> gc_count w' = gc_count ex_heap + 1 \<and> wd_controller w' = NO_CONTROLLER"
proof -
  obtain m' w' where run: "sync_barrier Debug (fifo_ops 0) ex_sched ex_env ex_mutator ex_heap = Some (Inr (m', w'))"
    using ex_barrier by blast
  have "pool_ok fst ex_mutator ex_heap"
    unfolding pool_ok_def by (rule exI [of _ "[]"]) (simp add: held_by_def ex_mutator_def)
  from sync_barrier_resumes [OF fifo_ops_laws this run] run show ?thesis by blast
qed

section \<open>The threads of the barrier\<close>

text \<open>C3: Stop the world. Take any number of mutators, any interleaving of their steps since the
  start, mutators being created and destroyed on the way, but none created while the world is
  stopped. While the controller collects, every other registered mutator is parked on the condition
  variable, no mutator holds a block, and \<open>ROOTS\<close> contains the roots that every mutator, the
  controller included, found on its own stack. The restriction on creation is necessary, and the
  code does not enforce it (\<open>new_mutator_not_stopped\<close>).\<close>

theorem stop_the_world:
  assumes "breach p I s" and "i \<in> arena s" and "st_pc s i = Collecting" and "j \<in> arena s"
  shows "(j \<noteq> i \<longrightarrow> st_pc s j = Parked) \<and> ml_block (st_local s j) = None \<and>
    set (st_scanned s j) \<subseteq> set (wd_roots (st_world s))"
  using assms by (rule world_stopped)

theorem stop_the_world_witness:
  "\<exists>s. ex_breach s \<and> st_pc s ex_fst = Collecting \<and> st_pc s ex_snd = Parked \<and>
    set (st_scanned s ex_snd) \<subseteq> set (wd_roots (st_world s))"
proof -
  obtain s where d: "duo Collecting Parked 0 1 None True s" using duo_collecting by blast
  then have s: "ex_breach s" "ex_fst \<in> arena s" "st_pc s ex_fst = Collecting" "ex_snd \<in> arena s"
    by (simp_all add: duo_def)
  from stop_the_world [OF s] s show ?thesis by auto
qed

text \<open>C21: There is at most one controller going through the barrier at any time, and a parked
  mutator is never forgotten: some mutator is on its way to wake it, unless one has panicked. This
  holds for mutators that come and go, as long as none is created while the world is stopped.\<close>

theorem barrier_leadership:
  assumes "breach p I s" and "i \<in> arena s" and "j \<in> arena s"
  shows "(leads (st_pc s i) \<or> finishes (st_pc s i) \<longrightarrow> leads (st_pc s j) \<or> finishes (st_pc s j) \<longrightarrow> i = j) \<and>
    (st_pc s j = Parked \<longrightarrow> (\<exists>k\<in>arena s. leads (st_pc s k) \<or> finishes (st_pc s k) \<or> crashed (st_pc s k)))"
  using one_leader [OF assms] parked_has_leader [OF assms(1,3)] by blast

theorem barrier_leadership_witness:
  "\<exists>s. ex_breach s \<and> st_pc s ex_snd = Parked \<and> leads (st_pc s ex_fst) \<and>
    (\<exists>k\<in>arena s. leads (st_pc s k) \<or> finishes (st_pc s k) \<or> crashed (st_pc s k))"
proof -
  obtain s where d: "duo Collecting Parked 0 1 None True s" using duo_collecting by blast
  then have s: "ex_breach s" "ex_fst \<in> arena s" "ex_snd \<in> arena s" "st_pc s ex_snd = Parked" "st_pc s ex_fst = Collecting"
    by (simp_all add: duo_def)
  from barrier_leadership [OF s(1-3)] s(1,4,5) show ?thesis by auto
qed

text \<open>C23: The barrier itself never panics, in any run in which no mutator is created while the
  world is stopped: the assertion that a mutator which has lost the election is not the
  controller, the increment of the counter and the subtraction from \<open>N_MUTATORS\<close> never fail. A
  step into a panic comes from the stack scan or the collection.\<close>

theorem barrier_never_panics:
  assumes "breach p I s" and "i \<in> arena s" and "bstep p I i s s'" and "st_pc s' i = Crashed e"
  shows "(\<exists>seen env. st_pc s i = Rooting seen \<and>
      stack_scan p env (wd_mem (st_world s)) (wd_space (st_world s)) = Some (Inl e)) \<or>
    (\<exists>sched. st_pc s i = Collecting \<and> gc p I sched (st_world s) = Some (Inl e))"
  using assms by (rule barrier_crash)

theorem barrier_never_panics_witness:
  "\<exists>s s' e. ex_breach s \<and> bstep Debug (fifo_ops 0) ex_fst s s' \<and> st_pc s' ex_fst = Crashed e \<and>
    ((\<exists>seen env. st_pc s ex_fst = Rooting seen \<and>
      stack_scan Debug env (wd_mem (st_world s)) (wd_space (st_world s)) = Some (Inl e)) \<or>
    (\<exists>sched. st_pc s ex_fst = Collecting \<and> gc Debug (fifo_ops 0) sched (st_world s) = Some (Inl e)))"
proof -
  obtain s where d: "duo Collecting Parked 0 1 None True s" using duo_collecting by blast
  then have s: "ex_breach s" "ex_fst \<in> arena s" "st_pc s ex_fst = Collecting" by (simp_all add: duo_def)
  obtain e where e: "gc Debug (fifo_ops 0) ex_sched (st_world s) = Some (Inl e)" using duo_gc_panics [OF d] by blast
  then have st: "bstep Debug (fifo_ops 0) ex_fst s (at_pc ex_fst (Crashed e) s)" by (rule bstep.collect_crash [OF s(3)])
  from barrier_never_panics [OF s(1,2) st] s(1) st show ?thesis by force
qed

text \<open>C22: The function \<open>sync_barrier\<close> of the sequential model is a run of the protocol: when it
  returns, the steps of the controller lead from the state it starts in to the state it
  returns, with the lock free again.\<close>

theorem sync_barrier_refines:
  assumes "st_pc s i = Running" and "st_lock s = None" and "ml_id (st_local s i) = i"
    and "take_yield (rg_globals (wd_registry (st_world s)) i)"
    and "sync_barrier p I sched env (st_local s i) (st_world s) = Some (Inr (m', w'))"
  shows "\<exists>s'. (bstep p I i)\<^sup>*\<^sup>* s s' \<and> st_pc s' i = Running \<and> st_local s' i = m' \<and> st_world s' = w' \<and> st_lock s' = None"
  using sync_barrier_run [OF assms] by (simp add: controls_def)

theorem sync_barrier_refines_witness:
  "\<exists>m' w' s'. sync_barrier Debug (fifo_ops 0) ex_sched ex_env (st_local ex_solo ex_fst) (st_world ex_solo) = Some (Inr (m', w')) \<and>
    (bstep Debug (fifo_ops 0) ex_fst)\<^sup>*\<^sup>* ex_solo s' \<and> st_pc s' ex_fst = Running \<and> st_world s' = w'"
proof -
  obtain m' w' where run: "sync_barrier Debug (fifo_ops 0) ex_sched ex_env (st_local ex_solo ex_fst) (st_world ex_solo) =
      Some (Inr (m', w'))" using ex_solo_barrier by blast
  have s: "st_pc ex_solo ex_fst = Running" "st_lock ex_solo = None" "ml_id (st_local ex_solo ex_fst) = ex_fst"
    "take_yield (rg_globals (wd_registry (st_world ex_solo)) ex_fst)"
    by (simp_all add: ex_solo_def ex_mutator_def mutator_global_defs)
  from sync_barrier_refines [OF s run] run show ?thesis by blast
qed

text \<open>C36: A mutator that is created while a collection is under way is not stopped: it can take
  a block and allocate from it before the collection is over.\<close>

theorem new_mutator_not_stopped:
  assumes "breach p I s" and "i \<in> arena s" and "st_pc s i = Collecting"
    and "fresh_index (wd_registry (st_world s)) idx" and "fetch_block I (st_world s) = Some (Some b, w')"
  shows "\<exists>s'. breach_open p I s' \<and> i \<in> arena s' \<and> st_pc s' i = Collecting \<and>
    idx \<in> arena s' \<and> st_pc s' idx = Running \<and> ml_block (st_local s' idx) = Some b"
  using assms by (rule new_mutator_runs_on)

theorem new_mutator_not_stopped_witness:
  "\<exists>s'. breach_open Debug (fifo_ops 0) s' \<and> st_pc s' ex_fst = Collecting \<and>
    st_pc s' (2, 0) = Running \<and> ml_block (st_local s' (2, 0)) = Some ex_block"
proof -
  obtain s where d: "duo Collecting Parked 0 1 None True s" using duo_collecting by blast
  then have s: "ex_breach s" "ex_fst \<in> arena s" "st_pc s ex_fst = Collecting"
    "fresh_index (wd_registry (st_world s)) (2, 0)" by (simp_all add: duo_def fresh_index_def)
  obtain w' where "fetch_block (fifo_ops 0) (st_world s) = Some (Some ex_block, w')" using duo_fetch [OF d] by blast
  from new_mutator_not_stopped [OF s this] show ?thesis by blast
qed

section \<open>Roots and objects\<close>

text \<open>C34: The stack scan reads exactly the words from the stack pointer up to the low water mark,
  then the registers, and returns, in that order, those that point at a word of the space
  whose byte has the object-start bit; it reads nothing outside and always returns.\<close>

theorem stack_scan_exact:
  assumes "tables_ok sp" and "8 dvd space_size sp"
    and "8 dvd unat (se_stack_ptr env)" and "unat (se_low_water_mark env) + 8 < 2 ^ 64"
  shows "stack_scan p env mem sp = Some (Inr (filter (starts_object sp) (map ObjectReference
    (stack_words mem (from_ptr (se_stack_ptr env)) (get_low_water_mark env) @ se_regs env))))"
  using assms by (rule stack_scan_ok)

theorem stack_scan_exact_witness:
  "stack_scan Debug ex_env (\<lambda>a. if a = 4104 then 525312 else 0) ex_heap_space =
     Some (Inr [ObjectReference 525312, ObjectReference 524288])"
proof -
  have "stack_scan Debug ex_env (\<lambda>a. if a = 4104 then 525312 else 0) ex_heap_space =
    Some (Inr (filter (starts_object ex_heap_space) (map ObjectReference
      (stack_words (\<lambda>a. if a = 4104 then 525312 else 0) (from_ptr (se_stack_ptr ex_env)) (get_low_water_mark ex_env) @
       se_regs ex_env))))"
    by (rule stack_scan_exact) (simp_all add: ex_env_def)
  then show ?thesis
    by (simp add: stack_words_def from_ptr_def get_low_water_mark_def ex_env_def starts_object_def ex_ref_byte
        address_le_iff address_less_iff to_address_def upt_rec)
qed

section \<open>Mutators come and go\<close>

text \<open>C35: A new mutator satisfies the allocator's precondition on a well-formed space, and
  destroying a mutator gives its block back to the space and takes it off the registry, both
  keeping the invariants; its \<open>N_MUTATORS\<close> stays the number of registered mutators.\<close>

theorem mutator_lifecycle:
  assumes "injector_laws I c r" and "space_ok c (held_by m @ others) (wd_space w)"
    and "registry_ok (wd_registry w)" and "ml_id m \<in> set (rg_arena (wd_registry w))"
    and "user_space (wd_space w)" and "fresh_index (wd_registry w) idx"
    and "Suc (length (rg_arena (wd_registry w))) < 2 ^ 64"
  shows "(case mutator_new idx w of (m1, w1) \<Rightarrow>
      alloc_pre c m1 w1 \<and> registry_ok (wd_registry w1) \<and> ml_id m1 \<in> set (rg_arena (wd_registry w1)) \<and>
      \<not> take_yield (rg_globals (wd_registry w1) idx)) \<and>
    (case destroy I m w of (m2, w2) \<Rightarrow>
      space_ok c others (wd_space w2) \<and> registry_ok (wd_registry w2) \<and> ml_block m2 = None \<and>
      ml_id m \<notin> set (rg_arena (wd_registry w2)) \<and> heap_frame w w2)"
proof
  show "case mutator_new idx w of (m1, w1) \<Rightarrow> alloc_pre c m1 w1 \<and> registry_ok (wd_registry w1) \<and>
      ml_id m1 \<in> set (rg_arena (wd_registry w1)) \<and> \<not> take_yield (rg_globals (wd_registry w1) idx)"
    using assms registry_ok_register [OF assms(3,6,7)]
    by (auto simp: mutator_new_def alloc_pre_def pool_ok_def held_by_def mut_ok_def register_def mutator_global_defs)
  obtain m2 w2 where rb: "return_block I m w = (m2, w2)" by (cases "return_block I m w")
  have "space_ok c others (wd_space w2) \<and> heap_frame w w2 \<and> ml_block m2 = None \<and> ml_id m2 = ml_id m \<and>
      wd_registry w2 = wd_registry w"
  proof (cases "ml_block m")
    case None
    then show ?thesis using assms(2) rb by (simp add: return_block_def held_by_def)
  next
    case (Some b)
    then have "space_ok c (b # others) (wd_space w)" using assms(2) by (simp add: held_by_def)
    from space_ok_return_used_block [OF assms(1) this] show ?thesis
      using Some rb by (auto simp: return_block_def return_used_block_def heap_frame_def)
  qed
  then show "case destroy I m w of (m2, w2) \<Rightarrow> space_ok c others (wd_space w2) \<and> registry_ok (wd_registry w2) \<and>
      ml_block m2 = None \<and> ml_id m \<notin> set (rg_arena (wd_registry w2)) \<and> heap_frame w w2"
    using registry_ok_unregister [OF assms(3,4)] by (simp add: destroy_def rb heap_frame_def unregister_def)
qed

theorem mutator_lifecycle_witness:
  "(case mutator_new (1, 0) ex_claimed of (m1, w1) \<Rightarrow> alloc_pre fst m1 w1 \<and> registry_ok (wd_registry w1) \<and>
      ml_id m1 \<in> set (rg_arena (wd_registry w1)) \<and> \<not> take_yield (rg_globals (wd_registry w1) (1, 0))) \<and>
    (case destroy (fifo_ops 0) ex_bumping ex_claimed of (m2, w2) \<Rightarrow> space_ok fst [] (wd_space w2) \<and>
      registry_ok (wd_registry w2) \<and> ml_block m2 = None \<and>
      ml_id ex_bumping \<notin> set (rg_arena (wd_registry w2)) \<and> heap_frame ex_claimed w2)"
  by (rule mutator_lifecycle [OF fifo_ops_laws])
    (simp_all add: held_by_def ex_bumping_def registry_ok_def user_space_def fresh_index_def)

section \<open>A client of the allocator\<close>

text \<open>C32: \<open>MakeTree\<close> of the benchmark, when no collection intervenes, returns the root of a
  complete binary tree: its nodes, found by following the stored references, occupy pairwise
  disjoint memory inside the space, each is registered as an object, and their number is
  \<open>2 ^ (depth + 1) - 1\<close>, which is what the program's \<open>TreeSize\<close> computes as long as \<open>i32\<close>
  can hold it.\<close>

theorem make_tree_complete:
  assumes "injector_laws I c r" and "node_type_ok nt" and "alloc_pre c m w" and "0 \<le> iDepth"
    and "MakeTree fuel p I no_barrier nt iDepth m w = Some (Inr (a, m', w'))"
  shows "separate nt (tree_nodes nt (wd_mem w') (nat iDepth) a) \<and>
    (\<forall>n\<in>set (tree_nodes nt (wd_mem w') (nat iDepth) a). node_ok nt w' n) \<and>
    length (tree_nodes nt (wd_mem w') (nat iDepth) a) + 1 = 2 ^ (nat iDepth + 1) \<and>
    (iDepth \<le> 29 \<longrightarrow> TreeSize p iDepth = Inr (int (length (tree_nodes nt (wd_mem w') (nat iDepth) a)))) \<and>
    alloc_pre c m' w'"
proof -
  have "built c nt (nat iDepth) m w a m' w'"
    by (rule block_queue_spec.MakeTree_built [OF block_queue_specI [OF assms(1)] assms(2,3,5)])
  then show ?thesis
    using tree_count [OF assms(4)] length_tree_nodes by (auto simp: built_def)
qed

theorem make_tree_complete_witness:
  "\<exists>m' w'. MakeTree 0 Debug (fifo_ops 0) no_barrier mt_Node 1 ex_bumping ex_claimed = Some (Inr (Address 524352, m', w')) \<and>
    separate mt_Node (tree_nodes mt_Node (wd_mem w') 1 (Address 524352)) \<and>
    length (tree_nodes mt_Node (wd_mem w') 1 (Address 524352)) = 3"
proof -
  obtain m' w' where run: "MakeTree 0 Debug (fifo_ops 0) no_barrier mt_Node 1 ex_bumping ex_claimed =
      Some (Inr (Address 524352, m', w'))" using ex_tree by blast
  from make_tree_complete [OF fifo_ops_laws mt_Node_ok ex_bumping_pre _ run] run show ?thesis by auto
qed

text \<open>C33: \<open>Populate\<close> below a new node, when no collection intervenes, builds the same shape top
  down: a complete tree of disjoint registered objects, with as many nodes as \<open>MakeTree\<close>
  builds for that depth.\<close>

theorem populate_complete:
  assumes "injector_laws I c r" and "node_type_ok nt" and "alloc_pre c m w"
    and "bench_alloc fuel p I no_barrier nt m w = Some (Inr (a, m1, w1))"
    and "Populate fuel p I no_barrier nt iDepth a m1 w1 = Some (Inr (m', w'))"
  shows "separate nt (tree_nodes nt (wd_mem w') (nat iDepth) a) \<and>
    (\<forall>n\<in>set (tree_nodes nt (wd_mem w') (nat iDepth) a). node_ok nt w' n) \<and>
    length (tree_nodes nt (wd_mem w') (nat iDepth) a) + 1 = 2 ^ (nat iDepth + 1) \<and> alloc_pre c m' w'"
proof -
  have "built c nt (nat iDepth) m w a m' w'"
    by (rule block_queue_spec.grow_built [OF block_queue_specI [OF assms(1)] assms(2-5)])
  then show ?thesis using length_tree_nodes by (auto simp: built_def)
qed

theorem populate_complete_witness:
  "\<exists>m1 w1 m' w'. bench_alloc 0 Debug (fifo_ops 0) no_barrier mt_Node ex_bumping ex_claimed = Some (Inr (Address 524288, m1, w1)) \<and>
    Populate 0 Debug (fifo_ops 0) no_barrier mt_Node 1 (Address 524288) m1 w1 = Some (Inr (m', w')) \<and>
    separate mt_Node (tree_nodes mt_Node (wd_mem w') 1 (Address 524288))"
proof -
  obtain m1 w1 m' w' where run:
    "bench_alloc 0 Debug (fifo_ops 0) no_barrier mt_Node ex_bumping ex_claimed = Some (Inr (Address 524288, m1, w1))"
    "Populate 0 Debug (fifo_ops 0) no_barrier mt_Node 1 (Address 524288) m1 w1 = Some (Inr (m', w'))"
    using ex_populate by blast
  from populate_complete [OF fifo_ops_laws mt_Node_ok ex_bumping_pre run] run show ?thesis by auto
qed

text \<open>The tree builders of \<open>mt_gcbench.rs\<close>, which count depths in \<open>usize\<close>, compute the same as
  those of \<open>gcbench.rs\<close> at their node type, so the two properties above hold of them too.\<close>

lemma mt_trees_equal:
  "mt_Populate fuel p I slow d a m w = Populate fuel p I slow mt_Node (int d) a m w \<and>
   mt_MakeTree fuel p I slow d m w = MakeTree fuel p I slow mt_Node (int d) m w"
  by (simp add: mt_Populate_same mt_MakeTree_same)

section \<open>The programs\<close>



text \<open>C10: On a heap in which its objects fit (1145 MiB for 50 million objects of 24 bytes, 2134 MiB
  for the 69905050 nodes of \<open>mt_trace\<close>) a program allocates them all, initialises and links
  them, and returns without a single collection, whatever the barrier does; so no sweep has
  printed anything, and for \<open>exhaust\<close> the whole output is given.\<close>

theorem main_without_collection:
  assumes "injector_laws I c r" and "mmap (sz + SPACE_ALIGN) = Some ptr"
    and "unat ptr + unat sz + 2 ^ 19 + 65536 < 2 ^ 63"
    and "heap_size var = Inr sz" and "heap_enough ft (unat sz)"
  shows "\<exists>out w. main_program (3 + fuel) p I slow mmap idx mem nt durations run cpus elapsed idle ft var = Some (Inr (out, w)) \<and>
    gc_count w = 0 \<and> wd_printed w = [] \<and>
    (ft_exhaust ft \<longrightarrow> out = heap_text var sz @
       [''The current machine has '' @ dec_str (unat cpus) @ '' cpus!'', ''Program compiled in 64x mode!'',
        ''Trying to allocate 50000000 objects of (size 24, align 8). '', ''Considering header size of 0, an object should be 24. '',
        ''This would take 1200000000 bytes of '' @ dec_str (unat sz) @ '' bytes heap'', ''time used: '' @ elapsed])"
proof -
  obtain x where x: "main_program (3 + fuel) p I slow mmap idx mem nt durations run cpus elapsed idle ft var = Some (Inr x)"
    "wd_gc_count (snd x) = 0" "wd_printed (snd x) = []" "ft_exhaust ft \<longrightarrow> fst x = heap_text var sz @
       [''The current machine has '' @ dec_str (unat cpus) @ '' cpus!'', ''Program compiled in 64x mode!''] @ exhaust_report elapsed sz"
    using block_queue_spec.main_uncollected [where mmap = mmap and sz = sz, OF block_queue_specI [OF assms(1)] assms(2-5)]
    unfolding gives_def by blast
  have "[''The current machine has '' @ dec_str (unat cpus) @ '' cpus!'', ''Program compiled in 64x mode!''] @ exhaust_report elapsed sz =
      [''The current machine has '' @ dec_str (unat cpus) @ '' cpus!'', ''Program compiled in 64x mode!'',
       ''Trying to allocate 50000000 objects of (size 24, align 8). '', ''Considering header size of 0, an object should be 24. '',
       ''This would take 1200000000 bytes of '' @ dec_str (unat sz) @ '' bytes heap'', ''time used: '' @ elapsed]"
    unfolding exhaust_report_def by (simp only: append_Cons append_Nil)
  note x(4) [unfolded this]
  then show ?thesis
    using x(1-3) unfolding gc_count_def by (intro exI [of _ "fst x"] exI [of _ "snd x"] conjI) (simp_all only: prod.collapse)
qed

theorem main_without_collection_witness:
  "\<exists>out w. main_program (3 + 0) Debug (fifo_ops 0) no_barrier ex_mmap (0, 0) (\<lambda>_. 0) (Node 0 8) (\<lambda>_. (''1ms'', ''1ms'')) (\<lambda>_. None) 1 ''1ms''
     ex_fresh ex_exhaust (Some ''2048M'') = Some (Inr (out, w)) \<and> gc_count w = 0"
proof -
  have enough: "heap_enough ex_exhaust (unat (2147483648 :: usize))" by (simp add: heap_enough_def ex_exhaust_def)
  have top: "unat (4096 :: usize) + unat (2147483648 :: usize) + 2 ^ 19 + 65536 < 2 ^ 63" by simp
  show ?thesis
    by (rule exE [OF main_without_collection [where mmap = ex_mmap and sz = 2147483648, OF fifo_ops_laws ex_mmap_ok(2) top
          ex_heap_2048 enough]], elim exE conjE, intro exI conjI)
qed

text \<open>C12: Any number of threads of \<open>mt_gcbench\<close> keep to the protocol, however their steps, those of the
  main thread included, interleave: what they do to the heap is a run of mutators that are created,
  work, wait and are destroyed, so that all that is shown of such runs holds of them; and at every
  moment the registered mutators are those of the threads that are not over, one each.\<close>

theorem threads_follow_protocol:
  assumes "threads_start w T0" and "wd_registry w = empty_registry" and "n < 2 ^ 64"
    and "threads_run p I (thread_body p durations) n T0 T"
  shows "open_run p I (th_stw T0) (th_stw T) \<and>
    bij_betw (th_index T) {t. t < n \<and> holding (th_place T t)} (arena (th_stw T))"
  using threads_run_inv [OF assms(1-3) layouts_ok_thread_body assms(4)] threads_inv_bij by blast

theorem threads_follow_protocol_witness:
  "\<exists>(T0 :: (immix_block list \<times> nat) threads) (T :: (immix_block list \<times> nat) threads). th_main T = Joined \<and> open_run Debug (fifo_ops 0) (th_stw T0) (th_stw T)"
proof -
  obtain sp :: "(immix_block list \<times> nat) immix_space" and T0 T where
    T: "threads_start (initial_world sp (\<lambda>_. 0)) T0" "threads_run Debug (fifo_ops 0) (thread_body Debug ex_durations) 1 T0 T"
      "th_main T = Joined"
    using ex_threads unfolding threads_give_def by blast
  have "wd_registry (initial_world sp (\<lambda>_. 0)) = empty_registry" "(1 :: nat) < 2 ^ 64" by (simp_all add: initial_world_def)
  from threads_follow_protocol [OF T(1) this T(2)] T(3) show ?thesis by (intro exI [of _ T0] exI [of _ T]) simp
qed

text \<open>C11: When \<open>mt_gcbench\<close> returns from its last \<open>join\<close>, by whatever interleaving (\<open>run\<close> is any way to
  schedule the threads that ends), no mutator is registered any more, the counter of mutators is 0
  and each block is in one of the two queues. What it has printed, apart from the lines of the
  sweeps, is its own text around an interleaving of the threads' lines, each thread's in the order
  of the source. The lines of the sweeps (\<open>wd_printed\<close>), which fall between these at the times of
  the collections, are none in a release build; in a debug build they are three for each of the
  collections that the last line counts, in this order, and the counts of blocks in each report add
  up to the blocks of the space.\<close>

theorem mt_gcbench_joined:
  assumes "injector_laws I c r" and "mmap (sz + SPACE_ALIGN) = Some ptr" and "unat ptr + unat sz + 2 ^ 19 + 65536 < 2 ^ 63"
    and "\<forall>w x. run w = Some (Inr x) \<longrightarrow> threads_give p I (thread_body p durations) (unat n_threads) w x"
    and "mt_gcbench_start p I mmap mem run n_threads elapsed sz = Some (Inr (out, w'))"
  shows "rg_arena (wd_registry w') = [] \<and> rg_n_mutators (wd_registry w') = 0 \<and>
    mset (map ib_id (c (sp_usable_blocks (wd_space w')) @ c (sp_used_blocks (wd_space w')))) = mset [0..<sp_total_blocks (wd_space w')] \<and>
    (\<exists>reports. wd_gc_count w' = of_nat (length reports) \<and>
      wd_printed w' = concat (map (\<lambda>(free_lines, usable, full).
        if p = Debug
        then [''free lines    = '' @ dec_str free_lines @ '' of '' @ dec_str (sp_total_blocks (wd_space w') * 256) @ '' total'',
              ''usable blocks = '' @ dec_str usable, ''full blocks   = '' @ dec_str full]
        else []) reports) \<and>
      (p = Debug \<longrightarrow> (\<forall>(free_lines, usable, full)\<in>set reports. usable + full = sp_total_blocks (wd_space w')))) \<and>
    (\<exists>tagged peak. peak_capacity p n_threads = Inr peak \<and> out = mt_header peak @ map snd tagged @
        [''Completed in '' @ elapsed, ''Finished with '' @ dec_str (unat (gc_count w')) @ '' collections''] \<and>
      (\<forall>x\<in>set tagged. fst x < unat n_threads) \<and>
      (\<forall>t<unat n_threads. \<exists>measured live. mt_measured_text p durations mt_bench_depths = Inr measured \<and>
        map snd (filter (\<lambda>x. fst x = t) tagged) = ['' Creating a long-lived binary tree of depth 16''] @ measured @
          (if p = Debug then [''destroy mutator. Now live mutators = '' @ dec_str live] else [])))"
proof -
  obtain sp where sp: "space_new p I mmap sz = Some (Inr sp)" "space_ok c [] sp" "addr_nat (sp_end sp) < unat ptr + unat sz + 2 ^ 19"
    using space_new_ok [where I = I and p = p and mmap = mmap and sz = sz, OF assms(1,2)] assms(3) by auto
  let ?w = "initial_world sp mem"
  obtain peak lines where out: "run ?w = Some (Inr (lines, w'))" "peak_capacity p n_threads = Inr peak"
    "out = mt_header peak @ lines @ [''Completed in '' @ elapsed, ''Finished with '' @ dec_str (unat (gc_count w')) @ '' collections'']"
    using assms(5) sp(1) unfolding mt_gcbench_start_def split_def by auto
  have "threads_give p I (thread_body p durations) (unat n_threads) ?w (lines, w')" using assms(4) out(1) by blast
  moreover have "wd_registry ?w = empty_registry" "space_ok c [] (wd_space ?w)" "user_space (wd_space ?w)"
    "wd_controller ?w = NO_CONTROLLER" "wd_stw_count ?w = 0" "wd_gc_count ?w = 0" "wd_printed ?w = []"
    using sp(2,3) assms(3) by (simp_all add: initial_world_def user_space_def)
  ultimately have clean: "rg_arena (wd_registry w') = [] \<and> rg_n_mutators (wd_registry w') = 0 \<and> space_ok c [] (wd_space w') \<and>
    reported p w' \<and> (\<exists>tagged. lines = map snd tagged \<and> (\<forall>x\<in>set tagged. fst x < unat n_threads) \<and>
      (\<forall>t<unat n_threads. says p (thread_body p durations) (map snd (filter (\<lambda>x. fst x = t) tagged))))"
    using threads_give_clean [OF assms(1), of ?w "unat n_threads"] by simp
  then obtain tagged where tags: "lines = map snd tagged" "\<forall>x\<in>set tagged. fst x < unat n_threads"
    "\<forall>t<unat n_threads. says p (thread_body p durations) (map snd (filter (\<lambda>x. fst x = t) tagged))" by blast
  have "\<forall>t<unat n_threads. \<exists>measured live. mt_measured_text p durations mt_bench_depths = Inr measured \<and>
        map snd (filter (\<lambda>x. fst x = t) tagged) = ['' Creating a long-lived binary tree of depth 16''] @ measured @
          (if p = Debug then [''destroy mutator. Now live mutators = '' @ dec_str live] else [])"
    using tags(3) says_thread_body by blast
  then have "\<exists>tagged peak. peak_capacity p n_threads = Inr peak \<and> out = mt_header peak @ map snd tagged @
        [''Completed in '' @ elapsed, ''Finished with '' @ dec_str (unat (gc_count w')) @ '' collections''] \<and>
      (\<forall>x\<in>set tagged. fst x < unat n_threads) \<and>
      (\<forall>t<unat n_threads. \<exists>measured live. mt_measured_text p durations mt_bench_depths = Inr measured \<and>
        map snd (filter (\<lambda>x. fst x = t) tagged) = ['' Creating a long-lived binary tree of depth 16''] @ measured @
          (if p = Debug then [''destroy mutator. Now live mutators = '' @ dec_str live] else []))"
    using out(2,3) tags(1,2) by blast
  moreover have "reported p w'" using clean by blast
  ultimately show ?thesis
    using clean unfolding space_ok_def all_blocks_def reported_def sweep_report_256 by simp
qed

theorem mt_gcbench_joined_witness:
  "\<exists>run out w'. mt_gcbench_start Debug (fifo_ops 0) ex_mmap (\<lambda>_. 0) run 1 ''1ms'' ex_size =
      Some (Inr (out, w' :: (immix_block list \<times> nat) world)) \<and> rg_arena (wd_registry w') = []"
proof -
  obtain sp :: "(immix_block list \<times> nat) immix_space" and lines w' where
    sp: "space_new Debug (fifo_ops 0) ex_mmap ex_size = Some (Inr sp)"
    and give: "threads_give Debug (fifo_ops 0) (thread_body Debug ex_durations) 1 (initial_world sp (\<lambda>_. 0)) (lines, w')"
    using ex_threads by force
  let ?run = "\<lambda>w. if w = initial_world sp (\<lambda>_. 0) then Some (Inr (lines, w')) else None"
  have run: "\<forall>w x. ?run w = Some (Inr x) \<longrightarrow> threads_give Debug (fifo_ops 0) (thread_body Debug ex_durations) (unat (1 :: usize)) w x"
    using give by simp
  have "\<exists>peak. peak_capacity Debug 1 = Inr peak"
    using mt_TreeSize_eq [of 16 Debug] mt_TreeSize_eq [of 21 Debug]
    by (simp add: peak_capacity_def mt_kLongLivedTreeDepth_def mt_kMaxTreeDepth_def mt_Node_def usize_mul_def usize_add_def)
  then obtain out where "mt_gcbench_start Debug (fifo_ops 0) ex_mmap (\<lambda>_. 0) ?run 1 ''1ms'' ex_size = Some (Inr (out, w'))"
    using sp by (auto simp: mt_gcbench_start_def)
  from mt_gcbench_joined [where mmap = ex_mmap and sz = ex_size, OF fifo_ops_laws ex_size_ok(1,2) run this] this show ?thesis by blast
qed

text \<open>C37: \<open>HEAP_SIZE=<n>M\<close> stops the program exactly when \<open>n\<close> does not fit into 64 bits; otherwise
  the heap has \<open>n\<close> MiB modulo \<open>2^64\<close> bytes. The shift by 20 is not checked: from \<open>2^44\<close> on
  the upper bits are lost, and that size itself is read as an empty heap.\<close>

theorem heap_size_text:
  "(case heap_size (Some (dec_str n @ ''M'')) of
      Inl e \<Rightarrow> e = UnwrapFailed ''ParseIntError'' \<and> 2 ^ 64 \<le> n
    | Inr sz \<Rightarrow> n < 2 ^ 64 \<and> unat sz = (2 ^ 20 * n) mod 2 ^ 64) \<and>
   heap_size (Some (dec_str (2 ^ 44) @ ''M'')) = Inr 0"
proof -
  have "(push_bit 20 (of_nat (2 ^ 44)) :: usize) = 0" by (simp add: push_bit_eq_mult)
  then have "heap_size (Some (dec_str (2 ^ 44) @ ''M'')) = Inr 0" by (simp only: heap_size_dec) simp
  moreover have "n < 2 ^ 64 \<Longrightarrow> unat (of_nat n :: usize) = n" by (rule unat_of_nat_small) simp
  ultimately show ?thesis using push_bit_20 [of "of_nat n"] by (simp only: heap_size_dec) auto
qed

section \<open>Texts\<close>

text \<open>A mutator that holds a block prints itself; after it has returned the block, to be parked
  for a collection or because it is destroyed, its cursor is still set, so that printing it
  unwraps the missing block and panics.\<close>

lemma mutator_text_after_release:
  assumes "tables_ok s" and "mut_ok s m" and "sp_start s \<noteq> null_address" and "ml_block m = Some b"
  shows "(\<exists>t. mutator_Display p table m (sp_cells s) = Inr t) \<and>
    mutator_Display p table (fst (prepare_for_gc I m w)) tbl = Inl (UnwrapFailed ''None'') \<and>
    mutator_Display p table (fst (destroy I m w)) tbl = Inl (UnwrapFailed ''None'')"
proof -
  have "fst (destroy I m w) = fst (prepare_for_gc I m w)"
    by (simp add: destroy_def prepare_for_gc_def split_def Let_def)
  then show ?thesis using mutator_text(2) [OF assms(1-3)] mutator_text(3) [OF assms] by metis
qed

end
